(* ===== verification/Prelude.thy ===== *)
theory Prelude
  imports Main "HOL-Library.Word"
begin

text \<open>
  The vocabulary the components share: the C integer types, the outcome of a kernel
  function (it returns, it panics, or it goes to sleep on a channel), the sequencing of
  such functions, and the generic facts on lists, words and little-endian byte strings
  that the component proofs use.
\<close>

unbundle bit_operations_syntax

section \<open>C integer types\<close>

type_synonym uchar = "8 word"
type_synonym ushort = "16 word"
type_synonym uint = "32 word"
type_synonym uint64 = "64 word"

text \<open>
  Collections of simplification rules: \<open>page_simps\<close> for page arithmetic and
  page-wise separation of memory, \<open>mem_simps\<close> for reads after writes.
\<close>

named_theorems page_simps
named_theorems mem_simps

section \<open>Outcomes of kernel functions\<close>

text \<open>
  Sleep channels. The C code uses the address of an object as its channel; each
  constructor names the object whose address it is.
\<close>

datatype chan =
    ChBuf nat          \<comment> \<open>\<open>&b->lock\<close> of buffer \<open>b\<close>\<close>
  | ChInode nat        \<comment> \<open>\<open>&ip->lock\<close> of inode table entry \<open>ip\<close>\<close>
  | ChLog              \<comment> \<open>\<open>&log\<close>\<close>
  | ChProc nat         \<comment> \<open>process table entry, used by \<open>wait\<close>\<close>
  | ChTicks            \<comment> \<open>\<open>&ticks\<close>\<close>
  | ChCons             \<comment> \<open>\<open>&cons.r\<close>\<close>
  | ChUart             \<comment> \<open>\<open>&uart_tx_r\<close>\<close>
  | ChDisk             \<comment> \<open>\<open>&disk.free[0]\<close>\<close>
  | ChDiskBuf nat      \<comment> \<open>buffer \<open>b\<close> waiting for the disk\<close>
  | ChPipeR uint64     \<comment> \<open>\<open>&pi->nread\<close>\<close>
  | ChPipeW uint64     \<comment> \<open>\<open>&pi->nwrite\<close>\<close>

text \<open>
  A run of a kernel function from one state: \<open>Ret a s\<close> returns \<open>a\<close> in state \<open>s\<close>,
  \<open>Panic msg\<close> is a call of \<open>panic(msg)\<close>, which never returns, and \<open>Sleep c s\<close> is a
  call of \<open>sleep(c, ...)\<close> in state \<open>s\<close>: the run is suspended there until another
  process calls \<open>wakeup(c)\<close>. \<open>Hang\<close> is a loop that never ends,
  and \<open>Gone s\<close> the end of a process in \<open>exit\<close>, which never returns to its caller.
\<close>

datatype ('a, 's) outcome = Ret 'a 's | Panic string | Sleep chan 's | Hang | Gone 's

fun bnd :: "('a, 's) outcome \<Rightarrow> ('a \<Rightarrow> 's \<Rightarrow> ('b, 's) outcome) \<Rightarrow> ('b, 's) outcome" where
  "bnd (Ret a s) f = f a s"
| "bnd (Panic m) f = Panic m"
| "bnd (Sleep c s) f = Sleep c s"
| "bnd Hang f = Hang"
| "bnd (Gone s) f = Gone s"

lemma bnd_cong [fundef_cong]:
  assumes "m = m'" and "\<And>a s. m' = Ret a s \<Longrightarrow> f a s = g a s"
  shows "bnd m f = bnd m' g"
  using assms by (cases m') auto

lemma bnd_eq_Ret [simp]:
  "bnd m f = Ret b t \<longleftrightarrow> (\<exists>a s. m = Ret a s \<and> f a s = Ret b t)"
  by (cases m) auto

lemma bnd_assoc: "bnd (bnd m f) g = bnd m (\<lambda>a s. bnd (f a s) g)"
  by (cases m) auto

text \<open>The result of a run, when it returns.\<close>

fun returns :: "('a, 's) outcome \<Rightarrow> bool" where
  "returns (Ret a s) = True"
| "returns _ = False"

lemma returns_iff: "returns m \<longleftrightarrow> (\<exists>a s. m = Ret a s)"
  by (cases m) auto

text \<open>A null pointer dereference in the kernel is a trap that \<open>kerneltrap\<close> (trap.c) panics on.\<close>

abbreviation (input) null_deref :: "('a, 's) outcome" where
  "null_deref \<equiv> Panic ''kerneltrap''"

section \<open>Loops over tables\<close>

text \<open>
  \<open>for(i = 0; i < n; i++) if(P(i)) ...\<close>: the first index below \<open>n\<close> that satisfies
  \<open>P\<close>, if there is one.
\<close>

definition first_idx :: "(nat \<Rightarrow> bool) \<Rightarrow> nat \<Rightarrow> nat option" where
  "first_idx P n = List.find P [0..<n]"

lemma first_idx_None: "first_idx P n = None \<longleftrightarrow> (\<forall>i<n. \<not> P i)"
  by (auto simp: first_idx_def find_None_iff)

lemma first_idx_Some:
  "first_idx P n = Some i \<longleftrightarrow> i < n \<and> P i \<and> (\<forall>j<i. \<not> P j)"
  by (auto simp: first_idx_def find_Some_iff)

lemma first_idx_cong [fundef_cong]:
  "n = m \<Longrightarrow> (\<And>i. i < m \<Longrightarrow> P i = Q i) \<Longrightarrow> first_idx P n = first_idx Q m"
  by (auto simp: first_idx_def intro: find_cong)

section \<open>Lists\<close>

lemma map_upt_nth_eqI:
  "length xs = n \<Longrightarrow> (\<And>i. i < n \<Longrightarrow> f i = xs ! i) \<Longrightarrow> map f [0..<n] = xs"
  by (auto intro: nth_equalityI)

section \<open>Little-endian byte strings\<close>

text \<open>
  RISC-V stores integers least significant byte first. \<open>le_bytes n w\<close> is the \<open>n\<close>-byte
  representation of \<open>w\<close>, \<open>le_word\<close> reads a byte string back.
\<close>

fun le_word :: "uchar list \<Rightarrow> 'a::len word" where
  "le_word [] = 0"
| "le_word (b # bs) = ucast b OR push_bit 8 (le_word bs)"

fun le_bytes :: "nat \<Rightarrow> 'a::len word \<Rightarrow> uchar list" where
  "le_bytes 0 w = []"
| "le_bytes (Suc n) w = ucast w # le_bytes n (drop_bit 8 w)"

lemma length_le_bytes [simp]: "length (le_bytes n w) = n"
  by (induction n arbitrary: w) auto

lemma bit_le_word:
  "bit (le_word bs :: 'a::len word) k \<longleftrightarrow>
     k < LENGTH('a) \<and> k < 8 * length bs \<and> bit (bs ! (k div 8)) (k mod 8)"
proof (induction bs arbitrary: k)
  case Nil
  then show ?case by simp
next
  case (Cons b bs)
  show ?case
  proof (cases "k < 8")
    case True
    then show ?thesis by (auto simp: bit_simps Cons.IH)
  next
    case False
    then have "k div 8 = Suc ((k - 8) div 8)" and "k mod 8 = (k - 8) mod 8"
      by (auto simp: le_div_geq le_mod_geq)
    moreover have "\<not> bit b k"
      using False bit_imp_le_length [of b k] by auto
    ultimately show ?thesis using False by (auto simp: bit_simps Cons.IH)
  qed
qed

lemma nth_le_bytes:
  "i < n \<Longrightarrow> le_bytes n w ! i = ucast (drop_bit (8 * i) w)"
proof (induction n arbitrary: w i)
  case (Suc n)
  then show ?case by (cases i) (simp_all add: ac_simps)
qed simp

lemma le_word_le_bytes [simp]:
  assumes "LENGTH('a) \<le> 8 * n"
  shows "le_word (le_bytes n w) = (w :: 'a::len word)"
proof (rule bit_word_eqI)
  fix k assume k: "k < LENGTH('a)"
  have "k div 8 < n" using k assms by auto
  then show "bit (le_word (le_bytes n w) :: 'a word) k = bit w k"
    using k assms
    by (auto simp: bit_le_word nth_le_bytes bit_simps)
qed

lemma le_bytes_le_word [simp]:
  assumes "8 * length bs \<le> LENGTH('a)" and "n = length bs"
  shows "le_bytes n (le_word bs :: 'a::len word) = bs"
proof (rule nth_equalityI)
  fix i assume "i < length (le_bytes n (le_word bs :: 'a word))"
  then have i: "i < length bs" using assms by simp
  show "le_bytes n (le_word bs :: 'a word) ! i = bs ! i"
  proof (rule bit_word_eqI)
    fix k assume k: "k < LENGTH(8)"
    have "(8 * i + k) div 8 = i" and "(8 * i + k) mod 8 = k" using k by auto
    moreover have "8 * i + k < 8 * length bs" using i k by auto
    ultimately show "bit (le_bytes n (le_word bs :: 'a word) ! i) k = bit (bs ! i) k"
      using i k assms by (auto simp: nth_le_bytes bit_simps bit_le_word)
  qed
qed (use assms in simp)

end
