(* ===== verification/Layout.thy ===== *)
theory Layout
  imports Prelude
begin

text \<open>
  The constants of \<open>kernel/param.h\<close> and \<open>kernel/memlayout.h\<close> and the page-table macros
  of \<open>kernel/riscv.h\<close>, with the arithmetic facts the memory components rely on: rounding
  to pages, the round trip between physical addresses and page-table entries, the three
  9-bit indices of a virtual address, and the placement of kernel stacks.
\<close>

section \<open>param.h\<close>

abbreviation (input) NPROC :: nat where "NPROC \<equiv> 64"
abbreviation (input) NCPU :: nat where "NCPU \<equiv> 8"
abbreviation (input) NOFILE :: nat where "NOFILE \<equiv> 16"
abbreviation (input) NFILE :: nat where "NFILE \<equiv> 100"
abbreviation (input) NINODE :: nat where "NINODE \<equiv> 50"
abbreviation (input) NDEV :: nat where "NDEV \<equiv> 10"
abbreviation (input) ROOTDEV :: uint where "ROOTDEV \<equiv> 1"
abbreviation (input) MAXARG :: nat where "MAXARG \<equiv> 32"
abbreviation (input) MAXOPBLOCKS :: nat where "MAXOPBLOCKS \<equiv> 10"
abbreviation (input) LOGSIZE :: nat where "LOGSIZE \<equiv> 30"
abbreviation (input) NBUF :: nat where "NBUF \<equiv> 30"
abbreviation (input) FSSIZE :: nat where "FSSIZE \<equiv> 2000"
abbreviation (input) MAXPATH :: nat where "MAXPATH \<equiv> 128"

section \<open>Pages and page-table entries (riscv.h)\<close>

abbreviation (input) PGSIZE :: uint64 where "PGSIZE \<equiv> 4096"

definition PGROUNDUP :: "uint64 \<Rightarrow> uint64" where
  "PGROUNDUP sz = (sz + PGSIZE - 1) AND NOT (PGSIZE - 1)"

definition PGROUNDDOWN :: "uint64 \<Rightarrow> uint64" where
  "PGROUNDDOWN a = a AND NOT (PGSIZE - 1)"

abbreviation (input) PTE_V :: uint64 where "PTE_V \<equiv> 1"
abbreviation (input) PTE_R :: uint64 where "PTE_R \<equiv> 2"
abbreviation (input) PTE_W :: uint64 where "PTE_W \<equiv> 4"
abbreviation (input) PTE_X :: uint64 where "PTE_X \<equiv> 8"
abbreviation (input) PTE_U :: uint64 where "PTE_U \<equiv> 16"

definition PA2PTE :: "uint64 \<Rightarrow> uint64" where
  "PA2PTE pa = push_bit 10 (drop_bit 12 pa)"

definition PTE2PA :: "uint64 \<Rightarrow> uint64" where
  "PTE2PA pte = push_bit 12 (drop_bit 10 pte)"

definition PTE_FLAGS :: "uint64 \<Rightarrow> uint64" where
  "PTE_FLAGS pte = pte AND 0x3FF"

definition PXSHIFT :: "nat \<Rightarrow> nat" where
  "PXSHIFT level = 12 + 9 * level"

definition PX :: "nat \<Rightarrow> uint64 \<Rightarrow> uint64" where
  "PX level va = drop_bit (PXSHIFT level) va AND 0x1FF"

abbreviation (input) MAXVA :: uint64 where "MAXVA \<equiv> 0x4000000000"

section \<open>Memory layout (memlayout.h)\<close>

abbreviation (input) UART0 :: uint64 where "UART0 \<equiv> 0x10000000"
abbreviation (input) VIRTIO0 :: uint64 where "VIRTIO0 \<equiv> 0x10001000"
abbreviation (input) PLIC :: uint64 where "PLIC \<equiv> 0x0c000000"
abbreviation (input) UART0_IRQ :: uint where "UART0_IRQ \<equiv> 10"
abbreviation (input) VIRTIO0_IRQ :: uint where "VIRTIO0_IRQ \<equiv> 1"
abbreviation (input) KERNBASE :: uint64 where "KERNBASE \<equiv> 0x80000000"
abbreviation (input) PHYSTOP :: uint64 where "PHYSTOP \<equiv> 0x88000000"
abbreviation (input) TRAMPOLINE :: uint64 where "TRAMPOLINE \<equiv> MAXVA - PGSIZE"
abbreviation (input) TRAPFRAME :: uint64 where "TRAPFRAME \<equiv> TRAMPOLINE - PGSIZE"

definition KSTACK :: "nat \<Rightarrow> uint64" where
  "KSTACK p = TRAMPOLINE - (of_nat p + 1) * 2 * PGSIZE"

definition PLIC_SENABLE :: "nat \<Rightarrow> uint64" where
  "PLIC_SENABLE hart = PLIC + 0x2080 + of_nat hart * 0x100"

definition PLIC_SPRIORITY :: "nat \<Rightarrow> uint64" where
  "PLIC_SPRIORITY hart = PLIC + 0x201000 + of_nat hart * 0x2000"

definition PLIC_SCLAIM :: "nat \<Rightarrow> uint64" where
  "PLIC_SCLAIM hart = PLIC + 0x201004 + of_nat hart * 0x2000"

section \<open>Page arithmetic\<close>

definition page_aligned :: "uint64 \<Rightarrow> bool" where
  "page_aligned a \<longleftrightarrow> a mod PGSIZE = 0"

lemma page_aligned_unat: "page_aligned a \<longleftrightarrow> unat a mod 4096 = 0"
proof -
  have "a mod PGSIZE = 0 \<longleftrightarrow> unat (a mod PGSIZE) = 0"
    by (simp only: unat_eq_0)
  then show ?thesis by (simp add: page_aligned_def unat_mod_distrib)
qed

lemma page_mask: "(4095 :: uint64) = mask 12"
  by (simp add: mask_eq_exp_minus_1)

lemma PGROUNDDOWN_shift: "PGROUNDDOWN a = push_bit 12 (drop_bit 12 a)"
  unfolding PGROUNDDOWN_def
  by (rule bit_word_eqI) (auto simp: bit_simps page_mask)

lemma unat_PGROUNDDOWN: "unat (PGROUNDDOWN a) = 4096 * (unat a div 4096)"
proof -
  have d: "unat (drop_bit 12 a) = unat a div 4096"
    by (simp add: unat_drop_bit_eq drop_bit_eq_div unat_div_distrib)
  have "unat a div 4096 * 4096 < 2 ^ LENGTH(64)"
    using unsigned_less [of a, where 'a = nat] div_mult_mod_eq [of "unat a" 4096] by linarith
  then have "unat (drop_bit 12 a) * unat (4096 :: uint64) < 2 ^ LENGTH(64)"
    by (simp add: d)
  then have "unat (drop_bit 12 a * 4096) = unat (drop_bit 12 a) * unat (4096 :: uint64)"
    by (rule unat_mult_lem [THEN iffD1])
  moreover have "PGROUNDDOWN a = drop_bit 12 a * 4096"
    by (simp add: PGROUNDDOWN_shift push_bit_eq_mult)
  ultimately show ?thesis by (simp add: d)
qed

lemma page_aligned_PGROUNDDOWN [simp, page_simps]: "page_aligned (PGROUNDDOWN a)"
  by (simp add: page_aligned_unat unat_PGROUNDDOWN)

lemma PGROUNDDOWN_aligned [simp, page_simps]:
  "page_aligned a \<Longrightarrow> PGROUNDDOWN a = a"
  by (auto simp: word_unat_eq_iff unat_PGROUNDDOWN page_aligned_unat)

lemma page_aligned_bits: "page_aligned a \<longleftrightarrow> (\<forall>k<12. \<not> bit a k)"
proof -
  have "page_aligned a \<longleftrightarrow> take_bit 12 a = 0"
    by (simp add: page_aligned_def take_bit_eq_mod)
  then show ?thesis by (auto simp: bit_eq_iff bit_simps)
qed

text \<open>
  The page of an address: an address lies in the page that starts at the aligned address
  \<open>p\<close> exactly when rounding it down gives \<open>p\<close>. Hence two different pages share no byte.
\<close>

lemma in_page_iff [page_simps]:
  assumes "page_aligned p"
  shows "unat (x - p) < 4096 \<longleftrightarrow> PGROUNDDOWN x = p"
proof -
  have p: "unat p = 4096 * (unat p div 4096)"
    using assms by (simp add: page_aligned_unat mod_0_imp_dvd)
  have bx: "unat x < 18446744073709551616" and bp: "unat p < 18446744073709551616"
    using unsigned_less [of x, where 'a = nat] unsigned_less [of p, where 'a = nat] by simp_all
  have top: "unat p \<le> 18446744073709551616 - 4096"
  proof -
    have "unat p div 4096 < 4503599627370496" using bp by linarith
    then show ?thesis using p by linarith
  qed
  have "unat (x - p) < 4096 \<longleftrightarrow> unat p \<le> unat x \<and> unat x - unat p < 4096"
    using bx bp top by (auto simp: unat_sub_if' not_le)
  also have "\<dots> \<longleftrightarrow> 4096 * (unat x div 4096) = unat p"
  proof
    assume le: "unat p \<le> unat x \<and> unat x - unat p < 4096"
    then have "unat x div 4096 = unat p div 4096" using p
      by (intro div_nat_eqI) auto
    with p show "4096 * (unat x div 4096) = unat p" by simp
  qed (use div_mult_mod_eq [of "unat x" 4096] in auto)
  finally show ?thesis
    by (simp add: word_unat_eq_iff unat_PGROUNDDOWN)
qed

lemma page_offset_disjoint:
  assumes "page_aligned p" "page_aligned q" "p \<noteq> q"
    and "unat (x - p) < 4096" shows "\<not> unat (x - q) < 4096"
  using assms by (simp add: in_page_iff)

lemma PGROUNDDOWN_offset [page_simps]:
  assumes "page_aligned p" "i < 4096"
  shows "PGROUNDDOWN (p + of_nat i) = p"
proof -
  have "unat (p + of_nat i - p) < 4096"
    using assms(2) by (simp add: unat_of_nat)
  then show ?thesis using assms(1) by (simp only: in_page_iff)
qed

lemma unat_PGROUNDUP:
  assumes "unat a + 4095 < 2 ^ 64"
  shows "unat (PGROUNDUP a) = 4096 * ((unat a + 4095) div 4096)"
proof -
  have "PGROUNDUP a = PGROUNDDOWN (a + 4095)"
    by (simp add: PGROUNDUP_def PGROUNDDOWN_def add.commute)
  moreover have "unat (a + 4095) = unat a + 4095"
    using assms by (simp add: unat_word_ariths)
  ultimately show ?thesis by (simp add: unat_PGROUNDDOWN)
qed

lemma page_aligned_PGROUNDUP [simp, page_simps]: "page_aligned (PGROUNDUP a)"
  using page_aligned_PGROUNDDOWN [of "a + PGSIZE - 1"]
  by (simp add: PGROUNDUP_def PGROUNDDOWN_def)

section \<open>Page-table entries\<close>

lemma pte_bits_above:
  "f < 1024 \<Longrightarrow> 10 \<le> k \<Longrightarrow> \<not> bit (f :: uint64) k"
proof -
  assume f: "f < 1024" and k: "10 \<le> k"
  have "take_bit 10 f = f"
    using f by (simp add: take_bit_eq_mod mod_word_less)
  then have "bit f k \<longleftrightarrow> bit (take_bit 10 f) k" by simp
  then show ?thesis using k by (simp add: bit_simps)
qed

lemma PTE2PA_PA2PTE:
  assumes "page_aligned pa" "pa < 2 ^ 56" "f < 1024"
  shows "PTE2PA (PA2PTE pa OR f) = pa"
proof (rule bit_word_eqI)
  fix k :: nat
  have hi: "\<not> bit pa j" if "56 \<le> j" for j
  proof -
    have "take_bit 56 pa = pa" using assms(2) by (simp add: take_bit_eq_mod mod_word_less)
    then have "bit pa j \<longleftrightarrow> bit (take_bit 56 pa) j" by simp
    then show ?thesis using that by (simp add: bit_simps)
  qed
  have eq: "12 + (10 + (k - 12) - 10) = k" if "12 \<le> k" using that by simp
  show "bit (PTE2PA (PA2PTE pa OR f)) k = bit pa k"
  proof (cases "12 \<le> k")
    case True
    then have "\<not> bit f (10 + (k - 12))" using pte_bits_above [OF assms(3)] by simp
    with True hi [of k] show ?thesis
      by (auto simp: PTE2PA_def PA2PTE_def bit_simps eq not_le dest: bit_imp_le_length)
  next
    case False
    with assms(1) show ?thesis by (auto simp: PTE2PA_def bit_simps page_aligned_bits)
  qed
qed

lemma PTE_FLAGS_PA2PTE:
  assumes "f < 1024"
  shows "PTE_FLAGS (PA2PTE pa OR f) = f"
proof -
  have m: "(0x3FF :: uint64) = mask 10" by (simp add: mask_eq_exp_minus_1)
  show ?thesis unfolding PTE_FLAGS_def m
    using pte_bits_above [OF assms]
    by (intro bit_word_eqI) (auto simp: PA2PTE_def bit_simps not_le intro: leI)
qed

lemma page_aligned_PTE2PA [simp, page_simps]: "page_aligned (PTE2PA pte)"
  by (auto simp: page_aligned_bits PTE2PA_def bit_simps)

section \<open>Virtual addresses\<close>

lemma PX_bound: "unat (PX l va) < 512"
proof -
  have "unat (PX l va) \<le> unat (0x1FF :: uint64)"
    unfolding PX_def by (rule word_le_nat_alt [THEN iffD1, OF word_and_le1])
  then show ?thesis by simp
qed

lemma bit_PX: "bit (PX l va) k \<longleftrightarrow> k < 9 \<and> bit va (PXSHIFT l + k)"
proof -
  have m: "(0x1FF :: uint64) = mask 9" by (simp add: mask_eq_exp_minus_1)
  show ?thesis unfolding PX_def m
    by (auto simp: bit_simps)
qed

text \<open>
  Below \<open>MAXVA\<close> the three indices and the page offset determine the virtual address:
  two addresses with the same indices lie in the same page.
\<close>

lemma PX_inject:
  assumes "va < MAXVA" "vb < MAXVA"
    and "PX 2 va = PX 2 vb" "PX 1 va = PX 1 vb" "PX 0 va = PX 0 vb"
  shows "PGROUNDDOWN va = PGROUNDDOWN vb"
proof -
  have hi: "\<not> bit v k" if "v < MAXVA" "38 \<le> k" for v :: uint64 and k
  proof -
    have "take_bit 38 v = v" using that(1) by (simp add: take_bit_eq_mod mod_word_less)
    then have "bit v k \<longleftrightarrow> bit (take_bit 38 v) k" by simp
    then show ?thesis using that(2) by (simp add: bit_simps)
  qed
  have lvl: "bit va (12 + 9 * l + j) = bit vb (12 + 9 * l + j)" if "l < 3" "j < 9" for l j
  proof -
    have "PX l va = PX l vb" using assms(3-5) that(1)
      by (auto simp: less_Suc_eq numeral_3_eq_3 numeral_2_eq_2)
    then have "bit (PX l va) j = bit (PX l vb) j" by simp
    with that(2) show ?thesis by (simp add: bit_PX PXSHIFT_def)
  qed
  have "bit va k = bit vb k" if "12 \<le> k" for k
  proof (cases "k < 38")
    case True
    define l j where "l = (k - 12) div 9" and "j = (k - 12) mod 9"
    have "l < 3" using True by (simp add: l_def less_mult_imp_div_less)
    moreover have "j < 9" by (simp add: j_def)
    moreover have "12 + 9 * l + j = k" using that by (simp add: l_def j_def)
    ultimately show ?thesis using lvl [of l j] by simp
  qed (use hi [OF assms(1)] hi [OF assms(2)] in simp)
  then show ?thesis
    by (intro bit_word_eqI) (auto simp: PGROUNDDOWN_shift bit_simps)
qed

lemma unat_KSTACK:
  assumes "p < NPROC"
  shows "unat (KSTACK p) = 274877898752 - p * 8192 - 4096"
proof -
  have "KSTACK p = of_nat (274877898752 - p * 8192 - 4096)"
    using assms by (simp add: KSTACK_def of_nat_diff algebra_simps)
  then have "unat (KSTACK p) = (274877898752 - p * 8192 - 4096) mod 2 ^ LENGTH(64)"
    by (simp only: unat_of_nat)
  then show ?thesis by simp
qed

end
