(* ===== verification/Memory.thy ===== *)
theory Memory
  imports Layout
begin

text \<open>
  Physical memory as bytes addressed by 64-bit words, little-endian loads and stores, and
  \<open>kernel/string.c\<close> on that memory. \<open>memmove\<close> is proved to copy as if all bytes moved at
  once, overlap or not; \<open>strncmp\<close>, \<open>strncpy\<close>, \<open>safestrcpy\<close> and \<open>strlen\<close> are related to
  the NUL-terminated string in memory.
\<close>

type_synonym memory = "uint64 \<Rightarrow> uchar"

record machine =
  mem :: memory
  kout :: string   \<comment> \<open>what the kernel has printed with \<open>printf\<close>\<close>

section \<open>Loads and stores\<close>

definition load_bytes :: "memory \<Rightarrow> uint64 \<Rightarrow> nat \<Rightarrow> uchar list" where
  "load_bytes m a n = map (\<lambda>i. m (a + of_nat i)) [0..<n]"

fun store_bytes :: "memory \<Rightarrow> uint64 \<Rightarrow> uchar list \<Rightarrow> memory" where
  "store_bytes m a [] = m"
| "store_bytes m a (b # bs) = store_bytes (m(a := b)) (a + 1) bs"

definition load64 :: "memory \<Rightarrow> uint64 \<Rightarrow> uint64" where
  "load64 m a = le_word (load_bytes m a 8)"

definition store64 :: "memory \<Rightarrow> uint64 \<Rightarrow> uint64 \<Rightarrow> memory" where
  "store64 m a v = store_bytes m a (le_bytes 8 v)"

section \<open>string.c\<close>

text \<open>\<open>for(i = 0; i < n; i++) cdst[i] = c;\<close>\<close>

fun memset :: "memory \<Rightarrow> uint64 \<Rightarrow> uchar \<Rightarrow> nat \<Rightarrow> memory" where
  "memset m dst c 0 = m"
| "memset m dst c (Suc n) = memset (m(dst := c)) (dst + 1) c n"

text \<open>The difference of the first two bytes that differ, 0 if none does.\<close>

fun memcmp :: "memory \<Rightarrow> uint64 \<Rightarrow> uint64 \<Rightarrow> nat \<Rightarrow> int" where
  "memcmp m s1 s2 0 = 0"
| "memcmp m s1 s2 (Suc n) =
     (if m s1 \<noteq> m s2 then uint (m s1) - uint (m s2)
      else memcmp m (s1 + 1) (s2 + 1) n)"

text \<open>The two loops of \<open>memmove\<close>: upwards, and downwards from past the end.\<close>

fun copy_up :: "memory \<Rightarrow> uint64 \<Rightarrow> uint64 \<Rightarrow> nat \<Rightarrow> memory" where
  "copy_up m d s 0 = m"
| "copy_up m d s (Suc n) = copy_up (m(d := m s)) (d + 1) (s + 1) n"

fun copy_down :: "memory \<Rightarrow> uint64 \<Rightarrow> uint64 \<Rightarrow> nat \<Rightarrow> memory" where
  "copy_down m d s 0 = m"
| "copy_down m d s (Suc n) = copy_down (m(d - 1 := m (s - 1))) (d - 1) (s - 1) n"

definition memmove :: "memory \<Rightarrow> uint64 \<Rightarrow> uint64 \<Rightarrow> nat \<Rightarrow> memory" where
  "memmove m dst src n =
     (if n = 0 then m
      else if src < dst \<and> src + of_nat n > dst
      then copy_down m (dst + of_nat n) (src + of_nat n) n
      else copy_up m dst src n)"

text \<open>
  The loop of \<open>strncmp\<close> over two character arrays, from index \<open>i\<close> on; \<open>strncmp\<close> itself
  runs it on two addresses.
\<close>

fun strncmp_at :: "(nat \<Rightarrow> uchar) \<Rightarrow> (nat \<Rightarrow> uchar) \<Rightarrow> nat \<Rightarrow> nat \<Rightarrow> int" where
  "strncmp_at p q i 0 = 0"
| "strncmp_at p q i (Suc n) =
     (if p i \<noteq> 0 \<and> p i = q i then strncmp_at p q (Suc i) n
      else uint (p i) - uint (q i))"

definition strncmp :: "memory \<Rightarrow> uint64 \<Rightarrow> uint64 \<Rightarrow> nat \<Rightarrow> int" where
  "strncmp m p q n = strncmp_at (\<lambda>i. m (p + of_nat i)) (\<lambda>i. m (q + of_nat i)) 0 n"

text \<open>
  \<open>while(n-- > 0 && (*s++ = *t++) != 0);\<close> then \<open>while(n-- > 0) *s++ = 0;\<close>.
  \<open>n\<close> is a C \<open>int\<close>: a negative count copies nothing.
\<close>

fun strncpy_loop :: "memory \<Rightarrow> uint64 \<Rightarrow> uint64 \<Rightarrow> nat \<Rightarrow> memory" where
  "strncpy_loop m s t 0 = m"
| "strncpy_loop m s t (Suc n) =
     (let m' = m(s := m t) in
      if m t \<noteq> 0 then strncpy_loop m' (s + 1) (t + 1) n
      else memset m' (s + 1) 0 n)"

definition strncpy :: "memory \<Rightarrow> uint64 \<Rightarrow> uint64 \<Rightarrow> int \<Rightarrow> memory" where
  "strncpy m s t n = strncpy_loop m s t (nat n)"

text \<open>\<open>while(--n > 0 && (*s++ = *t++) != 0); *s = 0;\<close>\<close>

fun safestrcpy_loop :: "memory \<Rightarrow> uint64 \<Rightarrow> uint64 \<Rightarrow> nat \<Rightarrow> memory" where
  "safestrcpy_loop m s t 0 = m(s := 0)"
| "safestrcpy_loop m s t (Suc n) =
     (let m' = m(s := m t) in
      if m t \<noteq> 0 then safestrcpy_loop m' (s + 1) (t + 1) n
      else m'(s + 1 := 0))"

definition safestrcpy :: "memory \<Rightarrow> uint64 \<Rightarrow> uint64 \<Rightarrow> int \<Rightarrow> memory" where
  "safestrcpy m s t n = (if n \<le> 0 then m else safestrcpy_loop m s t (nat n - 1))"

text \<open>
  \<open>for(n = 0; s[n]; n++);\<close> does not return when no byte from \<open>s\<close> on is NUL.
\<close>

partial_function (option) strlen_loop :: "memory \<Rightarrow> uint64 \<Rightarrow> nat \<Rightarrow> nat option" where
  "strlen_loop m s n =
     (if m (s + of_nat n) = 0 then Some n else strlen_loop m s (n + 1))"

definition strlen :: "memory \<Rightarrow> uint64 \<Rightarrow> nat option" where
  "strlen m s = strlen_loop m s 0"

section \<open>Reads after writes\<close>

lemma unat_minus_Suc:
  assumes "x \<noteq> (a :: uint64)"
  shows "unat (x - a) = Suc (unat (x - (a + 1)))"
proof -
  have "x - a = 1 + (x - (a + 1))" by simp
  moreover have "1 + (x - (a + 1)) \<noteq> 0" using assms by simp
  ultimately show ?thesis by (metis unatSuc)
qed

lemma unat_minus_1 [simp]: "unat (- 1 :: uint64) = 2 ^ 64 - 1"
  by (simp add: unsigned_minus_1_eq_mask mask_eq_exp_minus_1)

lemma store_bytes_apply [mem_simps]:
  "length bs \<le> 2 ^ 64 \<Longrightarrow>
   store_bytes m a bs x = (if unat (x - a) < length bs then bs ! unat (x - a) else m x)"
proof (induction bs arbitrary: m a)
  case (Cons b bs)
  show ?case
  proof (cases "x = a")
    case True
    then show ?thesis using Cons by simp
  next
    case False
    then show ?thesis using Cons by (auto simp: unat_minus_Suc [OF False])
  qed
qed simp

lemma memset_apply [mem_simps]:
  "n \<le> 2 ^ 64 \<Longrightarrow> memset m a c n x = (if unat (x - a) < n then c else m x)"
proof (induction n arbitrary: m a)
  case (Suc n)
  show ?case
  proof (cases "x = a")
    case True
    then show ?thesis using Suc by simp
  next
    case False
    then show ?thesis using Suc by (auto simp: unat_minus_Suc [OF False])
  qed
qed simp

lemma length_load_bytes [simp]: "length (load_bytes m a n) = n"
  by (simp add: load_bytes_def)

lemma nth_load_bytes [simp]: "i < n \<Longrightarrow> load_bytes m a n ! i = m (a + of_nat i)"
  by (simp add: load_bytes_def)

lemma unat_offset: "i < 2 ^ 64 \<Longrightarrow> unat (a + of_nat i - a :: uint64) = i"
  by (simp add: unat_of_nat)

lemma load_store_bytes:
  assumes "length bs \<le> 2 ^ 64"
  shows "load_bytes (store_bytes m a bs) a (length bs) = bs"
  using assms by (intro nth_equalityI) (simp_all add: store_bytes_apply unat_of_nat)

lemma load_bytes_cong:
  "(\<And>i. i < n \<Longrightarrow> m (a + of_nat i) = m' (a + of_nat i)) \<Longrightarrow> load_bytes m a n = load_bytes m' a n"
  by (simp add: load_bytes_def)

lemma load64_store64 [simp, mem_simps]: "load64 (store64 m a v) a = v"
proof -
  have "load_bytes (store_bytes m a (le_bytes 8 v)) a 8 = le_bytes 8 v"
    using load_store_bytes [of "le_bytes 8 v" m a] by simp
  then show ?thesis by (simp add: load64_def store64_def)
qed

lemma store64_apply [mem_simps]:
  "store64 m a v x = (if unat (x - a) < 8 then le_bytes 8 v ! unat (x - a) else m x)"
  by (simp add: store64_def store_bytes_apply)

section \<open>Slots of a page\<close>

text \<open>
  A page holds 512 eight-byte slots; \<open>slot p i\<close> is the address of slot \<open>i\<close> of page \<open>p\<close>.
  Page-table entries are addressed this way, and slot 0 of a free page is its link.
\<close>

definition slot :: "uint64 \<Rightarrow> nat \<Rightarrow> uint64" where
  "slot p i = p + 8 * of_nat i"

lemma slot_0 [simp]: "slot p 0 = p"
  by (simp add: slot_def)

lemma slot_offset: "slot p i + of_nat k = p + of_nat (8 * i + k)"
  by (simp add: slot_def)

lemma PGROUNDDOWN_slot [page_simps]:
  assumes "page_aligned p" "i < 512" "k < 8"
  shows "PGROUNDDOWN (slot p i + of_nat k) = p"
proof -
  have "8 * i + k < 4096" using assms by simp
  then show ?thesis using assms(1) by (simp only: slot_offset PGROUNDDOWN_offset)
qed

lemma slot_byte_other:
  assumes "i < 512" "j < 512" "i \<noteq> j" "k < 8"
  shows "\<not> unat (slot p j + of_nat k - slot p i) < 8"
proof -
  have "slot p j + of_nat k - slot p i = of_nat (8 * j + k) - of_nat (8 * i)"
    by (simp add: slot_def)
  moreover have "unat (of_nat (8 * j + k) :: uint64) = 8 * j + k"
    and "unat (of_nat (8 * i) :: uint64) = 8 * i"
    using assms by (simp_all only: unat_of_nat) simp_all
  ultimately have "unat (slot p j + of_nat k - slot p i) =
      (if 8 * i \<le> 8 * j + k then 8 * j + k - 8 * i else 8 * j + k + 2 ^ LENGTH(64) - 8 * i)"
    by (simp only: unat_sub_if')
  then show ?thesis using assms by auto
qed

lemma load64_store64_slot [mem_simps]:
  assumes "page_aligned p" "page_aligned q" "i < 512" "j < 512"
  shows "load64 (store64 m (slot p i) v) (slot q j) =
     (if p = q \<and> i = j then v else load64 m (slot q j))"
proof (cases "p = q \<and> i = j")
  case False
  have "store64 m (slot p i) v (slot q j + of_nat k) = m (slot q j + of_nat k)" if "k < 8" for k
  proof -
    have "\<not> unat (slot q j + of_nat k - slot p i) < 8"
    proof
      assume near: "unat (slot q j + of_nat k - slot p i) < 8"
      show False
      proof (cases "p = q")
        case True
        with False near slot_byte_other [OF assms(3,4) _ that] show False by auto
      next
        case pq: False
        define d where "d = unat (slot q j + of_nat k - slot p i)"
        have "slot q j + of_nat k = slot p i + of_nat d"
          by (simp add: d_def)
        moreover have "d < 8" using near by (simp add: d_def)
        ultimately show False
          using PGROUNDDOWN_slot [OF assms(1,3)] PGROUNDDOWN_slot [OF assms(2,4) that] pq by metis
      qed
    qed
    then show ?thesis by (simp add: store64_apply)
  qed
  then have "load64 (store64 m (slot p i) v) (slot q j) = load64 m (slot q j)"
    by (simp add: load64_def cong: load_bytes_cong)
  then show ?thesis by (simp only: False if_False)
qed auto

lemma load64_memset_page [mem_simps]:
  assumes "page_aligned p" "page_aligned q" "j < 512"
  shows "load64 (memset m p c 4096) (slot q j) =
     (if p = q then le_word (replicate 8 c) else load64 m (slot q j))"
proof -
  have "memset m p c 4096 (slot q j + of_nat k) = (if p = q then c else m (slot q j + of_nat k))"
    if "k < 8" for k
    using assms that by (auto simp: memset_apply in_page_iff PGROUNDDOWN_slot)
  then have "load_bytes (memset m p c 4096) (slot q j) 8 =
      (if p = q then replicate 8 c else load_bytes m (slot q j) 8)"
    by (auto intro!: nth_equalityI)
  then show ?thesis by (simp add: load64_def)
qed

lemma le_word_zeros [simp]: "le_word (replicate n 0) = 0"
  by (induction n) auto

section \<open>memmove\<close>

lemma copy_up_apply:
  assumes "n \<le> 2 ^ 63" and "d = s \<or> n \<le> unat (d - s)"
  shows "copy_up m d s n x = (if unat (x - d) < n then m (s + (x - d)) else m x)"
  using assms
proof (induction n arbitrary: m d s)
  case (Suc n)
  have pre: "n \<le> 2 ^ 63" "d + 1 = s + 1 \<or> n \<le> unat (d + 1 - (s + 1))"
    using Suc.prems by auto
  have eq: "s + 1 + (x - (d + 1)) = s + (x - d)" by simp
  have IH: "copy_up (m(d := m s)) (d + 1) (s + 1) n x =
      (if unat (x - (d + 1)) < n then (m(d := m s)) (s + (x - d)) else (m(d := m s)) x)"
    using Suc.IH [OF pre] by (simp only: eq)
  show ?case
  proof (cases "x = d")
    case True
    then show ?thesis using IH Suc.prems(1) by simp
  next
    case False
    have u: "unat (x - d) = Suc (unat (x - (d + 1)))" by (rule unat_minus_Suc [OF False])
    have ne: "s + (x - d) \<noteq> d \<or> d = s" if "unat (x - (d + 1)) < n"
    proof (rule ccontr)
      assume "\<not> (s + (x - d) \<noteq> d \<or> d = s)"
      then have "x - d = d - s" and "d \<noteq> s" by (auto simp: algebra_simps)
      then show False using that u Suc.prems(2) by simp
    qed
    show ?thesis
      using IH ne False u by auto
  qed
qed simp

lemma copy_down_apply:
  assumes "n \<le> 2 ^ 63" and "d = s \<or> n \<le> unat (s - d)"
  shows "copy_down m (d + of_nat n) (s + of_nat n) n x =
     (if unat (x - d) < n then m (s + (x - d)) else m x)"
  using assms
proof (induction n arbitrary: m)
  case (Suc n)
  define e where "e = d + of_nat n"
  define m' where "m' = m(e := m (s + of_nat n))"
  have step: "copy_down m (d + of_nat (Suc n)) (s + of_nat (Suc n)) (Suc n) x =
      copy_down m' (d + of_nat n) (s + of_nat n) n x"
    by (simp add: m'_def e_def)
  have IH: "copy_down m' (d + of_nat n) (s + of_nat n) n x =
      (if unat (x - d) < n then m' (s + (x - d)) else m' x)"
    using Suc.prems by (intro Suc.IH) auto
  have ue: "unat (e - d) = n" using Suc.prems(1) by (simp add: e_def unat_of_nat)
  show ?case
  proof (cases "x = e")
    case True
    then show ?thesis using step IH ue by (simp add: m'_def) (simp add: e_def)
  next
    case False
    have "unat (x - d) \<noteq> n" using False ue
      by (metis diff_add_cancel word_unat_eq_iff)
    then have lt: "unat (x - d) < Suc n \<longleftrightarrow> unat (x - d) < n" by auto
    have ne: "s + (x - d) \<noteq> e \<or> d = s" if "unat (x - d) < n"
    proof (rule ccontr)
      assume a: "\<not> (s + (x - d) \<noteq> e \<or> d = s)"
      then have "s - d = (e - d) - (x - d)" by (auto simp: algebra_simps)
      moreover have "unat ((e - d) - (x - d)) = unat (e - d) - unat (x - d)"
        using that ue by (intro unat_sub) (simp add: word_le_nat_alt)
      ultimately have "unat (s - d) = n - unat (x - d)" using ue by simp
      then show False using that a Suc.prems(2) by simp
    qed
    show ?thesis
      unfolding step IH lt using ne False by (auto simp: m'_def)
  qed
qed simp

lemma memmove_apply:
  assumes "n < 2 ^ 32" and "unat dst + n \<le> 2 ^ 64" and "unat src + n < 2 ^ 64"
  shows "memmove m dst src n x = (if unat (x - dst) < n then m (src + (x - dst)) else m x)"
proof (cases "n = 0")
  case False
  have n63: "n \<le> 2 ^ 63" using assms(1) by simp
  have end_src: "unat (src + of_nat n) = unat src + n"
    using assms(1,3) by (simp add: unat_word_ariths unat_of_nat)
  show ?thesis
  proof (cases "src < dst \<and> src + of_nat n > dst")
    case True
    then have "unat src < unat dst" "unat dst < unat src + n"
      using end_src by (auto simp: word_less_nat_alt)
    then have "unat (src - dst) = 2 ^ 64 - (unat dst - unat src)"
      by (auto simp: unat_sub_if')
    then have "n \<le> unat (src - dst)"
      using assms(1) \<open>unat dst < unat src + n\<close> by simp
    with True False n63 show ?thesis by (simp add: memmove_def copy_down_apply)
  next
    case other: False
    have "dst = src \<or> n \<le> unat (dst - src)"
    proof (cases "unat src \<le> unat dst")
      case True
      then show ?thesis
        using other end_src by (auto simp: word_less_nat_alt unat_sub_if' word_unat_eq_iff not_less)
    next
      case gt: False
      then have "unat (dst - src) = unat dst + 2 ^ 64 - unat src"
        by (simp add: unat_sub_if')
      then have "n \<le> unat (dst - src)" using assms(3) gt by simp
      then show ?thesis ..
    qed
    with other False n63 show ?thesis by (auto simp: memmove_def copy_up_apply)
  qed
qed (simp add: memmove_def)

text \<open>
  C16. \<open>memmove\<close> (string.c) moves \<open>n\<close> bytes as if they were all read before any is
  written, whether or not the two ranges overlap, and changes no byte outside the
  destination. The ranges must not run past the end of the address space; the count is a
  C \<open>uint\<close>.
\<close>

theorem memmove_moves_all_at_once:
  assumes "n < 2 ^ 32" and "unat dst + n \<le> 2 ^ 64" and "unat src + n < 2 ^ 64"
  shows "memmove m dst src n x = (if unat (x - dst) < n then m (src + (x - dst)) else m x)"
  by (rule memmove_apply [OF assms])

theorem memmove_moves_all_at_once_witness:
  "memmove (\<lambda>a. ucast a) 0x1001 0x1000 3 0x1003 = (2 :: uchar)
   \<and> memmove (\<lambda>a. ucast a) 0x1001 0x1000 3 0x1004 = (4 :: uchar)"
  using memmove_moves_all_at_once [of 3 "0x1001" "0x1000" "\<lambda>a. ucast a" "0x1003"]
    memmove_moves_all_at_once [of 3 "0x1001" "0x1000" "\<lambda>a. ucast a" "0x1004"]
  by simp

section \<open>C strings\<close>

text \<open>
  The string an array of \<open>n\<close> characters holds: its characters up to the first NUL, all
  \<open>n\<close> of them if there is none.
\<close>

definition cstring :: "(nat \<Rightarrow> uchar) \<Rightarrow> nat \<Rightarrow> uchar list" where
  "cstring f n = takeWhile (\<lambda>c. c \<noteq> 0) (map f [0..<n])"

abbreviation (input) chars :: "memory \<Rightarrow> uint64 \<Rightarrow> nat \<Rightarrow> uchar" where
  "chars m a \<equiv> (\<lambda>i. m (a + of_nat i))"

lemma strncmp_at_eq_0:
  "strncmp_at p q i n = 0 \<longleftrightarrow>
     takeWhile (\<lambda>c. c \<noteq> 0) (map p [i..<i + n]) = takeWhile (\<lambda>c. c \<noteq> 0) (map q [i..<i + n])"
proof (induction n arbitrary: i)
  case (Suc n)
  have "[i..<i + Suc n] = i # [Suc i..<Suc i + n]"
    by (simp add: upt_conv_Cons del: upt_Suc)
  then show ?case using Suc.IH [of "Suc i"] by (auto simp: word_uint_eq_iff)
qed simp

lemma strncmp_eq_0_iff:
  "strncmp m p q n = 0 \<longleftrightarrow> cstring (chars m p) n = cstring (chars m q) n"
  using strncmp_at_eq_0 [of "chars m p" "chars m q" 0 n]
  by (simp add: strncmp_def cstring_def)

lemma strlen_loop_step:
  "(\<forall>i. k \<le> i \<and> i < n \<longrightarrow> m (s + of_nat i) \<noteq> 0) \<Longrightarrow> m (s + of_nat n) = 0 \<Longrightarrow> k \<le> n
   \<Longrightarrow> strlen_loop m s k = Some n"
proof (induction "n - k" arbitrary: k)
  case 0
  then show ?case by (subst strlen_loop.simps) simp
next
  case (Suc d)
  then have "strlen_loop m s (k + 1) = Some n"
    by (intro Suc.hyps) auto
  with Suc show ?case by (subst strlen_loop.simps) auto
qed

lemma strlen_finds_nul:
  assumes "\<forall>i<n. m (s + of_nat i) \<noteq> 0" and "m (s + of_nat n) = 0"
  shows "strlen m s = Some n"
  using assms strlen_loop_step [of 0 n m s] by (simp add: strlen_def)

text \<open>
  The copying loops read the source while they write the destination; the ranges must be
  apart for the copy to be the source string.
\<close>

definition apart :: "uint64 \<Rightarrow> uint64 \<Rightarrow> nat \<Rightarrow> bool" where
  "apart s t n \<longleftrightarrow> n \<le> unat (s - t) \<and> n \<le> unat (t - s)"

lemma apart_Suc: "apart s t (Suc n) \<Longrightarrow> apart (s + 1) (t + 1) n"
  by (simp add: apart_def)

lemma apart_neq: "apart s t n \<Longrightarrow> j < n \<Longrightarrow> t + of_nat j \<noteq> s"
proof
  assume a: "apart s t n" "j < n" and eq: "t + of_nat j = s"
  have "n \<le> 2 ^ 64" using a(1) unsigned_less [of "s - t", where 'a = nat]
    by (simp add: apart_def)
  then have "unat (s - t) = j" using a(2) eq by (auto simp: unat_of_nat)
  then show False using a by (simp add: apart_def)
qed

lemma takeWhile_map_upt_Suc:
  "takeWhile P (map f [0..<Suc n]) =
     (if P (f 0) then f 0 # takeWhile P (map (\<lambda>i. f (Suc i)) [0..<n]) else [])"
proof -
  have "map f [0..<Suc n] = f 0 # map (\<lambda>i. f (Suc i)) [0..<n]"
    by (simp only: map_upt_Suc)
  then show ?thesis by simp
qed

lemma cstring_Suc:
  "cstring (chars m a) (Suc n) = (if m a \<noteq> 0 then m a # cstring (chars m (a + 1)) n else [])"
  by (simp add: cstring_def takeWhile_map_upt_Suc algebra_simps del: upt_Suc)

lemma cstring_0 [simp]: "cstring f 0 = []"
  by (simp add: cstring_def)

lemma cstring_cong:
  "(\<And>i. i < n \<Longrightarrow> f i = g i) \<Longrightarrow> cstring f n = cstring g n"
  by (auto simp: cstring_def intro!: arg_cong [where f = "takeWhile _"])

lemma chars_Suc: "m (a + 1 + of_nat i) = m (a + of_nat (Suc i))"
  by (simp add: algebra_simps)

lemma strncpy_loop_apply:
  assumes "apart s t n"
  shows "strncpy_loop m s t n x =
     (if unat (x - s) < n
      then let z = cstring (chars m t) n in
           if unat (x - s) < length z then z ! unat (x - s) else 0
      else m x)"
  using assms
proof (induction n arbitrary: m s t)
  case (Suc n)
  define m' where "m' = m(s := m t)"
  have n64: "n < 2 ^ 64" using Suc.prems unsigned_less [of "s - t", where 'a = nat]
    by (simp add: apart_def)
  have src: "cstring (chars m' (t + 1)) n = cstring (chars m (t + 1)) n"
    using apart_neq [OF Suc.prems] by (intro cstring_cong) (simp add: m'_def chars_Suc del: of_nat_Suc)
  have IH: "strncpy_loop m' (s + 1) (t + 1) n x =
     (if unat (x - (s + 1)) < n
      then let z = cstring (chars m (t + 1)) n in
           if unat (x - (s + 1)) < length z then z ! unat (x - (s + 1)) else 0
      else m' x)"
    using Suc.IH [OF apart_Suc [OF Suc.prems], of m'] by (simp only: src)
  show ?case
  proof (cases "x = s")
    case True
    then show ?thesis using IH n64
      by (auto simp: m'_def [symmetric] cstring_Suc memset_apply) (auto simp: m'_def)
  next
    case False
    note u = unat_minus_Suc [OF False]
    then show ?thesis using IH n64 False
      by (auto simp: m'_def [symmetric] cstring_Suc memset_apply u Let_def) (auto simp: m'_def)
  qed
qed (simp add: Let_def)

lemma safestrcpy_loop_apply:
  assumes "apart s t (Suc n)"
  shows "safestrcpy_loop m s t n x =
     (let z = cstring (chars m t) n; k = unat (x - s) in
      if k < length z then z ! k
      else if k = length z \<or> (k = Suc (length z) \<and> length z < n) then 0 else m x)"
  using assms
proof (induction n arbitrary: m s t)
  case (Suc n)
  define m' where "m' = m(s := m t)"
  have src: "cstring (chars m' (t + 1)) n = cstring (chars m (t + 1)) n"
    using apart_neq [OF Suc.prems] by (intro cstring_cong) (simp add: m'_def chars_Suc del: of_nat_Suc)
  have n64: "Suc n < 2 ^ 64" using Suc.prems unsigned_less [of "s - t", where 'a = nat]
    by (simp add: apart_def)
  have len: "length (cstring (chars m (t + 1)) n) \<le> n"
    using length_takeWhile_le [of "\<lambda>c. c \<noteq> 0" "map (chars m (t + 1)) [0..<n]"]
    by (simp add: cstring_def)
  have IH: "safestrcpy_loop m' (s + 1) (t + 1) n x =
     (let z = cstring (chars m (t + 1)) n; k = unat (x - (s + 1)) in
      if k < length z then z ! k
      else if k = length z \<or> (k = Suc (length z) \<and> length z < n) then 0 else m' x)"
    using Suc.IH [OF apart_Suc [OF Suc.prems], of m'] by (simp only: src)
  show ?case
  proof (cases "x = s")
    case True
    then show ?thesis using IH n64 len
      by (auto simp: m'_def [symmetric] cstring_Suc Let_def) (auto simp: m'_def)
  next
    case False
    note u = unat_minus_Suc [OF False]
    have "x = s + 1 \<longleftrightarrow> unat (x - (s + 1)) = 0" by (simp add: unat_eq_0)
    then show ?thesis using IH False len
      by (auto simp: m'_def [symmetric] cstring_Suc u Let_def) (auto simp: m'_def)
  qed
qed (auto simp: Let_def unat_eq_0)

lemma cstring_eqI:
  assumes "length z < n" "0 \<notin> set z" "\<And>i. i < length z \<Longrightarrow> f i = z ! i" "f (length z) = 0"
  shows "cstring f n = z"
proof -
  have "[0..<n] = [0..<length z] @ length z # [Suc (length z)..<n]"
    using assms(1) by (metis le_add_same_cancel1 less_imp_le upt_add_eq_append upt_conv_Cons zero_le le_add_diff_inverse)
  moreover have "map f [0..<length z] = z"
    using assms(3) by (intro map_upt_nth_eqI) auto
  ultimately have "map f [0..<n] = z @ 0 # map f [Suc (length z)..<n]"
    using assms(4) by simp
  moreover have "\<And>c. c \<in> set z \<Longrightarrow> c \<noteq> 0" using assms(2) by auto
  ultimately show ?thesis by (simp add: cstring_def takeWhile_append2)
qed

lemma length_cstring_le: "length (cstring f n) \<le> n"
  using length_takeWhile_le [of "\<lambda>c. c \<noteq> 0" "map f [0..<n]"] by (simp add: cstring_def)

lemma zero_notin_cstring [simp]: "0 \<notin> set (cstring f n)"
  by (auto simp: cstring_def dest: set_takeWhileD)

text \<open>
  C17. \<open>safestrcpy(s, t, n)\<close> (string.c) leaves in \<open>s\<close> a NUL-terminated string of at most
  \<open>n-1\<close> characters, the source string cut there, and writes no byte outside the \<open>n\<close>
  bytes of \<open>s\<close>.
\<close>

theorem safestrcpy_truncates:
  assumes "0 < n" and "apart s t (nat n)"
  shows "cstring (chars (safestrcpy m s t n) s) (nat n) = cstring (chars m t) (nat n - 1)
    \<and> length (cstring (chars m t) (nat n - 1)) < nat n
    \<and> (nat n \<le> unat (x - s) \<longrightarrow> safestrcpy m s t n x = m x)"
proof -
  define N z where "N = nat n - 1" and "z = cstring (chars m t) N"
  have N: "nat n = Suc N" using assms(1) by (simp add: N_def)
  have lz: "length z \<le> N" by (simp add: z_def length_cstring_le)
  have n64: "N < 2 ^ 64" using assms(2) unsigned_less [of "s - t", where 'a = nat]
    by (simp add: apart_def N)
  have eq: "safestrcpy m s t n y =
      (let k = unat (y - s) in
       if k < length z then z ! k
       else if k = length z \<or> (k = Suc (length z) \<and> length z < N) then 0 else m y)" for y
    using assms safestrcpy_loop_apply [of s t N m y]
    by (simp add: safestrcpy_def N z_def Let_def)
  have off: "unat (s + of_nat i - s) = i" if "i \<le> N" for i
    using that n64 by (intro unat_offset) simp
  have "cstring (chars (safestrcpy m s t n) s) (Suc N) = z"
    using lz off by (intro cstring_eqI) (auto simp: eq Let_def z_def)
  then show ?thesis using lz by (auto simp: N eq Let_def z_def)
qed

theorem safestrcpy_truncates_witness:
  "cstring (chars (safestrcpy (\<lambda>a. if a < 0x2003 then 65 else 0) 0x1000 0x2000 3) 0x1000) 3 = [65, 65]"
proof -
  have "cstring (chars (\<lambda>a. if a < 0x2003 then 65 else (0 :: uchar)) 0x2000) 2 = [65, 65]"
    by (simp add: cstring_def upt_rec)
  then show ?thesis
    using safestrcpy_truncates [of 3 "0x1000" "0x2000" "\<lambda>a. if a < 0x2003 then 65 else 0"]
    by (simp add: apart_def)
qed

end
