(* ===== verification/Kalloc.thy ===== *)
theory Kalloc
  imports Memory
begin

text \<open>
  The physical page allocator, \<open>kernel/kalloc.c\<close>. The free pages form a linked list: the
  first eight bytes of a free page (\<open>struct run\<close>) hold the address of the next one. The
  list in memory is related to a list of page addresses; \<open>kalloc\<close> and \<open>kfree\<close> refine
  taking from and pushing on that list, and \<open>kinit\<close> builds it from every whole page
  between the end of the kernel and \<open>PHYSTOP\<close>. The locale \<open>page_allocator\<close> is the contract
  the memory-management code relies on.
\<close>

section \<open>State and operations\<close>

record kmem = machine +
  freelist :: uint64   \<comment> \<open>\<open>kmem.freelist\<close>\<close>
  kend :: uint64       \<comment> \<open>\<open>end\<close>, the first address after the kernel, set by \<open>kernel.ld\<close>\<close>

definition kfree :: "uint64 \<Rightarrow> 'a kmem_scheme \<Rightarrow> (unit, 'a kmem_scheme) outcome" where
  "kfree pa s =
     (if pa mod PGSIZE \<noteq> 0 \<or> pa < kend s \<or> pa \<ge> PHYSTOP then Panic ''kfree''
      else let s = s\<lparr>mem := memset (mem s) pa 1 4096\<rparr>;
               s = s\<lparr>mem := store64 (mem s) pa (freelist s)\<rparr>
           in Ret () (s\<lparr>freelist := pa\<rparr>))"

definition kalloc :: "'a kmem_scheme \<Rightarrow> (uint64, 'a kmem_scheme) outcome" where
  "kalloc s =
     (let r = freelist s;
          s = (if r \<noteq> 0 then s\<lparr>freelist := load64 (mem s) r\<rparr> else s);
          s = (if r \<noteq> 0 then s\<lparr>mem := memset (mem s) r 5 4096\<rparr> else s)
      in Ret r s)"

text \<open>\<open>for(; p + PGSIZE <= pa_end; p += PGSIZE) kfree(p);\<close>\<close>

function freerange_loop ::
  "uint64 \<Rightarrow> uint64 \<Rightarrow> 'a kmem_scheme \<Rightarrow> (unit, 'a kmem_scheme) outcome" where
  "freerange_loop p pa_end s =
     (if p + PGSIZE \<le> pa_end then bnd (kfree p s) (\<lambda>_ s. freerange_loop (p + PGSIZE) pa_end s)
      else Ret () s)"
  by pat_completeness auto
termination
proof (relation "measure (\<lambda>(p, pa_end, s). unat (PHYSTOP + PGSIZE - p))")
  fix p pa_end :: uint64 and s s' :: "'a kmem_scheme" and u
  assume "p + PGSIZE \<le> pa_end" and ret: "kfree p s = Ret u s'"
  then have lt: "p < PHYSTOP" by (auto simp: kfree_def not_le split: if_splits)
  then have "unat (PHYSTOP + PGSIZE - (p + PGSIZE)) < unat (PHYSTOP + PGSIZE - p)"
    by (auto simp: word_less_nat_alt unat_sub_if' unat_word_ariths)
  then show "((p + PGSIZE, pa_end, s'), p, pa_end, s) \<in>
      measure (\<lambda>(p, pa_end, s). unat (PHYSTOP + PGSIZE - p))" by simp
qed simp

declare freerange_loop.simps [simp del]

definition freerange ::
  "uint64 \<Rightarrow> uint64 \<Rightarrow> 'a kmem_scheme \<Rightarrow> (unit, 'a kmem_scheme) outcome" where
  "freerange pa_start pa_end s = freerange_loop (PGROUNDUP pa_start) pa_end s"

definition kinit :: "'a kmem_scheme \<Rightarrow> (unit, 'a kmem_scheme) outcome" where
  "kinit s = freerange (kend s) PHYSTOP s"

section \<open>The free list\<close>

text \<open>\<open>flist m r ps\<close>: following the links in memory \<open>m\<close> from \<open>r\<close> gives the pages \<open>ps\<close>.\<close>

fun flist :: "memory \<Rightarrow> uint64 \<Rightarrow> uint64 list \<Rightarrow> bool" where
  "flist m r [] \<longleftrightarrow> r = 0"
| "flist m r (p # ps) \<longleftrightarrow> r = p \<and> p \<noteq> 0 \<and> flist m (load64 m p) ps"

text \<open>A page the allocator may own: aligned, after the kernel, below \<open>PHYSTOP\<close>.\<close>

definition kpage :: "'a kmem_scheme \<Rightarrow> uint64 \<Rightarrow> bool" where
  "kpage s p \<longleftrightarrow> page_aligned p \<and> kend s \<le> p \<and> p < PHYSTOP"

definition kmem_inv :: "'a kmem_scheme \<Rightarrow> uint64 list \<Rightarrow> bool" where
  "kmem_inv s ps \<longleftrightarrow> 0 < kend s \<and> flist (mem s) (freelist s) ps \<and> distinct ps
     \<and> list_all (kpage s) ps"

lemma kpage_upd [simp]:
  "kpage (s\<lparr>mem := m\<rparr>) = kpage s" "kpage (s\<lparr>freelist := f\<rparr>) = kpage s"
  by (simp_all add: kpage_def fun_eq_iff)

lemma flist_cong:
  "(\<And>p. p \<in> set ps \<Longrightarrow> load64 m' p = load64 m p) \<Longrightarrow> flist m' r ps = flist m r ps"
  by (induction ps arbitrary: r) auto

lemma kmem_inv_pages:
  assumes "kmem_inv s ps" "p \<in> set ps"
  shows "page_aligned p" "kend s \<le> p" "p < PHYSTOP" "p \<noteq> 0"
  using assms by (auto simp: kmem_inv_def kpage_def list_all_iff)

text \<open>Memory changes confined to page \<open>p\<close>.\<close>

definition only_page :: "uint64 \<Rightarrow> memory \<Rightarrow> memory \<Rightarrow> bool" where
  "only_page p m m' \<longleftrightarrow> (\<forall>x. PGROUNDDOWN x \<noteq> p \<longrightarrow> m' x = m x)"

lemma only_page_load64:
  assumes "only_page p m m'" "page_aligned q" "j < 512" "p \<noteq> q"
  shows "load64 m' (slot q j) = load64 m (slot q j)"
  using assms
  by (auto simp: load64_def only_page_def PGROUNDDOWN_slot intro!: arg_cong [where f = le_word] load_bytes_cong)

lemma only_page_memset:
  "page_aligned p \<Longrightarrow> only_page p m (memset m p c 4096)"
  by (auto simp: only_page_def memset_apply in_page_iff)

lemma only_page_store64:
  assumes "page_aligned p" "i < 512" "only_page p m m'"
  shows "only_page p m (store64 m' (slot p i) v)"
  unfolding only_page_def
proof (intro allI impI)
  fix x assume "PGROUNDDOWN x \<noteq> p"
  moreover have "PGROUNDDOWN x = p" if "unat (x - slot p i) < 8"
    using PGROUNDDOWN_slot [OF assms(1,2) that] by simp
  ultimately show "store64 m' (slot p i) v x = m x"
    using assms(3) by (auto simp: store64_apply only_page_def)
qed

lemma kalloc_empty: "kmem_inv s [] \<Longrightarrow> kalloc s = Ret 0 s"
  by (simp add: kmem_inv_def kalloc_def)

lemma kalloc_take:
  assumes inv: "kmem_inv s (p # ps)"
  shows "\<exists>s'. kalloc s = Ret p s' \<and> kmem_inv s' ps \<and> only_page p (mem s) (mem s')
    \<and> s' = s\<lparr>mem := mem s', freelist := freelist s'\<rparr>"
proof -
  let ?m = "memset (mem s) p 5 4096"
  have p: "page_aligned p" "p \<noteq> 0" "freelist s = p"
    using inv kmem_inv_pages [OF inv] by (auto simp: kmem_inv_def)
  have "load64 ?m q = load64 (mem s) q" if "q \<in> set ps" for q
    using that inv p(1) kmem_inv_pages(1) [OF inv, of q]
      only_page_load64 [OF only_page_memset, of p q 0 "mem s" 5]
    by (auto simp: kmem_inv_def)
  then have "flist ?m (load64 (mem s) p) ps"
    using inv flist_cong [of ps ?m "mem s"] by (auto simp: kmem_inv_def)
  then show ?thesis using inv p only_page_memset [OF p(1), of "mem s" 5]
    by (auto simp: kalloc_def kmem_inv_def)
qed

lemma kfree_push:
  assumes inv: "kmem_inv s ps" and p: "kpage s p" "p \<notin> set ps"
  shows "\<exists>s'. kfree p s = Ret () s' \<and> kmem_inv s' (p # ps) \<and> only_page p (mem s) (mem s')
    \<and> s' = s\<lparr>mem := mem s', freelist := freelist s'\<rparr>"
proof -
  let ?m = "store64 (memset (mem s) p 1 4096) p (freelist s)"
  have al: "page_aligned p" using p(1) by (simp add: kpage_def)
  have op: "only_page p (mem s) ?m"
    using only_page_store64 [OF al, of 0 "mem s"] only_page_memset [OF al] by simp
  have "load64 ?m q = load64 (mem s) q" if "q \<in> set ps" for q
    using that p kmem_inv_pages(1) [OF inv that] only_page_load64 [OF op, of q 0] by auto
  then have "flist ?m (freelist s) ps"
    using inv flist_cong [of ps ?m "mem s"] by (auto simp: kmem_inv_def)
  moreover have "p \<noteq> 0" using inv p(1) by (auto simp: kmem_inv_def kpage_def)
  moreover have "\<not> (p mod PGSIZE \<noteq> 0 \<or> p < kend s \<or> p \<ge> PHYSTOP)"
    using p(1) by (auto simp: kpage_def page_aligned_def)
  ultimately show ?thesis using inv p op
    by (simp add: kfree_def kmem_inv_def)
qed

text \<open>The rest of the state: what the allocator never changes.\<close>

definition kothers :: "'a kmem_scheme \<Rightarrow> 'a kmem_scheme" where
  "kothers s = s\<lparr>mem := (\<lambda>_. 0), freelist := 0\<rparr>"

lemma kothers_upd [simp]:
  "kothers (s\<lparr>mem := m\<rparr>) = kothers s" "kothers (s\<lparr>freelist := f\<rparr>) = kothers s"
  by (simp_all add: kothers_def)

lemma kothers_kpage: "kothers s' = kothers s \<Longrightarrow> kpage s' = kpage s"
proof -
  assume "kothers s' = kothers s"
  then have "kend (kothers s') = kend (kothers s)" by simp
  then show ?thesis by (simp add: kothers_def kpage_def fun_eq_iff)
qed

text \<open>The invariant depends on the free pages of the memory only.\<close>

lemma kmem_inv_frame:
  assumes "kmem_inv s ps" "\<And>x. PGROUNDDOWN x \<in> set ps \<Longrightarrow> m x = mem s x"
  shows "kmem_inv (s\<lparr>mem := m\<rparr>) ps"
proof -
  have "load64 m p = load64 (mem s) p" if "p \<in> set ps" for p
  proof -
    have "page_aligned p" using that assms(1) by (auto simp: kmem_inv_def kpage_def list_all_iff)
    then have "m (p + of_nat i) = mem s (p + of_nat i)" if "i < 8" for i
      using assms(2) \<open>p \<in> set ps\<close> that by (simp add: PGROUNDDOWN_offset)
    then show ?thesis unfolding load64_def by (intro arg_cong [where f = le_word] load_bytes_cong) simp
  qed
  then show ?thesis using assms(1) flist_cong [of ps m "mem s"] by (simp add: kmem_inv_def)
qed

section \<open>The allocator contract\<close>

text \<open>
  What the rest of the kernel relies on. \<open>inv s ps\<close> says that \<open>ps\<close> are the free pages
  of state \<open>s\<close>; \<open>page\<close> are the addresses that may be freed; \<open>bytes\<close> is physical memory and
  \<open>others\<close> the part of the state that the allocator leaves alone.
\<close>

locale page_allocator =
  fixes alloc :: "'s \<Rightarrow> (uint64, 's) outcome"
    and free :: "uint64 \<Rightarrow> 's \<Rightarrow> (unit, 's) outcome"
    and inv :: "'s \<Rightarrow> uint64 list \<Rightarrow> bool"
    and page :: "'s \<Rightarrow> uint64 \<Rightarrow> bool"
    and bytes :: "'s \<Rightarrow> memory"
    and others :: "'s \<Rightarrow> 's"
  assumes alloc_empty: "inv s [] \<Longrightarrow> alloc s = Ret 0 s"
    and alloc_take: "inv s (p # ps) \<Longrightarrow>
      \<exists>s'. alloc s = Ret p s' \<and> inv s' ps \<and> only_page p (bytes s) (bytes s')
        \<and> others s' = others s"
    and free_push: "inv s ps \<Longrightarrow> page s p \<Longrightarrow> p \<notin> set ps \<Longrightarrow>
      \<exists>s'. free p s = Ret () s' \<and> inv s' (p # ps) \<and> only_page p (bytes s) (bytes s')
        \<and> others s' = others s"
    and page_others: "others s' = others s \<Longrightarrow> page s' = page s"
    and free_pages: "inv s ps \<Longrightarrow> distinct ps \<and> (\<forall>p \<in> set ps. page s p)"
    and page_nonnull: "inv s ps \<Longrightarrow> page s p \<Longrightarrow> page_aligned p \<and> p \<noteq> 0"
begin

text \<open>An allocation either fails with every page in use, or hands out a page that was free.\<close>

lemma alloc_cases:
  assumes "inv s ps"
  obtains (empty) "ps = []" "alloc s = Ret 0 s"
  | (take) p qs s' where "ps = p # qs" "alloc s = Ret p s'" "inv s' qs" "p \<noteq> 0" "page_aligned p"
      "p \<notin> set qs" "only_page p (bytes s) (bytes s')" "others s' = others s" "page s' = page s" "page s p"
proof (cases ps)
  case Nil
  then show ?thesis using assms alloc_empty empty by simp
next
  case (Cons p qs)
  then obtain s' where "alloc s = Ret p s'" "inv s' qs" "only_page p (bytes s) (bytes s')" "others s' = others s"
    using assms alloc_take by blast
  then show ?thesis using Cons assms free_pages [of s ps] page_nonnull [of s ps p] page_others [of s' s] take by auto
qed

lemma alloc_returns: "inv s ps \<Longrightarrow> \<exists>r s'. alloc s = Ret r s'"
  by (erule alloc_cases) auto

text \<open>Freeing the page just allocated gives back a state with the same free pages.\<close>

lemma alloc_free:
  assumes "inv s (p # ps)"
  shows "\<exists>s' s''. alloc s = Ret p s' \<and> free p s' = Ret () s'' \<and> inv s'' (p # ps)
    \<and> only_page p (bytes s) (bytes s'')"
proof -
  obtain s' where s': "alloc s = Ret p s'" "inv s' ps" "only_page p (bytes s) (bytes s')" "others s' = others s"
    using alloc_take [OF assms] by blast
  have "page s' p" "p \<notin> set ps" using free_pages [OF assms] page_others [OF s'(4)] by auto
  then obtain s'' where "free p s' = Ret () s''" "inv s'' (p # ps)" "only_page p (bytes s') (bytes s'')"
    using free_push [OF s'(2)] by blast
  then show ?thesis using s' by (auto simp: only_page_def)
qed

end

interpretation kpages: page_allocator kalloc kfree kmem_inv kpage mem kothers
proof unfold_locales
  fix s :: "'a kmem_scheme" and p ps
  assume inv: "kmem_inv s (p # ps)"
  from kalloc_take [OF inv] show "\<exists>s'. kalloc s = Ret p s' \<and> kmem_inv s' ps
      \<and> only_page p (mem s) (mem s') \<and> kothers s' = kothers s"
    by (metis kothers_upd)
next
  fix s :: "'a kmem_scheme" and p ps
  assume inv: "kmem_inv s ps" "kpage s p" "p \<notin> set ps"
  from kfree_push [OF inv] show "\<exists>s'. kfree p s = Ret () s' \<and> kmem_inv s' (p # ps)
      \<and> only_page p (mem s) (mem s') \<and> kothers s' = kothers s"
    by (metis kothers_upd)
next
  fix s s' :: "'a kmem_scheme"
  assume "kothers s' = kothers s"
  then show "kpage s' = kpage s" by (rule kothers_kpage)
qed (auto simp: kalloc_empty kmem_inv_def kpage_def list_all_iff)

section \<open>Initialisation and use\<close>

lemma page_multiple_less:
  fixes m n :: nat
  assumes "m mod 4096 = 0" "n mod 4096 = 0"
  shows "n < m + 4096 \<longleftrightarrow> n \<le> m"
proof -
  obtain a b where "m = 4096 * a" "n = 4096 * b" using assms by (auto elim!: dvdE simp: mod_eq_0_iff_dvd)
  then show ?thesis by simp arith
qed

lemma aligned_less_step:
  assumes "page_aligned p" "page_aligned q" "unat p + 4096 < 2 ^ 64"
  shows "q < p + PGSIZE \<longleftrightarrow> q \<le> p"
proof -
  have "unat (p + PGSIZE) = unat p + 4096" using assms(3) by (simp add: unat_word_ariths)
  moreover have "unat q < unat p + 4096 \<longleftrightarrow> unat q \<le> unat p"
    using assms(1,2) unfolding page_aligned_unat by (rule page_multiple_less)
  ultimately show ?thesis by (simp add: word_less_nat_alt word_le_nat_alt)
qed

lemma freerange_loop_fills:
  "page_aligned p \<Longrightarrow> kend s \<le> p \<Longrightarrow> p \<le> PHYSTOP \<Longrightarrow>
   kmem_inv s ps \<Longrightarrow> set ps = {q. kpage s q \<and> q < p} \<Longrightarrow>
   \<exists>s' ps'. freerange_loop p PHYSTOP s = Ret () s' \<and> kend s' = kend s
     \<and> kmem_inv s' ps' \<and> set ps' = {q. kpage s q}"
proof (induction p "PHYSTOP" s arbitrary: ps rule: freerange_loop.induct)
  case (1 p s)
  have up: "unat (p + PGSIZE) = unat p + 4096"
    using "1.prems"(3) by (simp add: word_le_nat_alt unat_word_ariths)
  show ?case
  proof (cases "p + PGSIZE \<le> PHYSTOP")
    case True
    then have lt: "p < PHYSTOP" using up by (simp add: word_le_nat_alt word_less_nat_alt)
    then have kp: "kpage s p" using "1.prems" by (simp add: kpage_def)
    then have "p \<notin> set ps" using "1.prems"(5) by simp
    then obtain s' where s': "kfree p s = Ret () s'" "kmem_inv s' (p # ps)"
      "s' = s\<lparr>mem := mem s', freelist := freelist s'\<rparr>"
      using kfree_push [OF "1.prems"(4) kp] by blast
    have ks: "kend s' = kend s" "kpage s' = kpage s"
      by (subst s'(3), simp add: kpage_def fun_eq_iff)+
    have al: "page_aligned (p + PGSIZE)"
      using "1.prems"(1) up by (simp add: page_aligned_unat)
    have le: "kend s' \<le> p + PGSIZE"
      using ks "1.prems"(2) up by (simp add: word_le_nat_alt)
    have set': "set (p # ps) = {q. kpage s' q \<and> q < p + PGSIZE}"
    proof -
      have "q < p + PGSIZE \<longleftrightarrow> q = p \<or> q < p" if "kpage s q" for q
        using aligned_less_step [OF "1.prems"(1), of q] that lt
        by (auto simp: kpage_def word_less_nat_alt le_less)
      then show ?thesis using "1.prems"(5) kp by (auto simp: ks)
    qed
    from "1.hyps" [OF True s'(1) al le True s'(2) set'] obtain s'' ps'' where
      "freerange_loop (p + PGSIZE) PHYSTOP s' = Ret () s''" "kend s'' = kend s'"
      "kmem_inv s'' ps''" "set ps'' = {q. kpage s' q}" by blast
    then show ?thesis using True s'(1) ks by (subst freerange_loop.simps) auto
  next
    case False
    have "q < p" if "kpage s q" for q
    proof -
      have "unat PHYSTOP < unat p + 4096" using False up by (simp add: word_le_nat_alt)
      moreover have "unat PHYSTOP mod 4096 = 0" by simp
      ultimately have "unat PHYSTOP \<le> unat p"
        using "1.prems"(1) page_multiple_less [of "unat p" "unat PHYSTOP"]
        unfolding page_aligned_unat by (simp only: simp_thms)
      moreover have "unat q < unat PHYSTOP" using that by (simp add: kpage_def word_less_nat_alt)
      ultimately show ?thesis unfolding word_less_nat_alt by (rule less_le_trans [rotated])
    qed
    then have "set ps = {q. kpage s q}" using "1.prems"(5) by auto
    then show ?thesis using False "1.prems"(4) by (subst freerange_loop.simps) auto
  qed
qed

lemma kend_le_PGROUNDUP:
  assumes "e \<le> PHYSTOP"
  shows "e \<le> PGROUNDUP e" "PGROUNDUP e \<le> PHYSTOP" "page_aligned q \<Longrightarrow> e \<le> q \<Longrightarrow> PGROUNDUP e \<le> q"
proof -
  have up: "unat (PGROUNDUP e) = 4096 * ((unat e + 4095) div 4096)"
    using assms by (intro unat_PGROUNDUP) (simp add: word_le_nat_alt)
  show "e \<le> PGROUNDUP e" "PGROUNDUP e \<le> PHYSTOP"
    using assms up by (simp_all add: word_le_nat_alt)
  assume "page_aligned q" "e \<le> q"
  then obtain c where c: "unat q = 4096 * c" "unat e \<le> 4096 * c"
    by (auto elim!: dvdE simp: page_aligned_unat mod_eq_0_iff_dvd word_le_nat_alt)
  then have "(unat e + 4095) div 4096 \<le> (4096 * c + 4095) div 4096" by (intro div_le_mono) simp
  then have "4096 * ((unat e + 4095) div 4096) \<le> unat q" using c by simp
  then show "PGROUNDUP e \<le> q" using up by (simp add: word_le_nat_alt)
qed

text \<open>
  C15. \<open>kinit\<close> (kalloc.c) puts every whole page between the end of the kernel and
  \<open>PHYSTOP\<close> on the free list, once each and no other page, without panicking.
\<close>

theorem kinit_frees_all_memory:
  assumes "0 < kend s" "kend s \<le> PHYSTOP" "freelist s = 0"
  shows "\<exists>s' ps. kinit s = Ret () s' \<and> kmem_inv s' ps \<and> set ps = {p. kpage s p}"
proof -
  note up = kend_le_PGROUNDUP [OF assms(2)]
  have inv: "kmem_inv s []" using assms(1,3) by (simp add: kmem_inv_def)
  have none: "set [] = {q. kpage s q \<and> q < PGROUNDUP (kend s)}"
    using up(3) by (auto simp: kpage_def not_less)
  show ?thesis
    using freerange_loop_fills [OF page_aligned_PGROUNDUP up(1,2) inv none]
    by (auto simp: kinit_def freerange_def)
qed

theorem kinit_frees_all_memory_witness:
  "\<exists>s' ps. kinit \<lparr>mem = \<lambda>_. 0, kout = [], freelist = 0, kend = 0x80022000\<rparr> = Ret () s' \<and> kmem_inv s' ps
     \<and> set ps = {p. kpage \<lparr>mem = \<lambda>_. 0, kout = [], freelist = 0, kend = 0x80022000\<rparr> p}"
  by (rule kinit_frees_all_memory) simp_all

text \<open>
  A client of the allocator: it owns pages, asks for another (\<open>PAlloc\<close>) or gives back one
  it owns (\<open>PFree i\<close>, the \<open>i\<close>-th of them).
\<close>

datatype page_op = PAlloc | PFree nat

fun page_client ::
  "page_op list \<Rightarrow> uint64 list \<Rightarrow> 'a kmem_scheme \<Rightarrow> (uint64 list, 'a kmem_scheme) outcome" where
  "page_client [] own s = Ret own s"
| "page_client (PAlloc # ops) own s =
     bnd (kalloc s) (\<lambda>r s. page_client ops (if r = 0 then own else r # own) s)"
| "page_client (PFree i # ops) own s =
     (if i < length own
      then bnd (kfree (own ! i) s) (\<lambda>_ s. page_client ops (remove1 (own ! i) own) s)
      else page_client ops own s)"

text \<open>
  C14. However a client interleaves \<open>kalloc\<close> and \<open>kfree\<close> (kalloc.c) on pages it owns, no
  call panics, no page is ever both free and owned or owned twice, and no page is lost:
  the free and the owned pages together stay the same.
\<close>

theorem kalloc_kfree_conserve_pages:
  assumes "kmem_inv s ps" "distinct (own @ ps)" "list_all (kpage s) own"
  shows "\<exists>own' s' ps'. page_client ops own s = Ret own' s' \<and> kmem_inv s' ps'
     \<and> distinct (own' @ ps') \<and> set own' \<union> set ps' = set own \<union> set ps"
  using assms
proof (induction ops arbitrary: own s ps)
  case (Cons op ops)
  show ?case
  proof (cases op)
    case PAlloc
    from Cons.prems(1) show ?thesis
    proof (cases rule: kpages.alloc_cases)
      case empty
      then show ?thesis using Cons.IH [OF Cons.prems] PAlloc by simp
    next
      case (take p qs s')
      have pre: "distinct ((p # own) @ qs)" "list_all (kpage s') (p # own)"
        using Cons.prems take by (auto simp: list_all_iff)
      show ?thesis using Cons.IH [OF take(3) pre] PAlloc take by auto
    qed
  next
    case (PFree i)
    show ?thesis
    proof (cases "i < length own")
      case True
      define p where "p = own ! i"
      have "p \<in> set own" using True by (simp add: p_def)
      then have p: "p \<in> set own" "kpage s p" "p \<notin> set ps"
        using Cons.prems by (auto simp: list_all_iff)
      then obtain s' where s': "kfree p s = Ret () s'" "kmem_inv s' (p # ps)" "kpage s' = kpage s"
        using kpages.free_push [OF Cons.prems(1)] kothers_kpage by blast
      have pre: "distinct (remove1 p own @ p # ps)" "list_all (kpage s') (remove1 p own)"
        using Cons.prems p s'(3) by (auto simp: list_all_iff dest: notin_set_remove1)
      have "set (remove1 p own) \<union> set (p # ps) = set own \<union> set ps"
        using Cons.prems(2) p(1) by auto
      with Cons.IH [OF s'(2) pre] s'(1) True PFree show ?thesis by (auto simp: p_def)
    next
      case False
      then show ?thesis using Cons.IH [OF Cons.prems] PFree by simp
    qed
  qed
qed auto

theorem kalloc_kfree_conserve_pages_witness:
  "\<exists>own' s' ps'. page_client [PAlloc, PFree 0, PAlloc] []
       \<lparr>mem = \<lambda>_. 0, kout = [], freelist = 0x80022000, kend = 0x80022000\<rparr> = Ret own' s'
     \<and> kmem_inv s' ps' \<and> distinct (own' @ ps') \<and> set own' \<union> set ps' = set [] \<union> set [0x80022000]"
proof (rule kalloc_kfree_conserve_pages)
  have "load64 (\<lambda>_. 0) (0x80022000 :: uint64) = 0"
    using le_word_zeros [of 8] by (simp add: load64_def load_bytes_def map_replicate_const)
  then show "kmem_inv \<lparr>mem = \<lambda>_. 0, kout = [], freelist = 0x80022000, kend = 0x80022000\<rparr> [0x80022000]"
    by (simp add: kmem_inv_def kpage_def page_aligned_unat)
qed simp_all

end
