(* ===== verification/PageTable.thy ===== *)
theory PageTable
  imports Memory
begin

text \<open>
  Sv39 page tables as trees in memory: the abstract view that the lemmas on kernel/vm.c
  use. A node of the tree is named by the list of the indices on the way from the root;
  \<open>node_at m pt is\<close> is the page of that node. \<open>pte_of m pt va\<close> is the entry that
  translates \<open>va\<close>, 0 when a node on the way is missing.
\<close>

unbundle bit_operations_syntax

section \<open>The tree and its entries\<close>

definition pte_valid :: "uint64 \<Rightarrow> bool" where
  "pte_valid e \<longleftrightarrow> e AND PTE_V \<noteq> 0"

fun node_at :: "memory \<Rightarrow> uint64 \<Rightarrow> nat list \<Rightarrow> uint64 option" where
  "node_at m p [] = Some p"
| "node_at m p (i # is) =
     (if pte_valid (load64 m (slot p i)) then node_at m (PTE2PA (load64 m (slot p i))) is else None)"

definition ipath :: "nat list \<Rightarrow> bool" where
  "ipath is \<longleftrightarrow> length is \<le> 2 \<and> list_all (\<lambda>i. i < 512) is"

definition nodes :: "memory \<Rightarrow> uint64 \<Rightarrow> uint64 set" where
  "nodes m pt = {p. \<exists>is. ipath is \<and> node_at m pt is = Some p}"

definition vpath :: "uint64 \<Rightarrow> nat list" where
  "vpath va = [unat (PX 2 va), unat (PX 1 va)]"

definition pte_at :: "memory \<Rightarrow> uint64 \<Rightarrow> nat list \<Rightarrow> nat \<Rightarrow> uint64" where
  "pte_at m pt is k = (case node_at m pt is of None \<Rightarrow> 0 | Some q \<Rightarrow> load64 m (slot q k))"

definition pte_of :: "memory \<Rightarrow> uint64 \<Rightarrow> uint64 \<Rightarrow> uint64" where
  "pte_of m pt va = pte_at m pt (vpath va) (unat (PX 0 va))"

text \<open>Nodes are pages, and no page is two nodes.\<close>

definition pt_wf :: "memory \<Rightarrow> uint64 \<Rightarrow> bool" where
  "pt_wf m pt \<longleftrightarrow> page_aligned pt \<and> 0 \<notin> nodes m pt \<and>
     (\<forall>is js p. ipath is \<longrightarrow> ipath js \<longrightarrow> node_at m pt is = Some p \<longrightarrow> node_at m pt js = Some p \<longrightarrow> is = js)"

lemma pte_valid_0 [simp]: "\<not> pte_valid 0"
  by (simp add: pte_valid_def)

lemma pte_valid_bit: "pte_valid e \<longleftrightarrow> bit e 0"
  by (simp add: pte_valid_def and_one_eq mod_2_eq_odd bit_0)

lemma pte_valid_or: "pte_valid (e OR f) \<longleftrightarrow> pte_valid e \<or> pte_valid f"
  unfolding pte_valid_bit by (rule bit_or_iff)

lemma ipath_Nil [simp]: "ipath []"
  by (simp add: ipath_def)

lemma ipath_snoc: "ipath (is @ [i]) \<longleftrightarrow> length is \<le> 1 \<and> ipath is \<and> i < 512"
  by (auto simp: ipath_def)

lemma ipath_vpath [simp]: "ipath (vpath va)" "ipath [unat (PX 2 va)]"
  by (simp_all add: ipath_def vpath_def PX_bound)

lemma node_at_append:
  "node_at m p (is @ js) = (case node_at m p is of None \<Rightarrow> None | Some q \<Rightarrow> node_at m q js)"
  by (induction "is" arbitrary: p) auto

lemma node_at_aligned:
  "page_aligned p \<Longrightarrow> node_at m p is = Some q \<Longrightarrow> page_aligned q"
proof (induction "is" arbitrary: p)
  case (Cons i js)
  then show ?case
    using Cons.IH [of "PTE2PA (load64 m (slot p i))"] by (simp split: if_splits)
qed simp

lemma pt_wf_inj:
  "pt_wf m pt \<Longrightarrow> ipath is \<Longrightarrow> ipath js \<Longrightarrow> node_at m pt is = Some p \<Longrightarrow> node_at m pt js = Some p
    \<Longrightarrow> is = js"
  by (auto simp: pt_wf_def)

lemma pt_wf_aligned: "pt_wf m pt \<Longrightarrow> node_at m pt is = Some p \<Longrightarrow> page_aligned p"
  by (auto simp: pt_wf_def intro: node_at_aligned)

lemma pt_wf_nonnull: "pt_wf m pt \<Longrightarrow> node_at m pt is = Some p \<Longrightarrow> ipath is \<Longrightarrow> p \<noteq> 0"
  by (auto simp: pt_wf_def nodes_def)

lemma nodesI: "ipath is \<Longrightarrow> node_at m pt is = Some p \<Longrightarrow> p \<in> nodes m pt"
  by (auto simp: nodes_def)

lemma root_in_nodes [simp]: "pt \<in> nodes m pt"
  by (rule nodesI [of "[]"]) simp_all

lemma nodes_aligned: "pt_wf m pt \<Longrightarrow> p \<in> nodes m pt \<Longrightarrow> page_aligned p"
  by (auto simp: nodes_def intro: pt_wf_aligned)

section \<open>Memory changes that a table does not see\<close>

lemma load64_cong_page:
  assumes "\<And>x. PGROUNDDOWN x = q \<Longrightarrow> m' x = m x" "page_aligned q" "k < 512"
  shows "load64 m' (slot q k) = load64 m (slot q k)"
  unfolding load64_def
  using assms by (intro arg_cong [where f = le_word] load_bytes_cong) (simp add: PGROUNDDOWN_slot)

lemma node_at_frame:
  assumes wf: "pt_wf m pt" and eq: "\<And>x. PGROUNDDOWN x \<in> nodes m pt \<Longrightarrow> m' x = m x"
  shows "ipath is \<Longrightarrow> node_at m' pt is = node_at m pt is"
proof (induction "is" rule: rev_induct)
  case (snoc i js)
  then have IH: "node_at m' pt js = node_at m pt js" and js: "ipath js" "i < 512"
    by (auto simp: ipath_snoc)
  show ?case
  proof (cases "node_at m pt js")
    case (Some q)
    then have "q \<in> nodes m pt" "page_aligned q"
      using js wf by (auto intro: nodesI pt_wf_aligned)
    then have "load64 m' (slot q i) = load64 m (slot q i)"
      using eq js by (intro load64_cong_page) auto
    then show ?thesis using IH Some by (simp add: node_at_append)
  qed (use IH in \<open>simp add: node_at_append\<close>)
qed simp

lemma pt_frame:
  assumes wf: "pt_wf m pt" and eq: "\<And>x. PGROUNDDOWN x \<in> nodes m pt \<Longrightarrow> m' x = m x"
  shows "pt_wf m' pt" "nodes m' pt = nodes m pt"
    "ipath is \<Longrightarrow> k < 512 \<Longrightarrow> pte_at m' pt is k = pte_at m pt is k"
    "pte_of m' pt va = pte_of m pt va"
proof -
  have na: "node_at m' pt is = node_at m pt is" if "ipath is" for "is"
    using node_at_frame [OF wf] eq that by blast
  show n: "nodes m' pt = nodes m pt" by (auto simp: nodes_def na)
  show "pt_wf m' pt" using wf unfolding pt_wf_def n by (auto simp: na)
  show pa: "pte_at m' pt is k = pte_at m pt is k" if "ipath is" "k < 512" for "is" k
  proof (cases "node_at m pt is")
    case (Some q)
    then have "q \<in> nodes m pt" "page_aligned q"
      using that wf by (auto intro: nodesI pt_wf_aligned)
    then have "load64 m' (slot q k) = load64 m (slot q k)"
      using eq that by (intro load64_cong_page) auto
    then show ?thesis using that Some by (simp add: pte_at_def na)
  qed (simp add: pte_at_def na that)
  show "pte_of m' pt va = pte_of m pt va" by (simp add: pte_of_def pa PX_bound)
qed

section \<open>Changing a leaf entry\<close>

lemma store64_slot_other_page:
  assumes "page_aligned q" "k < 512" "PGROUNDDOWN x \<noteq> q"
  shows "store64 m (slot q k) e x = m x"
proof -
  have "\<not> unat (x - slot q k) < 8"
  proof
    assume lt: "unat (x - slot q k) < 8"
    have "x = slot q k + of_nat (unat (x - slot q k))" by simp
    then have "PGROUNDDOWN x = q" using PGROUNDDOWN_slot [OF assms(1,2) lt] by simp
    then show False using assms(3) by simp
  qed
  then show ?thesis by (simp add: store64_apply)
qed

text \<open>Writing a slot of a bottom node changes that entry and nothing else.\<close>

lemma leaf_update:
  fixes e :: uint64
  assumes wf: "pt_wf m pt" and q: "node_at m pt [i, j] = Some q" "i < 512" "j < 512" "k < 512"
  defines "m' \<equiv> store64 m (slot q k) e"
  shows "ipath is \<Longrightarrow> node_at m' pt is = node_at m pt is"
    and "pt_wf m' pt" and "nodes m' pt = nodes m pt"
    and "ipath is \<Longrightarrow> l < 512 \<Longrightarrow>
      pte_at m' pt is l = (if is = [i, j] \<and> l = k then e else pte_at m pt is l)"
proof -
  have ij: "ipath [i, j]" using q by (simp add: ipath_def)
  have qa: "page_aligned q" using wf q(1) by (rule pt_wf_aligned)
  have other: "load64 m' (slot r l) = load64 m (slot r l)"
    if "node_at m pt is = Some r" "ipath is" "is \<noteq> [i, j]" "l < 512" for "is" r l
  proof -
    have "r \<noteq> q" using that pt_wf_inj [OF wf _ ij _ q(1)] by blast
    then show ?thesis using that q qa pt_wf_aligned [OF wf that(1)]
      by (simp add: m'_def load64_store64_slot)
  qed
  show na: "node_at m' pt is = node_at m pt is" if "ipath is" for "is"
    using that
  proof (induction "is" rule: rev_induct)
    case (snoc x js)
    then have IH: "node_at m' pt js = node_at m pt js" and js: "ipath js" "x < 512" "js \<noteq> [i, j]"
      by (auto simp: ipath_snoc)
    show ?case
      using IH other [OF _ js(1,3,2)]
      by (cases "node_at m pt js") (simp_all add: node_at_append)
  qed simp
  show n: "nodes m' pt = nodes m pt" by (auto simp: nodes_def na)
  show "pt_wf m' pt" using wf unfolding pt_wf_def n by (auto simp: na)
  show "pte_at m' pt is l = (if is = [i, j] \<and> l = k then e else pte_at m pt is l)"
    if "ipath is" "l < 512"
  proof (cases "node_at m pt is")
    case (Some r)
    show ?thesis
    proof (cases "is = [i, j]")
      case True
      then have "r = q" using Some q by simp
      then show ?thesis using True Some q qa that na [OF that(1)]
        by (auto simp: pte_at_def m'_def load64_store64_slot)
    next
      case False
      then show ?thesis using Some other [OF Some that(1) False that(2)] na [OF that(1)]
        by (simp add: pte_at_def)
    qed
  next
    case None
    then have "is \<noteq> [i, j]" using q by auto
    then show ?thesis using None na [OF that(1)] by (simp add: pte_at_def)
  qed
qed

text \<open>The entry of an address, and of the addresses in other pages.\<close>

lemma vpath_inject:
  assumes "va < MAXVA" "vb < MAXVA"
  shows "vpath va = vpath vb \<and> PX 0 va = PX 0 vb \<longleftrightarrow> PGROUNDDOWN va = PGROUNDDOWN vb"
proof
  assume "vpath va = vpath vb \<and> PX 0 va = PX 0 vb"
  then show "PGROUNDDOWN va = PGROUNDDOWN vb"
    using PX_inject [OF assms] by (simp add: vpath_def word_unat_eq_iff [symmetric])
next
  assume eq: "PGROUNDDOWN va = PGROUNDDOWN vb"
  have b: "bit va n = bit vb n" if "12 \<le> n" for n
  proof -
    have "bit (PGROUNDDOWN va) n = bit va n" "bit (PGROUNDDOWN vb) n = bit vb n"
      using that bit_imp_le_length [of va n] bit_imp_le_length [of vb n]
      by (auto simp: PGROUNDDOWN_shift bit_simps)
    then show ?thesis using eq by simp
  qed
  have "PX l va = PX l vb" for l
    by (rule bit_word_eqI) (simp add: bit_PX b PXSHIFT_def)
  then show "vpath va = vpath vb \<and> PX 0 va = PX 0 vb" by (simp add: vpath_def)
qed

lemma pte_of_update:
  assumes "pt_wf m pt" "node_at m pt (vpath va) = Some q" "va < MAXVA" "vb < MAXVA"
  shows "pte_of (store64 m (slot q (unat (PX 0 va))) e) pt vb =
     (if PGROUNDDOWN vb = PGROUNDDOWN va then e else pte_of m pt vb)"
proof -
  have "pte_of (store64 m (slot q (unat (PX 0 va))) e) pt vb =
     (if vpath vb = vpath va \<and> unat (PX 0 vb) = unat (PX 0 va) then e else pte_of m pt vb)"
    using leaf_update(4) [OF assms(1) assms(2) [unfolded vpath_def], of "unat (PX 0 va)" "vpath vb" "unat (PX 0 vb)" e]
    by (simp add: pte_of_def PX_bound vpath_def ipath_def)
  then show ?thesis using vpath_inject [OF assms(4,3)] by (simp add: word_unat_eq_iff [symmetric])
qed

section \<open>Adding a node\<close>

lemma add_node:
  assumes wf: "pt_wf m pt" and q: "node_at m pt is = Some q" and ix: "ipath (is @ [i])"
    and inv: "\<not> pte_valid (load64 m (slot q i))"
    and p: "page_aligned p" "p \<notin> nodes m pt" "p \<noteq> 0" "p < 2 ^ 56"
  defines "m' \<equiv> store64 (memset m p 0 4096) (slot q i) (PA2PTE p OR PTE_V)"
  shows "ipath js \<Longrightarrow> node_at m' pt js = (if js = is @ [i] then Some p else node_at m pt js)"
    and "pt_wf m' pt" and "nodes m' pt = insert p (nodes m pt)"
    and "ipath js \<Longrightarrow> l < 512 \<Longrightarrow> length js = 2 \<Longrightarrow> pte_at m' pt js l = pte_at m pt js l"
    and "PGROUNDDOWN x \<notin> insert p (nodes m pt) \<Longrightarrow> m' x = m x"
proof -
  have ii: "ipath is" "i < 512" "length is \<le> 1" using ix by (simp_all only: ipath_snoc)
  have qa: "page_aligned q" using wf q by (rule pt_wf_aligned)
  have qn: "q \<in> nodes m pt" using q ii by (auto intro: nodesI)
  then have qp: "q \<noteq> p" using p by auto
  have old: "node_at m pt (is @ i # ks) = None" for ks
    using q inv by (simp add: node_at_append)
  have ld: "load64 m' (slot r l) = (if r = q \<and> l = i then PA2PTE p OR PTE_V
      else if r = p then 0 else load64 m (slot r l))" if "page_aligned r" "l < 512" for r l
    using that p ii qa qp unfolding m'_def
    by (auto simp: load64_store64_slot load64_memset_page)
  have entry: "pte_valid (PA2PTE p OR PTE_V)" "PTE2PA (PA2PTE p OR PTE_V) = p"
    using p by (simp_all add: pte_valid_or PTE2PA_PA2PTE) (simp add: pte_valid_def)
  have same: "load64 m' (slot r l) = load64 m (slot r l)"
    if "node_at m pt js = Some r" "ipath js" "l < 512" "js \<noteq> is \<or> l \<noteq> i" for js r l
  proof -
    have "r \<noteq> p" using that p by (auto intro: nodesI)
    moreover have "\<not> (r = q \<and> l = i)" using that pt_wf_inj [OF wf _ ii(1) _ q] by auto
    ultimately show ?thesis using ld [OF pt_wf_aligned [OF wf that(1)] that(3)] by auto
  qed
  show na: "node_at m' pt js = (if js = is @ [i] then Some p else node_at m pt js)" if "ipath js" for js
    using that
  proof (induction js rule: rev_induct)
    case (snoc x ks)
    then have IH: "node_at m' pt ks = (if ks = is @ [i] then Some p else node_at m pt ks)"
      and ks: "ipath ks" "x < 512" by (auto simp: ipath_snoc)
    consider (new) "ks = is @ [i]" | (here) "ks = is" "x = i" | (other) "ks \<noteq> is @ [i]" "ks \<noteq> is \<or> x \<noteq> i"
      by blast
    then show ?case
    proof cases
      case new
      then have "node_at m' pt (ks @ [x]) = None"
        unfolding node_at_append [of m' pt ks] using IH ld [OF p(1) ks(2)] qp by simp
      then show ?thesis using new old [of "[x]"] by simp
    next
      case here
      then show ?thesis using IH q ld [OF qa ks(2)] entry by (simp add: node_at_append)
    next
      case other
      then have "ks @ [x] \<noteq> is @ [i]" by auto
      moreover have "node_at m' pt (ks @ [x]) = node_at m pt (ks @ [x])"
        using IH other(1) same [OF _ ks other(2)]
        by (cases "node_at m pt ks") (simp_all add: node_at_append)
      ultimately show ?thesis by (simp only: if_False)
    qed
  qed simp
  have at: "node_at m' pt js = Some r \<longleftrightarrow> (js = is @ [i] \<and> r = p) \<or> node_at m pt js = Some r"
    if "ipath js" for js r
    using na [OF that] old [of "[]"] by auto
  show n: "nodes m' pt = insert p (nodes m pt)"
  proof (rule set_eqI)
    fix r
    have "r \<in> nodes m' pt \<longleftrightarrow> (\<exists>js. ipath js \<and> ((js = is @ [i] \<and> r = p) \<or> node_at m pt js = Some r))"
      unfolding nodes_def by (simp add: at cong: conj_cong)
    then show "r \<in> nodes m' pt \<longleftrightarrow> r \<in> insert p (nodes m pt)"
      using ix unfolding nodes_def by blast
  qed
  have inj: "js = ks" if "ipath js" "ipath ks" "node_at m' pt js = Some r" "node_at m' pt ks = Some r" for js ks r
  proof (cases "r = p")
    case True
    then show ?thesis using that p(2) nodesI by (metis at)
  next
    case False
    then show ?thesis using that pt_wf_inj [OF wf that(1,2)] by (simp add: at)
  qed
  show "pt_wf m' pt"
    using wf p(3) inj unfolding pt_wf_def n by blast
  show "pte_at m' pt js l = pte_at m pt js l" if js: "ipath js" "l < 512" "length js = 2"
  proof (cases "js = is @ [i]")
    case True
    then show ?thesis using js old [of "[]"] ld [OF p(1) js(2)] qp by (simp add: pte_at_def na)
  next
    case False
    have "js \<noteq> is" using ii(3) js(3) by auto
    then show ?thesis using same [OF _ js(1,2)] False js
      by (cases "node_at m pt js") (simp_all add: pte_at_def na)
  qed
  show "m' x = m x" if "PGROUNDDOWN x \<notin> insert p (nodes m pt)"
  proof -
    have "PGROUNDDOWN x \<noteq> q" "PGROUNDDOWN x \<noteq> p" using that qn by auto
    then show ?thesis using p qa ii unfolding m'_def
      by (simp add: store64_slot_other_page memset_apply in_page_iff)
  qed
qed

end
