(* ===== verification/Vm.thy ===== *)
theory Vm
  imports Kalloc PageTable
begin

text \<open>
  Virtual memory, kernel/vm.c (and \<open>proc_mapstacks\<close> of kernel/proc.c, which \<open>kvmmake\<close>
  calls). Page tables are the Sv39 radix trees of the hardware, in the byte memory of
  the machine: a page-table page is 512 slots of 8 bytes.

  Kernel buffers that are not in physical pages (C locals, fields of structs) are given
  by their contents: \<open>copyout\<close> takes the source bytes, \<open>copyin\<close> and \<open>copyinstr\<close> return the
  bytes they write to the destination, in both the success and the error case.
\<close>

unbundle bit_operations_syntax

section \<open>The operations\<close>

record kvm = kmem +
  kernel_pagetable :: uint64
  satp :: uint64   \<comment> \<open>the page-table register of the executing hart\<close>

definition MAKE_SATP :: "uint64 \<Rightarrow> uint64" where
  "MAKE_SATP pagetable = push_bit 60 8 OR drop_bit 12 pagetable"

text \<open>The loop of \<open>walk\<close> from \<open>level\<close> downwards, and its result \<open>&pagetable[PX(0, va)]\<close>.\<close>

fun walk_loop ::
  "nat \<Rightarrow> uint64 \<Rightarrow> uint64 \<Rightarrow> bool \<Rightarrow> 'a kmem_scheme \<Rightarrow> (uint64, 'a kmem_scheme) outcome" where
  "walk_loop 0 pagetable va alloc s = Ret (slot pagetable (unat (PX 0 va))) s"
| "walk_loop (Suc l) pagetable va alloc s =
     (let pte = slot pagetable (unat (PX (Suc l) va)) in
      if load64 (mem s) pte AND PTE_V \<noteq> 0
      then walk_loop l (PTE2PA (load64 (mem s) pte)) va alloc s
      else if \<not> alloc then Ret 0 s
      else bnd (kalloc s) (\<lambda>pa s.
        if pa = 0 then Ret 0 s
        else
          let s1 = s\<lparr>mem := memset (mem s) pa 0 4096\<rparr>;
              s2 = s1\<lparr>mem := store64 (mem s1) pte (PA2PTE pa OR PTE_V)\<rparr>
          in walk_loop l pa va alloc s2))"

definition walk ::
  "uint64 \<Rightarrow> uint64 \<Rightarrow> bool \<Rightarrow> 'a kmem_scheme \<Rightarrow> (uint64, 'a kmem_scheme) outcome" where
  "walk pagetable va alloc s =
     (if va \<ge> MAXVA then Panic ''walk'' else walk_loop 2 pagetable va alloc s)"

definition walkaddr :: "uint64 \<Rightarrow> uint64 \<Rightarrow> 'a kmem_scheme \<Rightarrow> (uint64, 'a kmem_scheme) outcome" where
  "walkaddr pagetable va s =
     (if va \<ge> MAXVA then Ret 0 s
      else bnd (walk pagetable va False s) (\<lambda>pte s.
        if pte = 0 then Ret 0 s
        else if load64 (mem s) pte AND PTE_V = 0 then Ret 0 s
        else if load64 (mem s) pte AND PTE_U = 0 then Ret 0 s
        else Ret (PTE2PA (load64 (mem s) pte)) s))"

lemma walk_Ret_bound: "walk pt va alloc s = Ret r s' \<Longrightarrow> va < MAXVA"
  by (auto simp: walk_def split: if_splits)

lemma measure_step:
  "a < MAXVA \<Longrightarrow> 0x10000000000000000 - unat (a + PGSIZE) < 0x10000000000000000 - unat (a :: uint64)"
  by (simp add: word_less_nat_alt unat_word_ariths)

function mappages_loop ::
  "uint64 \<Rightarrow> uint64 \<Rightarrow> uint64 \<Rightarrow> uint64 \<Rightarrow> uint64 \<Rightarrow> 'a kmem_scheme
    \<Rightarrow> (int, 'a kmem_scheme) outcome" where
  "mappages_loop pagetable a last_a pa perm s =
     bnd (walk pagetable a True s) (\<lambda>pte s.
       if pte = 0 then Ret (-1) s
       else if load64 (mem s) pte AND PTE_V \<noteq> 0 then Panic ''mappages: remap''
       else
         let s1 = s\<lparr>mem := store64 (mem s) pte (PA2PTE pa OR perm OR PTE_V)\<rparr> in
         if a = last_a then Ret 0 s1
         else mappages_loop pagetable (a + PGSIZE) last_a (pa + PGSIZE) perm s1)"
  by pat_completeness auto
termination
  by (relation "measure (\<lambda>(_, a, _). 2 ^ 64 - unat a)")
     (auto intro!: measure_step dest!: walk_Ret_bound)

declare mappages_loop.simps [simp del]

definition mappages ::
  "uint64 \<Rightarrow> uint64 \<Rightarrow> uint64 \<Rightarrow> uint64 \<Rightarrow> uint64 \<Rightarrow> 'a kmem_scheme
    \<Rightarrow> (int, 'a kmem_scheme) outcome" where
  "mappages pagetable va sz pa perm s =
     (if sz = 0 then Panic ''mappages: size''
      else mappages_loop pagetable (PGROUNDDOWN va) (PGROUNDDOWN (va + sz - 1)) pa perm s)"

definition kvmmap ::
  "uint64 \<Rightarrow> uint64 \<Rightarrow> uint64 \<Rightarrow> uint64 \<Rightarrow> uint64 \<Rightarrow> 'a kmem_scheme
    \<Rightarrow> (unit, 'a kmem_scheme) outcome" where
  "kvmmap kpgtbl va pa sz perm s =
     bnd (mappages kpgtbl va sz pa perm s) (\<lambda>r s. if r \<noteq> 0 then Panic ''kvmmap'' else Ret () s)"

fun mapstacks_loop ::
  "nat \<Rightarrow> nat \<Rightarrow> uint64 \<Rightarrow> 'a kmem_scheme \<Rightarrow> (unit, 'a kmem_scheme) outcome" where
  "mapstacks_loop 0 p kpgtbl s = Ret () s"
| "mapstacks_loop (Suc n) p kpgtbl s =
     bnd (kalloc s) (\<lambda>pa s.
       if pa = 0 then Panic ''kalloc''
       else bnd (kvmmap kpgtbl (KSTACK p) pa PGSIZE (PTE_R OR PTE_W) s) (\<lambda>_ s.
         mapstacks_loop n (Suc p) kpgtbl s))"

definition proc_mapstacks :: "uint64 \<Rightarrow> 'a kmem_scheme \<Rightarrow> (unit, 'a kmem_scheme) outcome" where
  "proc_mapstacks kpgtbl s = mapstacks_loop NPROC 0 kpgtbl s"

text \<open>\<open>etext\<close> and \<open>trampoline\<close> are addresses set by the linker.\<close>

definition kvmmake ::
  "uint64 \<Rightarrow> uint64 \<Rightarrow> 'a kmem_scheme \<Rightarrow> (uint64, 'a kmem_scheme) outcome" where
  "kvmmake etext trampoline s =
     bnd (kalloc s) (\<lambda>kpgtbl s.
     bnd (Ret () (s\<lparr>mem := memset (mem s) kpgtbl 0 4096\<rparr>)) (\<lambda>_ s.
     bnd (kvmmap kpgtbl UART0 UART0 PGSIZE (PTE_R OR PTE_W) s) (\<lambda>_ s.
     bnd (kvmmap kpgtbl VIRTIO0 VIRTIO0 PGSIZE (PTE_R OR PTE_W) s) (\<lambda>_ s.
     bnd (kvmmap kpgtbl PLIC PLIC 0x400000 (PTE_R OR PTE_W) s) (\<lambda>_ s.
     bnd (kvmmap kpgtbl KERNBASE KERNBASE (etext - KERNBASE) (PTE_R OR PTE_X) s) (\<lambda>_ s.
     bnd (kvmmap kpgtbl etext etext (PHYSTOP - etext) (PTE_R OR PTE_W) s) (\<lambda>_ s.
     bnd (kvmmap kpgtbl TRAMPOLINE trampoline PGSIZE (PTE_R OR PTE_X) s) (\<lambda>_ s.
     bnd (proc_mapstacks kpgtbl s) (\<lambda>_ s. Ret kpgtbl s)))))))))"

definition kvminit :: "uint64 \<Rightarrow> uint64 \<Rightarrow> 'a kvm_scheme \<Rightarrow> (unit, 'a kvm_scheme) outcome" where
  "kvminit etext trampoline s =
     bnd (kvmmake etext trampoline s) (\<lambda>pt s. Ret () (s\<lparr>kernel_pagetable := pt\<rparr>))"

definition kvminithart :: "'a kvm_scheme \<Rightarrow> (unit, 'a kvm_scheme) outcome" where
  "kvminithart s = Ret () (s\<lparr>satp := MAKE_SATP (kernel_pagetable s)\<rparr>)"

function uvmunmap_loop ::
  "uint64 \<Rightarrow> uint64 \<Rightarrow> uint64 \<Rightarrow> bool \<Rightarrow> 'a kmem_scheme \<Rightarrow> (unit, 'a kmem_scheme) outcome" where
  "uvmunmap_loop pagetable a stop do_free s =
     (if a < stop
      then bnd (walk pagetable a False s) (\<lambda>pte s.
        if pte = 0 then Panic ''uvmunmap: walk''
        else if load64 (mem s) pte AND PTE_V = 0 then Panic ''uvmunmap: not mapped''
        else if PTE_FLAGS (load64 (mem s) pte) = PTE_V then Panic ''uvmunmap: not a leaf''
        else bnd (if do_free then kfree (PTE2PA (load64 (mem s) pte)) s else Ret () s) (\<lambda>_ s.
          uvmunmap_loop pagetable (a + PGSIZE) stop do_free (s\<lparr>mem := store64 (mem s) pte 0\<rparr>)))
      else Ret () s)"
  by pat_completeness auto
termination
  by (relation "measure (\<lambda>(_, a, _). 2 ^ 64 - unat a)")
     (auto intro!: measure_step dest!: walk_Ret_bound)

declare uvmunmap_loop.simps [simp del]

definition uvmunmap ::
  "uint64 \<Rightarrow> uint64 \<Rightarrow> uint64 \<Rightarrow> bool \<Rightarrow> 'a kmem_scheme \<Rightarrow> (unit, 'a kmem_scheme) outcome" where
  "uvmunmap pagetable va npages do_free s =
     (if va mod PGSIZE \<noteq> 0 then Panic ''uvmunmap: not aligned''
      else uvmunmap_loop pagetable va (va + npages * PGSIZE) do_free s)"

definition uvmcreate :: "'a kmem_scheme \<Rightarrow> (uint64, 'a kmem_scheme) outcome" where
  "uvmcreate s = bnd (kalloc s) (\<lambda>pt s.
     if pt = 0 then Ret 0 s else Ret pt (s\<lparr>mem := memset (mem s) pt 0 4096\<rparr>))"

definition uvmfirst ::
  "uint64 \<Rightarrow> uchar list \<Rightarrow> 'a kmem_scheme \<Rightarrow> (unit, 'a kmem_scheme) outcome" where
  "uvmfirst pagetable src s =
     (if length src \<ge> 4096 then Panic ''uvmfirst: more than a page''
      else bnd (kalloc s) (\<lambda>pa s.
        bnd (mappages pagetable 0 PGSIZE pa (PTE_W OR PTE_R OR PTE_X OR PTE_U)
              (s\<lparr>mem := memset (mem s) pa 0 4096\<rparr>)) (\<lambda>_ s.
          Ret () (s\<lparr>mem := store_bytes (mem s) pa src\<rparr>))))"

text \<open>\<open>npages\<close> is an \<open>int\<close>, converted to \<open>uint64\<close> by the call of \<open>uvmunmap\<close>.\<close>

definition uvmdealloc ::
  "uint64 \<Rightarrow> uint64 \<Rightarrow> uint64 \<Rightarrow> 'a kmem_scheme \<Rightarrow> (uint64, 'a kmem_scheme) outcome" where
  "uvmdealloc pagetable oldsz newsz s =
     (if newsz \<ge> oldsz then Ret oldsz s
      else if PGROUNDUP newsz < PGROUNDUP oldsz
      then let npages = ucast ((PGROUNDUP oldsz - PGROUNDUP newsz) div PGSIZE) :: uint in
        bnd (uvmunmap pagetable (PGROUNDUP newsz) (scast npages) True s) (\<lambda>_ s. Ret newsz s)
      else Ret newsz s)"

lemma mappages_Ret_bound:
  "mappages pt va PGSIZE pa perm s = Ret r s' \<Longrightarrow> PGROUNDDOWN va < MAXVA"
  unfolding mappages_def
  by (subst (asm) mappages_loop.simps) (auto split: if_splits dest: walk_Ret_bound)

lemma PGROUNDDOWN_below: "PGROUNDDOWN va < MAXVA \<Longrightarrow> va < MAXVA"
proof -
  have "unat va < 274877906944" if "4096 * (unat va div 4096) < 274877906944"
  proof -
    have "unat va div 4096 < 67108864" using that by simp
    then show ?thesis by (simp add: div_less_iff_less_mult)
  qed
  then show "PGROUNDDOWN va < MAXVA \<Longrightarrow> va < MAXVA"
    by (simp add: word_less_nat_alt unat_PGROUNDDOWN)
qed

function uvmalloc_loop ::
  "uint64 \<Rightarrow> uint64 \<Rightarrow> uint64 \<Rightarrow> uint64 \<Rightarrow> uint64 \<Rightarrow> 'a kmem_scheme
    \<Rightarrow> (uint64, 'a kmem_scheme) outcome" where
  "uvmalloc_loop pagetable a oldsz newsz xperm s =
     (if a < newsz
      then bnd (kalloc s) (\<lambda>pa s.
        if pa = 0 then bnd (uvmdealloc pagetable a oldsz s) (\<lambda>_ s. Ret 0 s)
        else
          let s1 = s\<lparr>mem := memset (mem s) pa 0 4096\<rparr> in
          bnd (mappages pagetable a PGSIZE pa (PTE_R OR PTE_U OR xperm) s1) (\<lambda>r s.
            if r \<noteq> 0 then
              bnd (kfree pa s) (\<lambda>_ s. bnd (uvmdealloc pagetable a oldsz s) (\<lambda>_ s. Ret 0 s))
            else uvmalloc_loop pagetable (a + PGSIZE) oldsz newsz xperm s))
      else Ret newsz s)"
  by pat_completeness auto
termination
  by (relation "measure (\<lambda>(_, a, _). 2 ^ 64 - unat a)")
     (auto intro!: measure_step PGROUNDDOWN_below dest!: mappages_Ret_bound)

declare uvmalloc_loop.simps [simp del]

definition uvmalloc ::
  "uint64 \<Rightarrow> uint64 \<Rightarrow> uint64 \<Rightarrow> uint64 \<Rightarrow> 'a kmem_scheme \<Rightarrow> (uint64, 'a kmem_scheme) outcome" where
  "uvmalloc pagetable oldsz newsz xperm s =
     (if newsz < oldsz then Ret oldsz s
      else uvmalloc_loop pagetable (PGROUNDUP oldsz) (PGROUNDUP oldsz) newsz xperm s)"

text \<open>
  \<open>freewalk\<close> calls itself on every page-table page below. \<open>depth\<close> bounds that nesting:
  the tables have three levels, and a deeper structure overruns the kernel stack.
\<close>

fun freewalk_scan ::
  "(uint64 \<Rightarrow> 'a kmem_scheme \<Rightarrow> (unit, 'a kmem_scheme) outcome)
    \<Rightarrow> nat \<Rightarrow> nat \<Rightarrow> uint64 \<Rightarrow> 'a kmem_scheme \<Rightarrow> (unit, 'a kmem_scheme) outcome" where
  "freewalk_scan rec 0 i pagetable s = Ret () s"
| "freewalk_scan rec (Suc n) i pagetable s =
     (let pte = load64 (mem s) (slot pagetable i) in
      if pte AND PTE_V \<noteq> 0 \<and> pte AND (PTE_R OR PTE_W OR PTE_X) = 0
      then bnd (rec (PTE2PA pte) s) (\<lambda>_ s.
        freewalk_scan rec n (Suc i) pagetable (s\<lparr>mem := store64 (mem s) (slot pagetable i) 0\<rparr>))
      else if pte AND PTE_V \<noteq> 0 then Panic ''freewalk: leaf''
      else freewalk_scan rec n (Suc i) pagetable s)"

fun freewalk_depth ::
  "nat \<Rightarrow> uint64 \<Rightarrow> 'a kmem_scheme \<Rightarrow> (unit, 'a kmem_scheme) outcome" where
  "freewalk_depth 0 pagetable s = Panic ''stack overflow''"
| "freewalk_depth (Suc d) pagetable s =
     bnd (freewalk_scan (freewalk_depth d) 512 0 pagetable s) (\<lambda>_ s. kfree pagetable s)"

definition freewalk :: "uint64 \<Rightarrow> 'a kmem_scheme \<Rightarrow> (unit, 'a kmem_scheme) outcome" where
  "freewalk pagetable s = freewalk_depth 3 pagetable s"

definition uvmfree :: "uint64 \<Rightarrow> uint64 \<Rightarrow> 'a kmem_scheme \<Rightarrow> (unit, 'a kmem_scheme) outcome" where
  "uvmfree pagetable sz s =
     bnd (if sz > 0 then uvmunmap pagetable 0 (PGROUNDUP sz div PGSIZE) True s else Ret () s) (\<lambda>_ s.
       freewalk pagetable s)"

function uvmcopy_loop ::
  "uint64 \<Rightarrow> uint64 \<Rightarrow> uint64 \<Rightarrow> uint64 \<Rightarrow> 'a kmem_scheme \<Rightarrow> (int, 'a kmem_scheme) outcome" where
  "uvmcopy_loop old new i sz s =
     (if i < sz
      then bnd (walk old i False s) (\<lambda>pte s.
        if pte = 0 then Panic ''uvmcopy: pte should exist''
        else if load64 (mem s) pte AND PTE_V = 0 then Panic ''uvmcopy: page not present''
        else
          let pa = PTE2PA (load64 (mem s) pte);
              flags = PTE_FLAGS (load64 (mem s) pte);
              err = (\<lambda>s. bnd (uvmunmap new 0 (i div PGSIZE) True s) (\<lambda>_ s. Ret (-1) s))
          in bnd (kalloc s) (\<lambda>pg s.
            if pg = 0 then err s
            else bnd (mappages new i PGSIZE pg flags (s\<lparr>mem := memmove (mem s) pg pa 4096\<rparr>)) (\<lambda>r s.
              if r \<noteq> 0 then bnd (kfree pg s) (\<lambda>_ s. err s)
              else uvmcopy_loop old new (i + PGSIZE) sz s)))
      else Ret 0 s)"
  by pat_completeness auto
termination
  by (relation "measure (\<lambda>(_, _, a, _). 2 ^ 64 - unat a)")
     (auto intro!: measure_step dest!: walk_Ret_bound)

declare uvmcopy_loop.simps [simp del]

definition uvmcopy ::
  "uint64 \<Rightarrow> uint64 \<Rightarrow> uint64 \<Rightarrow> 'a kmem_scheme \<Rightarrow> (int, 'a kmem_scheme) outcome" where
  "uvmcopy old new sz s = uvmcopy_loop old new 0 sz s"

definition uvmclear :: "uint64 \<Rightarrow> uint64 \<Rightarrow> 'a kmem_scheme \<Rightarrow> (unit, 'a kmem_scheme) outcome" where
  "uvmclear pagetable va s =
     bnd (walk pagetable va False s) (\<lambda>pte s.
       if pte = 0 then Panic ''uvmclear''
       else Ret () (s\<lparr>mem := store64 (mem s) pte (load64 (mem s) pte AND NOT PTE_U)\<rparr>))"

text \<open>Bytes from an address to the end of its page, at most \<open>len\<close>.\<close>

definition chunk :: "uint64 \<Rightarrow> nat \<Rightarrow> nat" where
  "chunk va len = (let n = 4096 - unat (va - PGROUNDDOWN va) in if n > len then len else n)"

lemma PGROUNDDOWN_diff: "unat (va - PGROUNDDOWN va) < 4096"
  by (simp add: in_page_iff)

lemma chunk_pos: "0 < len \<Longrightarrow> 0 < chunk va len"
  using PGROUNDDOWN_diff [of va] by (simp add: chunk_def Let_def)

function copyout ::
  "uint64 \<Rightarrow> uint64 \<Rightarrow> uchar list \<Rightarrow> 'a kmem_scheme \<Rightarrow> (int, 'a kmem_scheme) outcome" where
  "copyout pagetable dstva src s =
     (if length src > 0
      then let va0 = PGROUNDDOWN dstva in
        bnd (walkaddr pagetable va0 s) (\<lambda>pa0 s.
          if pa0 = 0 then Ret (-1) s
          else
            let n = chunk dstva (length src) in
            copyout pagetable (va0 + PGSIZE) (drop n src)
              (s\<lparr>mem := store_bytes (mem s) (pa0 + (dstva - va0)) (take n src)\<rparr>))
      else Ret 0 s)"
  by pat_completeness auto
termination
  by (relation "measure (\<lambda>(_, _, src, _). length src)") (use chunk_pos in auto)

declare copyout.simps [simp del]

function copyin ::
  "uint64 \<Rightarrow> uint64 \<Rightarrow> nat \<Rightarrow> 'a kmem_scheme \<Rightarrow> (int \<times> uchar list, 'a kmem_scheme) outcome" where
  "copyin pagetable srcva len s =
     (if len > 0
      then let va0 = PGROUNDDOWN srcva in
        bnd (walkaddr pagetable va0 s) (\<lambda>pa0 s.
          if pa0 = 0 then Ret (-1, []) s
          else
            let n = chunk srcva len in
            bnd (copyin pagetable (va0 + PGSIZE) (len - n) s) (\<lambda>(r, bs) s'.
              Ret (r, load_bytes (mem s) (pa0 + (srcva - va0)) n @ bs) s'))
      else Ret (0, []) s)"
  by pat_completeness auto
termination
  by (relation "measure (\<lambda>(_, _, len, _). len)") (use chunk_pos in auto)

declare copyin.simps [simp del]

text \<open>
  The inner loop of \<open>copyinstr\<close>: at most \<open>n\<close> bytes from \<open>p\<close>; whether a NUL was found, and
  the bytes written.
\<close>

fun copyinstr_page :: "memory \<Rightarrow> uint64 \<Rightarrow> nat \<Rightarrow> bool \<times> uchar list" where
  "copyinstr_page m p 0 = (False, [])"
| "copyinstr_page m p (Suc n) =
     (if m p = 0 then (True, [0])
      else let (got_null, bs) = copyinstr_page m (p + 1) n in (got_null, m p # bs))"

function copyinstr ::
  "uint64 \<Rightarrow> uint64 \<Rightarrow> nat \<Rightarrow> 'a kmem_scheme \<Rightarrow> (int \<times> uchar list, 'a kmem_scheme) outcome" where
  "copyinstr pagetable srcva maxn s =
     (if maxn > 0
      then let va0 = PGROUNDDOWN srcva in
        bnd (walkaddr pagetable va0 s) (\<lambda>pa0 s.
          if pa0 = 0 then Ret (-1, []) s
          else
            let n = chunk srcva maxn;
                (got_null, bs) = copyinstr_page (mem s) (pa0 + (srcva - va0)) n
            in if got_null then Ret (0, bs) s
               else bnd (copyinstr pagetable (va0 + PGSIZE) (maxn - n) s) (\<lambda>(r, bs') s'.
                 Ret (r, bs @ bs') s'))
      else Ret (-1, []) s)"
  by pat_completeness auto
termination
  by (relation "measure (\<lambda>(_, _, n, _). n)") (use chunk_pos in auto)

declare copyinstr.simps [simp del]

section \<open>Looking up an address\<close>

lemma slot_nonnull: "page_aligned q \<Longrightarrow> q \<noteq> 0 \<Longrightarrow> k < 512 \<Longrightarrow> slot q k \<noteq> 0"
proof
  assume q: "page_aligned q" "q \<noteq> 0" "k < 512" and z: "slot q k = 0"
  have "PGROUNDDOWN (slot q k) = q" using PGROUNDDOWN_slot [OF q(1,3), of 0] by simp
  then show False using z q(2) by (simp add: PGROUNDDOWN_def)
qed

lemma walk_lookup:
  "va < MAXVA \<Longrightarrow> walk pt va False s =
     Ret (case node_at (mem s) pt (vpath va) of None \<Rightarrow> 0 | Some q \<Rightarrow> slot q (unat (PX 0 va))) s"
  by (simp add: walk_def vpath_def numeral_2_eq_2 Let_def pte_valid_def [symmetric])

lemma pte_of_Some:
  "node_at m pt (vpath va) = Some q \<Longrightarrow> pte_of m pt va = load64 m (slot q (unat (PX 0 va)))"
  by (simp add: pte_of_def pte_at_def)

lemma pte_of_None: "node_at m pt (vpath va) = None \<Longrightarrow> pte_of m pt va = 0"
  by (simp add: pte_of_def pte_at_def)

lemma slot_at_nonnull:
  assumes "pt_wf m pt" "node_at m pt (vpath va) = Some q"
  shows "slot q (unat (PX l va)) \<noteq> 0"
  using pt_wf_aligned [OF assms] pt_wf_nonnull [OF assms] by (intro slot_nonnull) (simp_all add: PX_bound)

text \<open>The physical page that user code reaches at \<open>va\<close>, 0 for none.\<close>

definition user_pa :: "memory \<Rightarrow> uint64 \<Rightarrow> uint64 \<Rightarrow> uint64" where
  "user_pa m pt va =
     (let e = pte_of m pt va in
      if va < MAXVA \<and> e AND PTE_V \<noteq> 0 \<and> e AND PTE_U \<noteq> 0 then PTE2PA e else 0)"

lemma walkaddr_user_pa:
  assumes "pt_wf (mem s) pt"
  shows "walkaddr pt va s = Ret (user_pa (mem s) pt va) s"
proof (cases "MAXVA \<le> va")
  case False
  then have lt: "va < MAXVA" by simp
  show ?thesis
  proof (cases "node_at (mem s) pt (vpath va)")
    case None
    then show ?thesis using False lt by (simp add: walkaddr_def walk_lookup user_pa_def pte_of_None)
  next
    case (Some q)
    then have "slot q (unat (PX 0 va)) \<noteq> 0"
      using assms by (intro slot_at_nonnull)
    then show ?thesis using False lt Some
      by (simp add: walkaddr_def walk_lookup user_pa_def pte_of_Some Let_def)
  qed
next
  case True
  then have "\<not> va < MAXVA" by simp
  then show ?thesis using True by (simp add: walkaddr_def user_pa_def Let_def)
qed

lemma user_pa_page: "user_pa m pt va = user_pa m pt (PGROUNDDOWN va)"
proof (cases "va < MAXVA")
  case True
  then have lt: "PGROUNDDOWN va < MAXVA"
    by (simp add: word_less_nat_alt unat_PGROUNDDOWN)
  then have "vpath va = vpath (PGROUNDDOWN va)" "PX 0 va = PX 0 (PGROUNDDOWN va)"
    using vpath_inject [OF True lt] by simp_all
  then show ?thesis using True lt by (simp add: user_pa_def pte_of_def)
next
  case False
  then show ?thesis using PGROUNDDOWN_below [of va] by (auto simp: user_pa_def Let_def)
qed

section \<open>Growing a table\<close>

text \<open>
  A table next to the free list: the nodes are not free pages.
\<close>

definition pt_inv :: "'a kmem_scheme \<Rightarrow> uint64 \<Rightarrow> uint64 list \<Rightarrow> bool" where
  "pt_inv s pt ps \<longleftrightarrow> kmem_inv s ps \<and> pt_wf (mem s) pt \<and> nodes (mem s) pt \<inter> set ps = {}"

text \<open>Only the pages in \<open>P\<close> and the allocator's own state changed.\<close>

definition vm_frame :: "'a kmem_scheme \<Rightarrow> 'a kmem_scheme \<Rightarrow> uint64 set \<Rightarrow> bool" where
  "vm_frame s s' P \<longleftrightarrow> (\<forall>x. PGROUNDDOWN x \<notin> P \<longrightarrow> mem s' x = mem s x) \<and> kothers s' = kothers s"

lemma vm_frame_refl [simp]: "vm_frame s s P"
  by (simp add: vm_frame_def)

lemma vm_frame_trans: "vm_frame s s' P \<Longrightarrow> vm_frame s' s'' Q \<Longrightarrow> P \<union> Q \<subseteq> R \<Longrightarrow> vm_frame s s'' R"
  unfolding vm_frame_def by (metis UnCI subsetD)

lemma vm_frame_kpage: "vm_frame s s' P \<Longrightarrow> kpage s' = kpage s"
  unfolding vm_frame_def by (blast intro: kothers_kpage)

lemma only_page_memset_eq:
  assumes "only_page p m m'" "page_aligned p"
  shows "memset m' p c 4096 = memset m p c 4096"
  using assms by (auto simp: fun_eq_iff memset_apply only_page_def in_page_iff)

lemma kpage_bounds: "kpage s p \<Longrightarrow> page_aligned p \<and> p < 2 ^ 56"
proof -
  assume "kpage s p"
  then have "page_aligned p" and lt: "p < 0x88000000" by (simp_all add: kpage_def)
  moreover have "p < 2 ^ 56" by (rule less_le_trans [OF lt]) simp
  ultimately show ?thesis by blast
qed

lemma walk_add_node:
  assumes inv: "pt_inv s pt (p # ps)" and q: "node_at (mem s) pt is = Some q" and ix: "ipath (is @ [i])"
    and nv: "\<not> pte_valid (load64 (mem s) (slot q i))"
  obtains s1 where "kalloc s = Ret p s1" "p \<noteq> 0"
    "\<And>s2. s2 = s1\<lparr>mem := store64 (memset (mem s1) p 0 4096) (slot q i) (PA2PTE p OR PTE_V)\<rparr> \<Longrightarrow>
      pt_inv s2 pt ps \<and> nodes (mem s2) pt = insert p (nodes (mem s) pt)
      \<and> (\<forall>va. pte_of (mem s2) pt va = pte_of (mem s) pt va)
      \<and> node_at (mem s2) pt (is @ [i]) = Some p
      \<and> vm_frame s s2 (insert p (nodes (mem s) pt))"
proof -
  have kinv: "kmem_inv s (p # ps)" and wf: "pt_wf (mem s) pt" and dj: "nodes (mem s) pt \<inter> set (p # ps) = {}"
    using inv by (auto simp: pt_inv_def)
  obtain s1 where s1: "kalloc s = Ret p s1" "kmem_inv s1 ps" "p \<noteq> 0" "page_aligned p" "p \<notin> set ps"
    "only_page p (mem s) (mem s1)" "kothers s1 = kothers s" "kpage s p"
    using kinv by (cases rule: kpages.alloc_cases) auto
  define m2 where "m2 = store64 (memset (mem s) p 0 4096) (slot q i) (PA2PTE p OR PTE_V)"
  have pn: "p \<notin> nodes (mem s) pt" using dj by auto
  note add = add_node [OF wf q ix nv s1(4) pn s1(3) conjunct2 [OF kpage_bounds [OF s1(8)]], folded m2_def]
  have "m2 x = mem s1 x" if "PGROUNDDOWN x \<in> set ps" for x
  proof -
    have "PGROUNDDOWN x \<notin> insert p (nodes (mem s) pt)" using that dj s1(5) by auto
    then show ?thesis using add(5) s1(6) by (auto simp: only_page_def)
  qed
  then have "kmem_inv (s1\<lparr>mem := m2\<rparr>) ps" using kmem_inv_frame [OF s1(2)] by blast
  then have "pt_inv (s1\<lparr>mem := m2\<rparr>) pt ps"
    using add(2,3) dj s1(5) by (auto simp: pt_inv_def)
  moreover have "pte_of m2 pt va = pte_of (mem s) pt va" for va
    using add(4) [of "vpath va"] by (simp add: pte_of_def PX_bound vpath_def ipath_def)
  moreover have "vm_frame s (s1\<lparr>mem := m2\<rparr>) (insert p (nodes (mem s) pt))"
    using add(5) s1(7) by (simp add: vm_frame_def)
  ultimately show ?thesis
    using that [OF s1(1,3)] add(1) [OF ix] add(3) only_page_memset_eq [OF s1(6,4)] by (simp add: m2_def)
qed

text \<open>What \<open>walk\<close> with \<open>alloc\<close> set does to the table, the free list and the memory.\<close>

definition walked ::
  "uint64 \<Rightarrow> uint64 \<Rightarrow> 'a kmem_scheme \<Rightarrow> uint64 list \<Rightarrow> uint64 \<Rightarrow> 'a kmem_scheme \<Rightarrow> uint64 list \<Rightarrow> bool" where
  "walked pt va s ps r s' ps' \<longleftrightarrow>
     (\<exists>taken. ps = taken @ ps' \<and> pt_inv s' pt ps' \<and> nodes (mem s') pt = nodes (mem s) pt \<union> set taken
      \<and> (\<forall>vb. pte_of (mem s') pt vb = pte_of (mem s) pt vb)
      \<and> vm_frame s s' (nodes (mem s) pt \<union> set taken)
      \<and> (if r = 0 then ps' = [] else
           \<exists>q. node_at (mem s') pt (vpath va) = Some q \<and> r = slot q (unat (PX 0 va))))"

lemma walked_nothing:
  assumes "pt_inv s pt ps"
    and "if r = 0 then ps = [] else \<exists>q. node_at (mem s) pt (vpath va) = Some q \<and> r = slot q (unat (PX 0 va))"
  shows "walked pt va s ps r s ps"
  unfolding walked_def using assms by (intro exI [of _ "[]"]) simp

lemma walk_loop_descend:
  "pte_valid (load64 (mem s) (slot q (unat (PX (Suc l) va)))) \<Longrightarrow>
   walk_loop (Suc l) q va alloc s =
     walk_loop l (PTE2PA (load64 (mem s) (slot q (unat (PX (Suc l) va))))) va alloc s"
  by (simp add: pte_valid_def Let_def)

lemma walk_loop_extend:
  assumes "\<not> pte_valid (load64 (mem s) (slot q (unat (PX (Suc l) va))))"
  shows "walk_loop (Suc l) q va True s = bnd (kalloc s) (\<lambda>pa s. if pa = 0 then Ret 0 s
     else walk_loop l pa va True
       (s\<lparr>mem := store64 (memset (mem s) pa 0 4096) (slot q (unat (PX (Suc l) va))) (PA2PTE pa OR PTE_V)\<rparr>))"
  using assms by (simp add: pte_valid_def Let_def cong: if_cong)

lemma walk_loop_alloc:
  assumes "pt_inv s pt ps" "node_at (mem s) pt is = Some q"
    "is @ map (\<lambda>k. unat (PX k va)) (rev [1..<Suc l]) = vpath va"
  shows "\<exists>r s' ps'. walk_loop l q va True s = Ret r s' \<and> walked pt va s ps r s' ps'"
  using assms
proof (induction l arbitrary: s ps "is" q)
  case 0
  then have "node_at (mem s) pt (vpath va) = Some q" by simp
  moreover have "slot q (unat (PX 0 va)) \<noteq> 0"
    using 0 by (intro slot_at_nonnull) (auto simp: pt_inv_def)
  ultimately have "walked pt va s ps (slot q (unat (PX 0 va))) s ps"
    using 0 by (intro walked_nothing) auto
  then show ?case by auto
next
  case (Suc l)
  let ?i = "unat (PX (Suc l) va)" and ?e = "load64 (mem s) (slot q (unat (PX (Suc l) va)))"
  have path: "(is @ [?i]) @ map (\<lambda>k. unat (PX k va)) (rev [1..<Suc l]) = vpath va"
    using Suc.prems(3) by simp
  have "length is + Suc l = 2" using arg_cong [OF Suc.prems(3), of length] by (simp add: vpath_def del: upt_Suc)
  moreover have "ipath (is @ [?i] @ map (\<lambda>k. unat (PX k va)) (rev [1..<Suc l]))"
    using path by simp
  ultimately have ix: "ipath (is @ [?i])" by (auto simp: ipath_def)
  show ?case
  proof (cases "pte_valid ?e")
    case True
    then have "node_at (mem s) pt (is @ [?i]) = Some (PTE2PA ?e)"
      using Suc.prems(2) by (simp add: node_at_append)
    from Suc.IH [OF Suc.prems(1) this path] show ?thesis
      unfolding walk_loop_descend [OF True] .
  next
    case False
    show ?thesis
    proof (cases ps)
      case Nil
      then have "kalloc s = Ret 0 s"
        using Suc.prems(1) kpages.alloc_empty by (auto simp: pt_inv_def)
      then have "walk_loop (Suc l) q va True s = Ret 0 s"
        unfolding walk_loop_extend [OF False] by simp
      moreover have "walked pt va s ps 0 s ps" using Nil Suc.prems(1) by (intro walked_nothing) auto
      ultimately show ?thesis by blast
    next
      case (Cons p ps1)
      from walk_add_node [OF Suc.prems(1) [unfolded Cons] Suc.prems(2) ix False]
      obtain s1 where s1: "kalloc s = Ret p s1" "p \<noteq> 0"
        and post: "\<And>s2. s2 = s1\<lparr>mem := store64 (memset (mem s1) p 0 4096) (slot q ?i) (PA2PTE p OR PTE_V)\<rparr> \<Longrightarrow>
          pt_inv s2 pt ps1 \<and> nodes (mem s2) pt = insert p (nodes (mem s) pt)
          \<and> (\<forall>va. pte_of (mem s2) pt va = pte_of (mem s) pt va)
          \<and> node_at (mem s2) pt (is @ [?i]) = Some p
          \<and> vm_frame s s2 (insert p (nodes (mem s) pt))" by metis
      define s2 where "s2 = s1\<lparr>mem := store64 (memset (mem s1) p 0 4096) (slot q ?i) (PA2PTE p OR PTE_V)\<rparr>"
      note s2 = post [OF s2_def]
      from Suc.IH [of s2 ps1, OF _ _ path] s2 obtain r s' ps' where
        r: "walk_loop l p va True s2 = Ret r s'" "walked pt va s2 ps1 r s' ps'" by blast
      have "walk_loop (Suc l) q va True s = Ret r s'"
        using s1 r(1) unfolding walk_loop_extend [OF False] by (simp add: s2_def)
      moreover have "walked pt va s ps r s' ps'"
      proof -
        from r(2) obtain taken where tk: "ps1 = taken @ ps'" "pt_inv s' pt ps'"
          "nodes (mem s') pt = nodes (mem s2) pt \<union> set taken"
          "\<forall>vb. pte_of (mem s') pt vb = pte_of (mem s2) pt vb"
          "vm_frame s2 s' (nodes (mem s2) pt \<union> set taken)"
          "if r = 0 then ps' = [] else \<exists>q. node_at (mem s') pt (vpath va) = Some q \<and> r = slot q (unat (PX 0 va))"
          unfolding walked_def by blast
        have "vm_frame s s' (nodes (mem s) pt \<union> set (p # taken))"
          using s2 tk(5) by (auto intro!: vm_frame_trans [of s s2 _ s'])
        then show ?thesis unfolding walked_def using tk s2 Cons by (intro exI [of _ "p # taken"]) auto
      qed
      ultimately show ?thesis by blast
    qed
  qed
qed

lemma walk_alloc:
  assumes "pt_inv s pt ps" "va < MAXVA"
  shows "\<exists>r s' ps'. walk pt va True s = Ret r s' \<and> walked pt va s ps r s' ps'"
proof -
  have "[] @ map (\<lambda>k. unat (PX k va)) (rev [1..<Suc 2]) = vpath va"
    by (simp add: vpath_def upt_rec numeral_2_eq_2)
  with walk_loop_alloc [OF assms(1), of "[]" pt va 2] assms(2) show ?thesis
    by (simp add: walk_def not_le)
qed

section \<open>Mapping pages\<close>

text \<open>
  The entries of the \<open>n\<close> pages from \<open>a\<close> become \<open>f\<close>; every other entry is as before.
\<close>

definition set_entries ::
  "uint64 \<Rightarrow> uint64 \<Rightarrow> nat \<Rightarrow> (uint64 \<Rightarrow> uint64) \<Rightarrow> memory \<Rightarrow> memory \<Rightarrow> bool" where
  "set_entries pt a n f m m' \<longleftrightarrow>
     (\<forall>vb < MAXVA. pte_of m' pt vb = (if unat (vb - a) < 4096 * n then f vb else pte_of m pt vb))"

text \<open>The pages from \<open>a\<close> map the physical pages from \<open>pa\<close>.\<close>

definition mapped_to ::
  "uint64 \<Rightarrow> uint64 \<Rightarrow> nat \<Rightarrow> uint64 \<Rightarrow> uint64 \<Rightarrow> memory \<Rightarrow> memory \<Rightarrow> bool" where
  "mapped_to pt a n pa perm =
     set_entries pt a n (\<lambda>vb. PA2PTE (pa - a + PGROUNDDOWN vb) OR perm OR PTE_V)"

text \<open>The table took \<open>taken\<close> from the free list; memory changed in the table only.\<close>

definition grown ::
  "uint64 \<Rightarrow> 'a kmem_scheme \<Rightarrow> uint64 list \<Rightarrow> 'a kmem_scheme \<Rightarrow> uint64 list \<Rightarrow> bool" where
  "grown pt s ps s' ps' \<longleftrightarrow>
     (\<exists>taken. ps = taken @ ps' \<and> pt_inv s' pt ps' \<and> nodes (mem s') pt = nodes (mem s) pt \<union> set taken
      \<and> vm_frame s s' (nodes (mem s) pt \<union> set taken))"

lemma grown_refl: "pt_inv s pt ps \<Longrightarrow> grown pt s ps s ps"
  unfolding grown_def by (intro exI [of _ "[]"]) simp

lemma grown_trans: "grown pt s ps s' ps' \<Longrightarrow> grown pt s' ps' s'' ps'' \<Longrightarrow> grown pt s ps s'' ps''"
  unfolding grown_def by (elim exE conjE, intro exI [of _ "_ @ _"]) (auto elim: vm_frame_trans)

lemma walked_grown: "walked pt va s ps r s' ps' \<Longrightarrow> grown pt s ps s' ps'"
  unfolding walked_def grown_def by blast

lemma store_leaf:
  fixes e :: uint64
  assumes inv: "pt_inv s pt ps" and q: "node_at (mem s) pt (vpath va) = Some q" and va: "va < MAXVA"
  defines "s' \<equiv> s\<lparr>mem := store64 (mem s) (slot q (unat (PX 0 va))) e\<rparr>"
  shows "grown pt s ps s' ps"
    and "vb < MAXVA \<Longrightarrow> pte_of (mem s') pt vb = (if PGROUNDDOWN vb = PGROUNDDOWN va then e else pte_of (mem s) pt vb)"
proof -
  have wf: "pt_wf (mem s) pt" using inv by (simp add: pt_inv_def)
  have qa: "page_aligned q" "q \<in> nodes (mem s) pt"
    using pt_wf_aligned [OF wf q] nodesI [OF ipath_vpath(1) q] by simp_all
  note lu = leaf_update [OF wf q [unfolded vpath_def] PX_bound PX_bound PX_bound]
  have fr: "store64 (mem s) (slot q (unat (PX 0 va))) e x = mem s x" if "PGROUNDDOWN x \<notin> nodes (mem s) pt" for x
    using that qa by (intro store64_slot_other_page) (auto simp: PX_bound)
  then have "kmem_inv s' ps"
    unfolding s'_def using inv by (intro kmem_inv_frame) (auto simp: pt_inv_def)
  then have "pt_inv s' pt ps" using inv lu(2,3) by (simp add: pt_inv_def s'_def)
  then show "grown pt s ps s' ps"
    unfolding grown_def using lu(3) fr by (intro exI [of _ "[]"]) (simp add: s'_def vm_frame_def)
  show "pte_of (mem s') pt vb = (if PGROUNDDOWN vb = PGROUNDDOWN va then e else pte_of (mem s) pt vb)"
    if "vb < MAXVA"
    using pte_of_update [OF wf q va that] by (simp add: s'_def)
qed

lemma set_entries_Suc:
  assumes "set_entries pt a 1 f m m'" "set_entries pt (a + PGSIZE) n f m' m''"
    and n: "unat a + 4096 * Suc n \<le> 0x4000000000"
  shows "set_entries pt a (Suc n) f m m''"
  unfolding set_entries_def
proof (intro allI impI)
  fix vb :: uint64 assume vb: "vb < MAXVA"
  have s: "vb - (a + PGSIZE) = vb - a - PGSIZE" by simp
  show "pte_of m'' pt vb = (if unat (vb - a) < 4096 * Suc n then f vb else pte_of m pt vb)"
  proof (cases "unat (vb - a) < 4096")
    case True
    have "\<not> unat (vb - (a + PGSIZE)) < 4096 * n"
      using True n unfolding s by (simp add: unat_sub_if')
    then show ?thesis using True vb assms(1,2) by (simp add: set_entries_def)
  next
    case False
    then have "unat (vb - (a + PGSIZE)) = unat (vb - a) - 4096"
      unfolding s by (simp add: unat_sub_if')
    then show ?thesis using False vb assms(1,2) by (auto simp: set_entries_def)
  qed
qed

lemma mapped_to_Suc:
  assumes "mapped_to pt a 1 pa perm m m'" "mapped_to pt (a + PGSIZE) n (pa + PGSIZE) perm m' m''"
    "unat a + 4096 * Suc n \<le> 0x4000000000"
  shows "mapped_to pt a (Suc n) pa perm m m''"
proof -
  have "pa + PGSIZE - (a + PGSIZE) = pa - a" by simp
  then show ?thesis using assms set_entries_Suc unfolding mapped_to_def by metis
qed

lemma set_entries_0: "set_entries pt a 0 f m m' \<longleftrightarrow> (\<forall>vb < MAXVA. pte_of m' pt vb = pte_of m pt vb)"
  by (simp add: set_entries_def)

lemma mapped_to_0 [simp]: "mapped_to pt a 0 pa perm m m"
  by (simp add: mapped_to_def set_entries_0)

lemma mapped_to_0_eq:
  "mapped_to pt a 0 pa perm m m' \<longleftrightarrow> (\<forall>vb < MAXVA. pte_of m' pt vb = pte_of m pt vb)"
  by (simp add: mapped_to_def set_entries_0)

text \<open>\<open>mappages\<close> maps the pages in order until it is done or memory runs out.\<close>

definition mappages_post where
  "mappages_post pt a k pa perm s ps r s' ps' \<longleftrightarrow> grown pt s ps s' ps' \<and>
     (if r = 0 then mapped_to pt a k pa perm (mem s) (mem s')
      else r = -1 \<and> ps' = [] \<and> (\<exists>n<k. mapped_to pt a n pa perm (mem s) (mem s')))"

lemma walk_store:
  assumes inv: "pt_inv s pt ps" and a: "page_aligned a" "a < MAXVA"
    and nv: "\<not> pte_valid (pte_of (mem s) pt a)"
  obtains (full) s1 where "walk pt a True s = Ret 0 s1" "grown pt s ps s1 []"
      "mapped_to pt a 0 pa perm (mem s) (mem s1)"
  | (store) r s1 ps1 s2 where "walk pt a True s = Ret r s1" "r \<noteq> 0" "\<not> pte_valid (load64 (mem s1) r)"
      "s2 = s1\<lparr>mem := store64 (mem s1) r (PA2PTE pa OR perm OR PTE_V)\<rparr>"
      "grown pt s ps s2 ps1" "mapped_to pt a 1 pa perm (mem s) (mem s2)"
proof -
  obtain r s1 ps1 where w: "walk pt a True s = Ret r s1" "walked pt a s ps r s1 ps1"
    using walk_alloc [OF inv a(2)] by blast
  have g: "grown pt s ps s1 ps1" using w(2) by (rule walked_grown)
  have same: "pte_of (mem s1) pt vb = pte_of (mem s) pt vb" for vb
    using w(2) by (auto simp: walked_def)
  have inv1: "pt_inv s1 pt ps1" using g by (auto simp: grown_def)
  show ?thesis
  proof (cases "r = 0")
    case True
    then have "ps1 = []" using w(2) by (auto simp: walked_def)
    then show ?thesis using full w(1) g True same by (simp add: mapped_to_0_eq)
  next
    case False
    then obtain q where q: "node_at (mem s1) pt (vpath a) = Some q" "r = slot q (unat (PX 0 a))"
      using w(2) by (auto simp: walked_def)
    define s2 where "s2 = s1\<lparr>mem := store64 (mem s1) r (PA2PTE pa OR perm OR PTE_V)\<rparr>"
    note st = store_leaf [OF inv1 q(1) a(2), where e = "PA2PTE pa OR perm OR PTE_V", folded q(2), folded s2_def]
    have "mapped_to pt a 1 pa perm (mem s) (mem s2)"
      using st(2) same a(1) by (simp add: mapped_to_def set_entries_def in_page_iff)
    moreover have "\<not> pte_valid (load64 (mem s1) r)"
      using nv same [of a] by (simp add: pte_of_Some [OF q(1)] q(2))
    ultimately show ?thesis
      using store [OF w(1) False _ s2_def grown_trans [OF g st(1)]] by blast
  qed
qed

lemma mappages_loop_maps:
  assumes "pt_inv s pt ps" "page_aligned a" "unat a + 4096 * Suc k \<le> 0x4000000000"
    "\<And>vb. unat (vb - a) < 4096 * Suc k \<Longrightarrow> vb < MAXVA \<Longrightarrow> \<not> pte_valid (pte_of (mem s) pt vb)"
  shows "\<exists>r s' ps'. mappages_loop pt a (a + of_nat k * PGSIZE) pa perm s = Ret r s'
     \<and> mappages_post pt a (Suc k) pa perm s ps r s' ps'"
  using assms
proof (induction k arbitrary: a pa s ps)
  case 0
  have lt: "a < MAXVA" using "0.prems"(3) by (simp add: word_less_nat_alt)
  have nv: "\<not> pte_valid (pte_of (mem s) pt a)" using "0.prems"(4) [of a] lt by simp
  from "0.prems"(1,2) lt nv show ?case
  proof (cases rule: walk_store [where pa = pa and perm = perm])
    case full
    then show ?thesis by (subst mappages_loop.simps) (auto simp: mappages_post_def)
  next
    case store
    then show ?thesis by (subst mappages_loop.simps) (auto simp: mappages_post_def pte_valid_def Let_def)
  qed
next
  case (Suc k)
  have lt: "a < MAXVA" using Suc.prems(3) by (simp add: word_less_nat_alt)
  have nv: "\<not> pte_valid (pte_of (mem s) pt a)" using Suc.prems(4) [of a] lt by simp
  have up: "unat (a + PGSIZE) = unat a + 4096" using Suc.prems(3) by (simp add: unat_word_ariths)
  have neq: "a \<noteq> a + of_nat (Suc k) * PGSIZE" 
  proof -
    have "unat (of_nat (Suc k) * PGSIZE :: uint64) = 4096 * Suc k"
      using Suc.prems(3) by (simp add: unat_word_ariths unat_of_nat)
    then show ?thesis by auto
  qed
  have next_a: "a + of_nat (Suc k) * PGSIZE = a + PGSIZE + of_nat k * PGSIZE" by (simp add: algebra_simps)
  from Suc.prems(1,2) lt nv show ?case
  proof (cases rule: walk_store [where pa = pa and perm = perm])
    case full
    then show ?thesis by (subst mappages_loop.simps) (auto simp: mappages_post_def)
  next
    case (store r s1 ps1 s2)
    have inv2: "pt_inv s2 pt ps1" using store(5) by (auto simp: grown_def)
    have al: "page_aligned (a + PGSIZE)" using Suc.prems(2) up by (simp add: page_aligned_unat)
    have bd: "unat (a + PGSIZE) + 4096 * Suc k \<le> 0x4000000000" using Suc.prems(3) up by simp
    have nv2: "\<not> pte_valid (pte_of (mem s2) pt vb)"
      if "unat (vb - (a + PGSIZE)) < 4096 * Suc k" "vb < MAXVA" for vb
    proof -
      have s: "vb - (a + PGSIZE) = vb - a - PGSIZE" by simp
      have "\<not> unat (vb - a) < 4096" "unat (vb - a) < 4096 * Suc (Suc k)"
        using that(1) bd unfolding s by (auto simp: unat_sub_if' split: if_splits)
      then show ?thesis using store(6) that(2) Suc.prems(4) [of vb] by (simp add: mapped_to_def set_entries_def)
    qed
    from Suc.IH [OF inv2 al bd nv2, of "pa + PGSIZE"] obtain r' s' ps' where
      r': "mappages_loop pt (a + PGSIZE) (a + PGSIZE + of_nat k * PGSIZE) (pa + PGSIZE) perm s2 = Ret r' s'"
      "mappages_post pt (a + PGSIZE) (Suc k) (pa + PGSIZE) perm s2 ps1 r' s' ps'" by blast
    have "mappages_loop pt a (a + of_nat (Suc k) * PGSIZE) pa perm s = Ret r' s'"
      using store(1-4) neq r'(1) unfolding next_a
      by (subst mappages_loop.simps) (simp add: pte_valid_def Let_def)
    moreover have "mappages_post pt a (Suc (Suc k)) pa perm s ps r' s' ps'"
    proof (cases "r' = 0")
      case True
      then show ?thesis
        using r'(2) grown_trans [OF store(5)] mapped_to_Suc [OF store(6) _ Suc.prems(3)]
        by (simp add: mappages_post_def)
    next
      case False
      then obtain n where "n < Suc k" "mapped_to pt (a + PGSIZE) n (pa + PGSIZE) perm (mem s2) (mem s')"
        using r'(2) by (auto simp: mappages_post_def)
      then have "Suc n < Suc (Suc k)" "mapped_to pt a (Suc n) pa perm (mem s) (mem s')"
        using mapped_to_Suc [OF store(6), of n "mem s'"] Suc.prems(3) by simp_all
      then show ?thesis
        using False r'(2) grown_trans [OF store(5)] by (auto simp: mappages_post_def)
    qed
    ultimately show ?thesis by blast
  qed
qed

text \<open>The page count of a byte range.\<close>

definition page_span :: "uint64 \<Rightarrow> uint64 \<Rightarrow> nat" where
  "page_span va sz = Suc ((unat va mod 4096 + unat sz - 1) div 4096)"

lemma page_span_last:
  assumes "0 < unat sz" "unat va + unat sz \<le> 0x4000000000"
  shows "PGROUNDDOWN (va + sz - 1) = PGROUNDDOWN va + of_nat (page_span va sz - 1) * PGSIZE"
    and "unat (PGROUNDDOWN va) + 4096 * page_span va sz \<le> 0x4000000000"
proof -
  define r where "r = unat va mod 4096 + unat sz - 1"
  have va: "unat va = 4096 * (unat va div 4096) + unat va mod 4096" by simp
  have "sz \<noteq> 0" using assms(1) by auto
  then have "unat (va + (sz - 1)) = unat va + unat sz - 1"
    using assms by (simp add: unat_word_ariths unat_minus_one)
  then have l: "unat (va + sz - 1) = 4096 * (unat va div 4096) + r"
    using va assms(1) by (simp add: r_def add_diff_eq)
  have d: "unat (PGROUNDDOWN (va + sz - 1)) = 4096 * (unat va div 4096 + r div 4096)"
    by (simp add: unat_PGROUNDDOWN l)
  have rb: "4096 * (unat va div 4096 + r div 4096) < 0x4000000000"
  proof -
    have "4096 * (unat va div 4096) + r < 0x4000000000" using l assms va by (simp add: r_def)
    moreover have "4096 * (r div 4096) \<le> r" by (rule times_div_less_eq_dividend)
    ultimately show ?thesis unfolding distrib_left by linarith
  qed
  have "unat (PGROUNDDOWN va + of_nat (r div 4096) * PGSIZE) = 4096 * (unat va div 4096 + r div 4096)"
  proof -
    have "PGROUNDDOWN va = of_nat (4096 * (unat va div 4096))" by (simp flip: unat_PGROUNDDOWN)
    then have "PGROUNDDOWN va + of_nat (r div 4096) * PGSIZE = of_nat (4096 * (unat va div 4096 + r div 4096))"
      by simp
    then show ?thesis using rb by (simp only: unat_of_nat) simp
  qed
  then show "PGROUNDDOWN (va + sz - 1) = PGROUNDDOWN va + of_nat (page_span va sz - 1) * PGSIZE"
    using d by (simp add: word_unat_eq_iff page_span_def r_def)
  show "unat (PGROUNDDOWN va) + 4096 * page_span va sz \<le> 0x4000000000"
  proof -
    have "unat va div 4096 + r div 4096 < 67108864" using rb by simp
    moreover have "4096 * a + 4096 * Suc b \<le> 0x4000000000" if "a + b < 67108864" for a b :: nat
      using that by simp
    ultimately have "4096 * (unat va div 4096) + 4096 * Suc (r div 4096) \<le> 0x4000000000" by blast
    then show ?thesis by (simp add: unat_PGROUNDDOWN page_span_def r_def)
  qed
qed

end
