(* ===== verification/Uvm.thy ===== *)
theory Uvm
  imports Vm
begin

text \<open>
  User address spaces: lemmas on the \<open>uvm*\<close> functions of kernel/vm.c. A space of \<open>n\<close> pages is
  a table whose first \<open>n\<close> virtual pages map distinct physical pages, which are neither
  free nor nodes of the table.
\<close>

unbundle bit_operations_syntax

section \<open>Unmapping\<close>

definition vpage :: "uint64 \<Rightarrow> nat \<Rightarrow> uint64" where
  "vpage a i = a + of_nat i * PGSIZE"

definition upages :: "memory \<Rightarrow> uint64 \<Rightarrow> uint64 \<Rightarrow> nat \<Rightarrow> uint64 list" where
  "upages m pt a n = map (\<lambda>i. PTE2PA (pte_of m pt (vpage a i))) [0..<n]"

definition leaves :: "memory \<Rightarrow> uint64 \<Rightarrow> uint64 \<Rightarrow> nat \<Rightarrow> bool" where
  "leaves m pt a n \<longleftrightarrow>
     (\<forall>i<n. pte_valid (pte_of m pt (vpage a i)) \<and> PTE_FLAGS (pte_of m pt (vpage a i)) \<noteq> PTE_V)"

lemma vpage_0 [simp]: "vpage a 0 = a"
  by (simp add: vpage_def)

lemma vpage_Suc: "vpage a (Suc i) = vpage (a + PGSIZE) i"
  by (simp add: vpage_def algebra_simps)

lemma unat_pages: "4096 * i \<le> 0x4000000000 \<Longrightarrow> unat (of_nat i * PGSIZE :: uint64) = 4096 * i"
proof -
  assume b: "4096 * i \<le> 0x4000000000"
  have "(of_nat i * PGSIZE :: uint64) = of_nat (4096 * i)" by simp
  then show ?thesis using b by (simp only: unat_of_nat) simp
qed

lemma unat_vpage:
  assumes "unat a + 4096 * i \<le> 0x4000000000"
  shows "unat (vpage a i) = unat a + 4096 * i"
  using assms unat_pages [of i] unfolding vpage_def by (subst unat_add_lem [THEN iffD1]) simp_all

lemma vpage_facts:
  assumes "page_aligned a" "unat a + 4096 * n \<le> 0x4000000000" "i < n"
  shows "unat (vpage a i) = unat a + 4096 * i" "page_aligned (vpage a i)" "vpage a i < MAXVA"
    "unat (vpage a i - a) = 4096 * i"
proof -
  have b: "unat a + 4096 * i < 0x4000000000" using assms(2,3) by simp
  show u: "unat (vpage a i) = unat a + 4096 * i" using b by (simp add: unat_vpage)
  show "page_aligned (vpage a i)" using assms(1) u by (simp add: page_aligned_unat)
  show "vpage a i < MAXVA" using u b by (simp add: word_less_nat_alt)
  show "unat (vpage a i - a) = 4096 * i" using b unat_pages [of i] by (simp add: vpage_def)
qed

lemma upages_Suc:
  "upages m pt a (Suc n) = PTE2PA (pte_of m pt a) # upages m pt (a + PGSIZE) n"
  unfolding upages_def by (simp add: map_upt_Suc vpage_Suc del: upt_Suc)

lemma leaves_Suc:
  "leaves m pt a (Suc n) \<longleftrightarrow>
     pte_valid (pte_of m pt a) \<and> PTE_FLAGS (pte_of m pt a) \<noteq> PTE_V \<and> leaves m pt (a + PGSIZE) n"
  unfolding leaves_def by (auto simp: vpage_Suc All_less_Suc2)

lemma set_entries_other:
  assumes "set_entries pt a k f m m'" "vb < MAXVA" "\<not> unat (vb - a) < 4096 * k"
  shows "pte_of m' pt vb = pte_of m pt vb"
  using assms by (simp add: set_entries_def)

lemma set_entries_tail:
  assumes "set_entries pt a 1 f m m'" "page_aligned a" "unat a + 4096 * Suc n \<le> 0x4000000000"
  shows "upages m' pt (a + PGSIZE) n = upages m pt (a + PGSIZE) n"
    "leaves m' pt (a + PGSIZE) n = leaves m pt (a + PGSIZE) n"
proof -
  have "pte_of m' pt (vpage (a + PGSIZE) i) = pte_of m pt (vpage (a + PGSIZE) i)" if "i < n" for i
  proof -
    have "Suc i < Suc n" using that by simp
    then have "vpage a (Suc i) < MAXVA" "unat (vpage a (Suc i) - a) = 4096 * Suc i"
      using vpage_facts [OF assms(2,3)] by blast+
    then show ?thesis using set_entries_other [OF assms(1), of "vpage a (Suc i)"] by (simp add: vpage_Suc)
  qed
  then show "upages m' pt (a + PGSIZE) n = upages m pt (a + PGSIZE) n"
    "leaves m' pt (a + PGSIZE) n = leaves m pt (a + PGSIZE) n"
    by (simp_all add: upages_def leaves_def)
qed

text \<open>Freeing a page that is not part of a table.\<close>

lemma kfree_table:
  assumes inv: "pt_inv s pt ps" and p: "kpage s p" "p \<notin> set ps" "p \<notin> nodes (mem s) pt"
  obtains s' where "kfree p s = Ret () s'" "pt_inv s' pt (p # ps)" "vm_frame s s' {p}"
    "nodes (mem s') pt = nodes (mem s) pt" "\<And>va. pte_of (mem s') pt va = pte_of (mem s) pt va"
    "\<And>is. ipath is \<Longrightarrow> node_at (mem s') pt is = node_at (mem s) pt is"
proof -
  obtain s' where s': "kfree p s = Ret () s'" "kmem_inv s' (p # ps)" "only_page p (mem s) (mem s')"
    "kothers s' = kothers s"
    using kpages.free_push [OF _ p(1,2)] inv by (auto simp: pt_inv_def)
  have wf: "pt_wf (mem s) pt" and dj: "nodes (mem s) pt \<inter> set ps = {}"
    using inv by (auto simp: pt_inv_def)
  have eq: "mem s' x = mem s x" if "PGROUNDDOWN x \<in> nodes (mem s) pt" for x
    using s'(3) that p(3) by (auto simp: only_page_def)
  note fr = pt_frame [OF wf eq] node_at_frame [OF wf eq]
  show ?thesis
  proof (rule that [OF s'(1)])
    show "pt_inv s' pt (p # ps)" using s'(2) fr(1,2) dj p(3) by (auto simp: pt_inv_def)
    show "vm_frame s s' {p}" using s'(3,4) by (simp add: vm_frame_def only_page_def)
  qed (use fr in auto)
qed

lemma uvmunmap_step:
  assumes inv: "pt_inv s pt ps" and a: "page_aligned a" "a < MAXVA" "a < stop"
    and e: "pte_valid (pte_of (mem s) pt a)" "PTE_FLAGS (pte_of (mem s) pt a) \<noteq> PTE_V"
    and p: "do_free \<Longrightarrow> kpage s p \<and> p \<notin> set ps \<and> p \<notin> nodes (mem s) pt"
    and pdef: "p = PTE2PA (pte_of (mem s) pt a)"
  obtains s' where "uvmunmap_loop pt a stop do_free s = uvmunmap_loop pt (a + PGSIZE) stop do_free s'"
    "pt_inv s' pt (if do_free then p # ps else ps)" "nodes (mem s') pt = nodes (mem s) pt"
    "set_entries pt a 1 (\<lambda>_. 0) (mem s) (mem s')"
    "vm_frame s s' (nodes (mem s) pt \<union> (if do_free then {p} else {}))"
proof -
  have wf: "pt_wf (mem s) pt" using inv by (simp add: pt_inv_def)
  obtain q where q: "node_at (mem s) pt (vpath a) = Some q"
    using e(1) pte_of_None [of "mem s" pt a] by (cases "node_at (mem s) pt (vpath a)") auto
  let ?r = "slot q (unat (PX 0 a))"
  have ld: "load64 (mem s) ?r = pte_of (mem s) pt a" by (simp add: pte_of_Some [OF q])
  have rn: "?r \<noteq> 0" using slot_at_nonnull [OF wf q] .
  obtain s1 ps1 where s1: "(if do_free then kfree p s else Ret () s) = Ret () s1"
    "ps1 = (if do_free then p # ps else ps)" "pt_inv s1 pt ps1" "nodes (mem s1) pt = nodes (mem s) pt"
    "vm_frame s s1 (if do_free then {p} else {})" "\<And>va. pte_of (mem s1) pt va = pte_of (mem s) pt va"
    "node_at (mem s1) pt (vpath a) = Some q"
  proof (cases do_free)
    case True
    then have kp: "kpage s p" "p \<notin> set ps" "p \<notin> nodes (mem s) pt" using p by auto
    obtain s' where "kfree p s = Ret () s'" "pt_inv s' pt (p # ps)" "vm_frame s s' {p}"
      "nodes (mem s') pt = nodes (mem s) pt" "\<And>va. pte_of (mem s') pt va = pte_of (mem s) pt va"
      "node_at (mem s') pt (vpath a) = node_at (mem s) pt (vpath a)"
      using kfree_table [OF inv kp] ipath_vpath(1) by metis
    then show ?thesis using that [of s' "p # ps"] True q by simp
  qed (use that [of s ps] inv q in simp)
  define s2 where "s2 = s1\<lparr>mem := store64 (mem s1) ?r 0\<rparr>"
  note st = store_leaf [OF s1(3,7) a(2), where e = 0, folded s2_def]
  have nd2: "nodes (mem s2) pt = nodes (mem s1) pt"
    using st(1) by (auto simp: grown_def)
  have body: "uvmunmap_loop pt a stop do_free s =
      bnd (if do_free then kfree p s else Ret () s) (\<lambda>_ s. uvmunmap_loop pt (a + PGSIZE) stop do_free
        (s\<lparr>mem := store64 (mem s) ?r 0\<rparr>))"
    using a(3) rn e by (subst uvmunmap_loop.simps)
      (simp add: walk_lookup [OF a(2)] q ld pte_valid_def pdef)
  show ?thesis
  proof (rule that)
    show "uvmunmap_loop pt a stop do_free s = uvmunmap_loop pt (a + PGSIZE) stop do_free s2"
      unfolding body s1(1) by (simp add: s2_def)
    show "pt_inv s2 pt (if do_free then p # ps else ps)"
      using st(1) s1(2) by (auto simp: grown_def)
    show "nodes (mem s2) pt = nodes (mem s) pt" using nd2 s1(4) by simp
    show "set_entries pt a 1 (\<lambda>_. 0) (mem s) (mem s2)"
      using st(2) s1(6) a(1) by (simp add: set_entries_def in_page_iff)
    have "vm_frame s1 s2 (nodes (mem s1) pt)" using st(1) by (auto simp: grown_def)
    then show "vm_frame s s2 (nodes (mem s) pt \<union> (if do_free then {p} else {}))"
      using s1(4,5) by (auto intro: vm_frame_trans)
  qed
qed

definition unmapped_post where
  "unmapped_post pt a n do_free s ps s' \<longleftrightarrow>
     pt_inv s' pt (if do_free then rev (upages (mem s) pt a n) @ ps else ps)
     \<and> nodes (mem s') pt = nodes (mem s) pt
     \<and> set_entries pt a n (\<lambda>_. 0) (mem s) (mem s')
     \<and> vm_frame s s' (nodes (mem s) pt \<union> (if do_free then set (upages (mem s) pt a n) else {}))"

definition freeable where
  "freeable s pt ps L \<longleftrightarrow> distinct L \<and> list_all (kpage s) L \<and> set L \<inter> (set ps \<union> nodes (mem s) pt) = {}"

lemma uvmunmap_loop_unmaps:
  assumes "pt_inv s pt ps" "page_aligned a" "unat a + 4096 * n \<le> 0x4000000000"
    "leaves (mem s) pt a n" "do_free \<Longrightarrow> freeable s pt ps (upages (mem s) pt a n)"
  shows "\<exists>s'. uvmunmap_loop pt a (a + of_nat n * PGSIZE) do_free s = Ret () s'
     \<and> unmapped_post pt a n do_free s ps s'"
  using assms
proof (induction n arbitrary: a s ps)
  case 0
  then show ?case
    by (subst uvmunmap_loop.simps) (simp add: unmapped_post_def upages_def set_entries_0)
next
  case (Suc n)
  let ?p = "PTE2PA (pte_of (mem s) pt a)"
  have lt: "a < MAXVA" using Suc.prems(3) by (simp add: word_less_nat_alt)
  have "unat (vpage a (Suc n)) = unat a + 4096 * Suc n" using unat_vpage [OF Suc.prems(3)] .
  then have lts: "a < a + of_nat (Suc n) * PGSIZE" unfolding vpage_def word_less_nat_alt by (simp only:) simp
  have nxt: "a + of_nat (Suc n) * PGSIZE = a + PGSIZE + of_nat n * PGSIZE" by (simp add: algebra_simps)
  have up: "unat (a + PGSIZE) = unat a + 4096" using Suc.prems(3) by (simp add: unat_word_ariths)
  have al: "page_aligned (a + PGSIZE)" using Suc.prems(2) up by (simp add: page_aligned_unat)
  have bd: "unat (a + PGSIZE) + 4096 * n \<le> 0x4000000000" using Suc.prems(3) up by simp
  have e: "pte_valid (pte_of (mem s) pt a)" "PTE_FLAGS (pte_of (mem s) pt a) \<noteq> PTE_V"
    "leaves (mem s) pt (a + PGSIZE) n"
    using Suc.prems(4) by (simp_all add: leaves_Suc)
  have "do_free \<Longrightarrow> kpage s ?p \<and> ?p \<notin> set ps \<and> ?p \<notin> nodes (mem s) pt"
    using Suc.prems(5) by (auto simp: freeable_def upages_Suc)
  from uvmunmap_step [OF Suc.prems(1,2) lt lts e(1,2) this refl, unfolded nxt] obtain s1 where
    s1: "uvmunmap_loop pt a (a + PGSIZE + of_nat n * PGSIZE) do_free s
        = uvmunmap_loop pt (a + PGSIZE) (a + PGSIZE + of_nat n * PGSIZE) do_free s1"
    "pt_inv s1 pt (if do_free then ?p # ps else ps)" "nodes (mem s1) pt = nodes (mem s) pt"
    "set_entries pt a 1 (\<lambda>_. 0) (mem s) (mem s1)"
    "vm_frame s s1 (nodes (mem s) pt \<union> (if do_free then {?p} else {}))" by metis
  note tail = set_entries_tail [OF s1(4) Suc.prems(2,3)]
  have fr: "do_free \<Longrightarrow> freeable s1 pt (if do_free then ?p # ps else ps) (upages (mem s1) pt (a + PGSIZE) n)"
    using Suc.prems(5) s1(3) vm_frame_kpage [OF s1(5)] by (auto simp: freeable_def upages_Suc tail)
  have lv: "leaves (mem s1) pt (a + PGSIZE) n" using e(3) by (simp only: tail)
  from Suc.IH [OF s1(2) al bd lv fr] obtain s' where
    s': "uvmunmap_loop pt (a + PGSIZE) (a + PGSIZE + of_nat n * PGSIZE) do_free s1 = Ret () s'"
    "unmapped_post pt (a + PGSIZE) n do_free s1 (if do_free then ?p # ps else ps) s'" by blast
  have "vm_frame s s' (nodes (mem s) pt \<union> (if do_free then set (upages (mem s) pt a (Suc n)) else {}))"
    using s1(5,3) s'(2) by (auto simp: unmapped_post_def upages_Suc tail intro: vm_frame_trans)
  moreover have "set_entries pt a (Suc n) (\<lambda>_. 0) (mem s) (mem s')"
    using set_entries_Suc [OF s1(4) _ Suc.prems(3)] s'(2) by (simp add: unmapped_post_def)
  ultimately have "unmapped_post pt a (Suc n) do_free s ps s'"
    using s'(2) s1(3) by (cases do_free) (simp_all add: unmapped_post_def upages_Suc tail)
  then show ?case unfolding nxt using s'(1) s1(1) by auto
qed

section \<open>Address spaces\<close>

text \<open>The number of pages below \<open>TRAPFRAME\<close>.\<close>

abbreviation (input) UMAX :: nat where "UMAX \<equiv> 67108862"

definition uspace :: "'a kmem_scheme \<Rightarrow> uint64 \<Rightarrow> uint64 list \<Rightarrow> nat \<Rightarrow> bool" where
  "uspace s pt ps n \<longleftrightarrow> n \<le> UMAX \<and> pt_inv s pt ps \<and> leaves (mem s) pt 0 n
     \<and> freeable s pt ps (upages (mem s) pt 0 n)
     \<and> (\<forall>i<UMAX. n \<le> i \<longrightarrow> \<not> pte_valid (pte_of (mem s) pt (vpage 0 i)))"

text \<open>All pages that the space or the allocator holds.\<close>

definition held :: "'a kmem_scheme \<Rightarrow> uint64 \<Rightarrow> uint64 list \<Rightarrow> nat \<Rightarrow> uint64 set" where
  "held s pt ps n = set ps \<union> nodes (mem s) pt \<union> set (upages (mem s) pt 0 n)"

text \<open>
  A change of the space from \<open>n\<close> to \<open>n'\<close> pages: no page is lost, the pages that stay keep
  their entries, and memory changes in the table and in the pages of \<open>P\<close> only.
\<close>

definition resized where
  "resized pt s ps n s' ps' n' P \<longleftrightarrow> uspace s' pt ps' n' \<and> held s' pt ps' n' = held s pt ps n
     \<and> vm_frame s s' (nodes (mem s) pt \<union> P)
     \<and> (\<forall>i < min n n'. pte_of (mem s') pt (vpage 0 i) = pte_of (mem s) pt (vpage 0 i))"

lemma vpage_UMAX:
  assumes "i \<le> UMAX"
  shows "unat (vpage 0 i) = 4096 * i" "page_aligned (vpage 0 i)" "vpage 0 i < MAXVA"
proof -
  have "i < 67108863" using assms by simp
  moreover have "page_aligned 0" by (simp add: page_aligned_unat)
  ultimately show "unat (vpage 0 i) = 4096 * i" "page_aligned (vpage 0 i)" "vpage 0 i < MAXVA"
    using vpage_facts [of 0 67108863 i] by simp_all
qed

lemma vpage_diff:
  assumes "i \<le> UMAX" "j \<le> UMAX"
  shows "unat (vpage 0 i - vpage 0 j) < 4096 \<longleftrightarrow> i = j"
proof -
  have "unat (vpage 0 i - vpage 0 j) < 4096 \<longleftrightarrow> vpage 0 i = vpage 0 j"
    using vpage_UMAX(2) [OF assms(1)] vpage_UMAX(2) [OF assms(2)] by (simp add: in_page_iff)
  also have "\<dots> \<longleftrightarrow> i = j"
    using vpage_UMAX(1) [OF assms(1)] vpage_UMAX(1) [OF assms(2)] by (auto simp: word_unat_eq_iff)
  finally show ?thesis .
qed

lemma upages_snoc: "upages m pt a (Suc n) = upages m pt a n @ [PTE2PA (pte_of m pt (vpage a n))]"
  by (simp add: upages_def)

lemma leaves_snoc:
  "leaves m pt a (Suc n) \<longleftrightarrow> leaves m pt a n \<and> pte_valid (pte_of m pt (vpage a n))
     \<and> PTE_FLAGS (pte_of m pt (vpage a n)) \<noteq> PTE_V"
  by (auto simp: leaves_def less_Suc_eq)

lemma upages_cong:
  "(\<And>i. i < n \<Longrightarrow> pte_of m' pt (vpage a i) = pte_of m pt (vpage a i)) \<Longrightarrow> upages m' pt a n = upages m pt a n"
  by (simp add: upages_def)

lemma leaves_cong:
  "(\<And>i. i < n \<Longrightarrow> pte_of m' pt (vpage a i) = pte_of m pt (vpage a i)) \<Longrightarrow> leaves m' pt a n = leaves m pt a n"
  by (simp add: leaves_def)

lemma mappages_page:
  assumes "pt_inv s pt ps" "page_aligned a" "a < MAXVA" "\<not> pte_valid (pte_of (mem s) pt a)"
  shows "\<exists>r s' ps'. mappages pt a PGSIZE pa perm s = Ret r s'
     \<and> mappages_post pt a 1 pa perm s ps r s' ps'"
proof -
  have "unat a < 274877906944" using assms(3) by (simp add: word_less_nat_alt)
  moreover obtain c where "unat a = 4096 * c"
    using assms(2) by (auto elim!: dvdE simp: page_aligned_unat mod_eq_0_iff_dvd)
  ultimately have bd: "unat a + 4096 * Suc 0 \<le> 0x4000000000" by simp
  have pg: "PGROUNDDOWN (a + PGSIZE - 1) = a"
    using PGROUNDDOWN_offset [OF assms(2), of 4095] by (simp add: algebra_simps)
  have nv: "\<not> pte_valid (pte_of (mem s) pt vb)" if "unat (vb - a) < 4096 * Suc 0" "vb < MAXVA" for vb
  proof -
    have "PGROUNDDOWN vb = PGROUNDDOWN a" using that(1) assms(2) by (simp add: in_page_iff)
    then have "vpath vb = vpath a" "PX 0 vb = PX 0 a" using vpath_inject [OF that(2) assms(3)] by simp_all
    then show ?thesis using assms(4) by (simp add: pte_of_def)
  qed
  show ?thesis
    using mappages_loop_maps [OF assms(1,2) bd nv, of pa perm] assms(2) pg
    by (simp add: mappages_def)
qed

lemma or_1_less_1024:
  assumes "(f :: uint64) < 1024"
  shows "f OR 1 < 1024"
proof -
  have "take_bit 10 f = f" using assms by (simp add: take_bit_eq_mod mod_word_less)
  then have "take_bit 10 (f OR 1) = f OR 1" by (simp add: take_bit_or)
  then have "f OR 1 = (f OR 1) mod 1024" by (simp add: take_bit_eq_mod)
  then show ?thesis using word_mod_less_divisor [of 1024 "f OR 1"] by simp
qed

lemma uspace_transfer:
  assumes "uspace s pt ps n" "pt_inv s' pt ps'" "kpage s' = kpage s"
    "\<And>i. i < UMAX \<Longrightarrow> pte_of (mem s') pt (vpage 0 i) = pte_of (mem s) pt (vpage 0 i)"
    "set ps' \<union> nodes (mem s') pt \<subseteq> set ps \<union> nodes (mem s) pt"
  shows "uspace s' pt ps' n" "upages (mem s') pt 0 n = upages (mem s) pt 0 n"
proof -
  have n: "n \<le> UMAX" using assms(1) by (simp add: uspace_def)
  show u: "upages (mem s') pt 0 n = upages (mem s) pt 0 n"
    using assms(4) n by (intro upages_cong) simp
  have "leaves (mem s') pt 0 n = leaves (mem s) pt 0 n"
    using assms(4) n by (intro leaves_cong) simp
  moreover have "freeable s' pt ps' (upages (mem s) pt 0 n)"
    using assms(1,3,5) unfolding uspace_def freeable_def by auto
  ultimately show "uspace s' pt ps' n"
    using assms(1,2,4) u by (simp add: uspace_def)
qed

text \<open>Taking a page off the free list and clearing it.\<close>

lemma kalloc_zeroed:
  assumes inv: "pt_inv s pt (p # ps)"
  obtains s1 s2 where "kalloc s = Ret p s1" "p \<noteq> 0" "kpage s p" "p \<notin> set ps" "p \<notin> nodes (mem s) pt"
    "s2 = s1\<lparr>mem := memset (mem s1) p 0 4096\<rparr>" "pt_inv s2 pt ps" "nodes (mem s2) pt = nodes (mem s) pt"
    "\<And>va. pte_of (mem s2) pt va = pte_of (mem s) pt va" "vm_frame s s2 {p}"
    "\<And>x. PGROUNDDOWN x = p \<Longrightarrow> mem s2 x = 0"
proof -
  have kinv: "kmem_inv s (p # ps)" and wf: "pt_wf (mem s) pt" and dj: "nodes (mem s) pt \<inter> set (p # ps) = {}"
    using inv by (auto simp: pt_inv_def)
  obtain s1 where s1: "kalloc s = Ret p s1" "kmem_inv s1 ps" "p \<noteq> 0" "page_aligned p" "p \<notin> set ps"
    "only_page p (mem s) (mem s1)" "kothers s1 = kothers s" "kpage s p"
    using kinv by (cases rule: kpages.alloc_cases) auto
  define s2 where "s2 = s1\<lparr>mem := memset (mem s1) p 0 4096\<rparr>"
  have m2: "mem s2 x = (if PGROUNDDOWN x = p then 0 else mem s x)" for x
    using s1(4,6) by (simp add: s2_def memset_apply in_page_iff only_page_def)
  have "mem s2 x = mem s1 x" if "PGROUNDDOWN x \<in> set ps" for x
    using that s1(5,6) m2 [of x] by (auto simp: only_page_def)
  then have k2: "kmem_inv s2 ps" using kmem_inv_frame [OF s1(2)] unfolding s2_def by simp
  have eq: "mem s2 x = mem s x" if "PGROUNDDOWN x \<in> nodes (mem s) pt" for x
    using that dj m2 [of x] by auto
  note fr = pt_frame [OF wf eq]
  show ?thesis
  proof (rule that [OF s1(1,3,8,5) _ s2_def])
    show "pt_inv s2 pt ps" using k2 fr(1,2) dj by (auto simp: pt_inv_def)
    show "vm_frame s s2 {p}" using m2 s1(7) by (simp add: vm_frame_def s2_def)
    show "mem s2 x = 0" if "PGROUNDDOWN x = p" for x using m2 [of x] that by simp
  qed (use dj fr in auto)
qed

lemma uvm_grow:
  assumes us: "uspace s pt ps j" and j: "j < UMAX"
    and perm: "perm < 1024" "perm OR PTE_V \<noteq> PTE_V"
  obtains (nomem) "ps = []" "kalloc s = Ret 0 s"
  | (full) p s1 s2 s3 s4 where "kalloc s = Ret p s1" "p \<noteq> 0" "s2 = s1\<lparr>mem := memset (mem s1) p 0 4096\<rparr>"
      "mappages pt (vpage 0 j) PGSIZE p perm s2 = Ret (-1) s3" "kfree p s3 = Ret () s4"
      "resized pt s ps j s4 [p] j (set ps)"
  | (ok) p s1 s2 s3 ps3 where "kalloc s = Ret p s1" "p \<noteq> 0" "s2 = s1\<lparr>mem := memset (mem s1) p 0 4096\<rparr>"
      "mappages pt (vpage 0 j) PGSIZE p perm s2 = Ret 0 s3"
      "resized pt s ps j s3 ps3 (Suc j) (set ps)" "p \<in> set ps" "set ps3 \<subseteq> set ps"
      "pte_of (mem s3) pt (vpage 0 j) = PA2PTE p OR perm OR PTE_V" "\<And>x. PGROUNDDOWN x = p \<Longrightarrow> mem s3 x = 0"
proof -
  have inv: "pt_inv s pt ps" using us by (simp add: uspace_def)
  show ?thesis
  proof (cases ps)
    case Nil
    then show ?thesis using inv nomem kpages.alloc_empty [of s] by (simp add: pt_inv_def)
  next
    case (Cons p ps1)
    obtain s1 s2 where s2: "kalloc s = Ret p s1" "p \<noteq> 0" "kpage s p" "p \<notin> set ps1" "p \<notin> nodes (mem s) pt"
      "s2 = s1\<lparr>mem := memset (mem s1) p 0 4096\<rparr>" "pt_inv s2 pt ps1" "nodes (mem s2) pt = nodes (mem s) pt"
      "\<And>va. pte_of (mem s2) pt va = pte_of (mem s) pt va" "vm_frame s s2 {p}"
      "\<And>x. PGROUNDDOWN x = p \<Longrightarrow> mem s2 x = 0"
      using kalloc_zeroed [OF inv [unfolded Cons]] by metis
    let ?a = "vpage 0 j"
    have a: "page_aligned ?a" "?a < MAXVA" using vpage_UMAX [of j] j by simp_all
    have nv: "\<not> pte_valid (pte_of (mem s2) pt ?a)" using us j by (simp add: uspace_def s2(9))
    obtain r s3 ps3 where m: "mappages pt ?a PGSIZE p perm s2 = Ret r s3"
      "mappages_post pt ?a 1 p perm s2 ps1 r s3 ps3"
      using mappages_page [OF s2(7) a nv] by blast
    obtain taken where tk: "ps1 = taken @ ps3" "pt_inv s3 pt ps3"
      "nodes (mem s3) pt = nodes (mem s) pt \<union> set taken" "vm_frame s2 s3 (nodes (mem s) pt \<union> set taken)"
      using m(2) s2(8) by (auto simp: mappages_post_def grown_def)
    have fr3: "vm_frame s s3 (nodes (mem s) pt \<union> set ps)"
      using s2(10) tk(1,4) Cons by (auto intro: vm_frame_trans)
    note kp3 = vm_frame_kpage [OF fr3]
    have pn3: "p \<notin> nodes (mem s3) pt" "p \<notin> set ps3" using s2(4,5) tk(1,3) by auto
    have dis: "p \<notin> set (upages (mem s) pt 0 j)" using us Cons by (auto simp: uspace_def freeable_def)
    show ?thesis
    proof (cases "r = 0")
      case False
      then have r: "r = -1" "ps3 = []" and same3: "\<And>vb. vb < MAXVA \<Longrightarrow> pte_of (mem s3) pt vb = pte_of (mem s) pt vb"
        using m(2) s2(9) by (auto simp: mappages_post_def mapped_to_0_eq)
      obtain s4 where s4: "kfree p s3 = Ret () s4" "pt_inv s4 pt (p # ps3)" "vm_frame s3 s4 {p}"
        "nodes (mem s4) pt = nodes (mem s3) pt" "\<And>va. pte_of (mem s4) pt va = pte_of (mem s3) pt va"
        using kfree_table [OF tk(2) _ pn3(2,1)] s2(3) kp3 by metis
      have fr4: "vm_frame s s4 (nodes (mem s) pt \<union> set ps)"
        using fr3 s4(3) Cons by (auto intro: vm_frame_trans)
      have same: "pte_of (mem s4) pt (vpage 0 i) = pte_of (mem s) pt (vpage 0 i)" if "i < UMAX" for i
        using that vpage_UMAX(3) [of i] by (simp add: s4(5) same3)
      have sub: "set [p] \<union> nodes (mem s4) pt = set ps \<union> nodes (mem s) pt"
        using s4(4) tk(1,3) Cons r(2) by auto
      have us4: "uspace s4 pt [p] j" "upages (mem s4) pt 0 j = upages (mem s) pt 0 j"
        using uspace_transfer [OF us s4(2) [unfolded r(2)] vm_frame_kpage [OF fr4] same equalityD1 [OF sub]]
        by blast+
      have "held s4 pt [p] j = held s pt ps j"
        using sub us4(2) by (auto simp: held_def)
      then have "resized pt s ps j s4 [p] j (set ps)"
        using us4 fr4 same us by (simp add: resized_def uspace_def)
      then show ?thesis using full [OF s2(1,2,6) _ s4(1)] m(1) r(1) by simp
    next
      case True
      have se: "pte_of (mem s3) pt vb = (if unat (vb - ?a) < 4096 then PA2PTE (p - ?a + PGROUNDDOWN vb) OR perm OR PTE_V
          else pte_of (mem s) pt vb)" if "vb < MAXVA" for vb
        using m(2) True s2(9) that by (simp add: mappages_post_def mapped_to_def set_entries_def)
      have new: "pte_of (mem s3) pt ?a = PA2PTE p OR perm OR PTE_V"
        using se [OF a(2)] a(1) by simp
      have old: "pte_of (mem s3) pt (vpage 0 i) = pte_of (mem s) pt (vpage 0 i)" if "i < UMAX" "i \<noteq> j" for i
        using se [of "vpage 0 i"] vpage_UMAX(3) [of i] vpage_diff [of i j] that j by simp
      have f1024: "perm OR PTE_V < 1024" using perm(1) by (rule or_1_less_1024)
      have pb: "page_aligned p" "p < 2 ^ 56" using kpage_bounds [OF s2(3)] by simp_all
      have pa: "PTE2PA (PA2PTE p OR perm OR PTE_V) = p" "PTE_FLAGS (PA2PTE p OR perm OR PTE_V) = perm OR PTE_V"
        using PTE2PA_PA2PTE [OF pb f1024] PTE_FLAGS_PA2PTE [OF f1024] by (simp_all add: or.assoc)
      have up: "upages (mem s3) pt 0 (Suc j) = upages (mem s) pt 0 j @ [p]"
        using old j pa(1) new by (simp add: upages_snoc) (intro upages_cong, simp)
      have "leaves (mem s3) pt 0 j = leaves (mem s) pt 0 j"
        using old j by (intro leaves_cong) simp
      then have lv: "leaves (mem s3) pt 0 (Suc j)"
        using us new pa(2) perm(2) by (simp add: leaves_snoc uspace_def pte_valid_or) (simp add: pte_valid_def)
      have fb: "freeable s3 pt ps3 (upages (mem s) pt 0 j @ [p])"
        using us dis pn3 tk(1,3) Cons kp3 s2(3) unfolding uspace_def freeable_def by auto
      have us3: "uspace s3 pt ps3 (Suc j)"
        using tk(2) lv fb up old us j by (simp add: uspace_def)
      have "held s3 pt ps3 (Suc j) = held s pt ps j"
        using up tk(1,3) Cons by (auto simp: held_def)
      then have "resized pt s ps j s3 ps3 (Suc j) (set ps)"
        using us3 fr3 old j by (simp add: resized_def)
      moreover have "mem s3 x = 0" if "PGROUNDDOWN x = p" for x
        using s2(4,5,11) tk(1,4) that by (auto simp: vm_frame_def)
      ultimately show ?thesis
        using ok [OF s2(1,2,6), of s3 ps3] m(1) True new Cons tk(1) by auto
    qed
  qed
qed

section \<open>Growing and shrinking a space\<close>

text \<open>The number of pages of \<open>sz\<close> bytes.\<close>

definition npg :: "uint64 \<Rightarrow> nat" where
  "npg sz = (unat sz + 4095) div 4096"

lemma PGROUNDUP_vpage:
  assumes "unat sz \<le> 4096 * UMAX"
  shows "PGROUNDUP sz = vpage 0 (npg sz)" "npg sz \<le> UMAX"
proof -
  show b: "npg sz \<le> UMAX" using assms div_le_mono [of "unat sz + 4095" "4096 * UMAX + 4095" 4096]
    by (simp add: npg_def)
  have "unat sz + 4095 < 2 ^ 64" using assms by simp
  then show "PGROUNDUP sz = vpage 0 (npg sz)"
    using vpage_UMAX(1) [OF b] by (simp add: word_unat_eq_iff unat_PGROUNDUP npg_def)
qed

lemma vpage_vpage: "vpage (vpage a i) j = vpage a (i + j)"
  by (simp add: vpage_def algebra_simps)

lemma upages_split: "upages m pt a (n + k) = upages m pt a n @ upages m pt (vpage a n) k"
  by (rule nth_equalityI) (auto simp: upages_def nth_append vpage_vpage)

lemma leaves_split: "leaves m pt a (n + k) \<longleftrightarrow> leaves m pt a n \<and> leaves m pt (vpage a n) k"
proof
  assume l: "leaves m pt a (n + k)"
  then have "pte_valid (pte_of m pt (vpage a (n + i))) \<and> PTE_FLAGS (pte_of m pt (vpage a (n + i))) \<noteq> PTE_V"
    if "i < k" for i using that by (simp add: leaves_def)
  then show "leaves m pt a n \<and> leaves m pt (vpage a n) k"
    using l by (simp add: leaves_def vpage_vpage)
next
  assume l: "leaves m pt a n \<and> leaves m pt (vpage a n) k"
  show "leaves m pt a (n + k)"
    unfolding leaves_def
  proof (intro allI impI)
    fix i assume "i < n + k"
    then consider "i < n" | "i - n < k" "i = n + (i - n)" by linarith
    then show "pte_valid (pte_of m pt (vpage a i)) \<and> PTE_FLAGS (pte_of m pt (vpage a i)) \<noteq> PTE_V"
      using l by cases (auto simp: leaves_def vpage_vpage)
  qed
qed

lemma uvmunmap_space:
  assumes us: "uspace s pt ps (n + k)"
  shows "\<exists>s' ps'. uvmunmap pt (vpage 0 n) (of_nat k) True s = Ret () s'
    \<and> resized pt s ps (n + k) s' ps' n (set (upages (mem s) pt (vpage 0 n) k))"
proof -
  let ?a = "vpage 0 n" and ?L = "upages (mem s) pt (vpage 0 n) k"
  have nk: "n + k \<le> UMAX" using us by (simp add: uspace_def)
  then have a: "unat ?a = 4096 * n" "page_aligned ?a" using vpage_UMAX [of n] by simp_all
  have bd: "unat ?a + 4096 * k \<le> 0x4000000000" using a nk by simp
  have inv: "pt_inv s pt ps" and lv: "leaves (mem s) pt 0 n" "leaves (mem s) pt ?a k"
    and fb: "freeable s pt ps (upages (mem s) pt 0 n @ ?L)"
    using us by (auto simp: uspace_def leaves_split upages_split)
  have fL: "freeable s pt ps ?L" using fb by (auto simp: freeable_def)
  obtain s' where s': "uvmunmap_loop pt ?a (?a + of_nat k * PGSIZE) True s = Ret () s'"
    "unmapped_post pt ?a k True s ps s'"
    using uvmunmap_loop_unmaps [OF inv a(2) bd lv(2)] fL by blast
  have post: "pt_inv s' pt (rev ?L @ ps)" "nodes (mem s') pt = nodes (mem s) pt"
    "set_entries pt ?a k (\<lambda>_. 0) (mem s) (mem s')" "vm_frame s s' (nodes (mem s) pt \<union> set ?L)"
    using s'(2) by (simp_all add: unmapped_post_def)
  have pte: "pte_of (mem s') pt (vpage 0 i) =
      (if n \<le> i \<and> i < n + k then 0 else pte_of (mem s) pt (vpage 0 i))" if "i < UMAX" for i
  proof -
    have "unat (vpage 0 i - ?a) < 4096 * k \<longleftrightarrow> n \<le> i \<and> i < n + k"
      using vpage_UMAX(1) [of i] that a(1) nk by (simp add: unat_sub_if') arith
    then show ?thesis using post(3) vpage_UMAX(3) [of i] that by (simp add: set_entries_def)
  qed
  have keep: "upages (mem s') pt 0 n = upages (mem s) pt 0 n" "leaves (mem s') pt 0 n = leaves (mem s) pt 0 n"
    using pte nk by (auto intro!: upages_cong leaves_cong)
  have "freeable s' pt (rev ?L @ ps) (upages (mem s) pt 0 n)"
    using fb post(2) vm_frame_kpage [OF post(4)] by (auto simp: freeable_def)
  then have us': "uspace s' pt (rev ?L @ ps) n"
    using nk post(1) keep lv(1) pte us by (auto simp: uspace_def)
  have "held s' pt (rev ?L @ ps) n = held s pt ps (n + k)"
    unfolding held_def upages_split keep(1) post(2) by auto
  then have "resized pt s ps (n + k) s' (rev ?L @ ps) n (set ?L)"
    using us' post(4) pte nk by (simp add: resized_def)
  then show ?thesis using s'(1) a(2) by (auto simp: uvmunmap_def page_aligned_def)
qed

lemma int_roundtrip:
  assumes "unat (x :: uint64) < 0x80000000"
  shows "scast (ucast x :: uint) = x"
proof -
  have nb: "\<not> bit x k" if "31 \<le> k" for k
  proof -
    have "take_bit 31 x = x"
      using assms by (simp add: take_bit_eq_mod mod_word_less word_less_nat_alt)
    then have "bit x k = bit (take_bit 31 x) k" by simp
    then show ?thesis using that by (simp add: bit_take_bit_iff)
  qed
  have "bit (scast (ucast x :: uint) :: uint64) k = bit x k" if "k < 64" for k
    using that nb [of 31] nb [of k] by (cases "k < 31") (auto simp: bit_simps min_def)
  then show ?thesis by (intro bit_word_eqI) simp
qed

lemma uvmdealloc_space:
  assumes us: "uspace s pt ps (npg oldsz)" and sz: "unat oldsz \<le> 4096 * UMAX"
  shows "\<exists>s' ps'. uvmdealloc pt oldsz newsz s = Ret (min oldsz newsz) s'
    \<and> resized pt s ps (npg oldsz) s' ps' (npg (min oldsz newsz))
        (set (upages (mem s) pt (vpage 0 (npg (min oldsz newsz))) (npg oldsz - npg (min oldsz newsz))))"
proof (cases "newsz < oldsz")
  case False
  then show ?thesis using us by (auto simp: uvmdealloc_def resized_def min_def)
next
  case True
  then have mn: "min oldsz newsz = newsz" by simp
  have le: "unat newsz \<le> unat oldsz" using True by (simp add: word_less_nat_alt)
  have n: "npg newsz \<le> npg oldsz" unfolding npg_def using le by (intro div_le_mono) simp
  then obtain k where k: "npg oldsz = npg newsz + k" using le_Suc_ex by blast
  note old = PGROUNDUP_vpage [OF sz] and new = PGROUNDUP_vpage [OF le_trans [OF le sz]]
  have uo: "unat (PGROUNDUP oldsz) = 4096 * npg oldsz" "unat (PGROUNDUP newsz) = 4096 * npg newsz"
    using vpage_UMAX(1) old new by simp_all
  obtain s' ps' where s': "uvmunmap pt (PGROUNDUP newsz) (of_nat k) True s = Ret () s'"
    "resized pt s ps (npg oldsz) s' ps' (npg newsz) (set (upages (mem s) pt (PGROUNDUP newsz) k))"
    using uvmunmap_space [OF us [unfolded k]] k new(1) by metis
  show ?thesis
  proof (cases "k = 0")
    case True
    then have "\<not> PGROUNDUP newsz < PGROUNDUP oldsz" using uo k by (simp add: word_less_nat_alt)
    then show ?thesis using \<open>newsz < oldsz\<close> us k True mn
      by (auto simp: uvmdealloc_def resized_def)
  next
    case False
    have d: "unat ((PGROUNDUP oldsz - PGROUNDUP newsz) div PGSIZE) = k"
      using uo k by (simp add: unat_div_distrib unat_sub word_le_nat_alt)
    have "k < 0x80000000" using k old(2) by simp
    then have "scast (ucast ((PGROUNDUP oldsz - PGROUNDUP newsz) div PGSIZE) :: uint)
        = (PGROUNDUP oldsz - PGROUNDUP newsz) div PGSIZE"
      by (intro int_roundtrip) (simp add: d)
    also have "\<dots> = of_nat k" unfolding d [symmetric] by simp
    finally have c: "scast (ucast ((PGROUNDUP oldsz - PGROUNDUP newsz) div PGSIZE) :: uint) = (of_nat k :: uint64)" .
    have "PGROUNDUP newsz < PGROUNDUP oldsz" using uo k False by (simp add: word_less_nat_alt)
    then have "uvmdealloc pt oldsz newsz s = Ret newsz s'"
      using True [unfolded not_le [symmetric]] s'(1) c by (simp add: uvmdealloc_def Let_def)
    then show ?thesis using s'(2) new(1) k mn by auto
  qed
qed

lemma resized_refl: "uspace s pt ps n \<Longrightarrow> resized pt s ps n s ps n P"
  by (simp add: resized_def)

lemma resized_trans:
  assumes "resized pt s ps n s1 ps1 n1 P" "resized pt s1 ps1 n1 s2 ps2 n2 Q"
    "min n n2 \<le> n1" "nodes (mem s1) pt \<subseteq> nodes (mem s) pt \<union> R" "P \<union> Q \<subseteq> nodes (mem s) pt \<union> R"
  shows "resized pt s ps n s2 ps2 n2 R"
proof -
  have "vm_frame s s2 (nodes (mem s) pt \<union> R)"
    using assms by (auto simp: resized_def intro!: vm_frame_trans [of s s1 _ s2])
  moreover have "i < n1" if "i < n" "i < n2" for i using assms(3) that by simp
  ultimately show ?thesis using assms(1,2) by (simp add: resized_def)
qed

lemma held_disjoint: "uspace s pt ps n \<Longrightarrow> set (upages (mem s) pt 0 n) \<inter> (set ps \<union> nodes (mem s) pt) = {}"
  by (simp add: uspace_def freeable_def)

text \<open>The new pages of a grown space: cleared, and mapped with the given permissions.\<close>

definition fresh_pages where
  "fresh_pages s pt lo hi perm \<longleftrightarrow>
     (\<forall>i. lo \<le> i \<and> i < hi \<longrightarrow> PTE_FLAGS (pte_of (mem s) pt (vpage 0 i)) = perm OR PTE_V
        \<and> (\<forall>x. PGROUNDDOWN x = PTE2PA (pte_of (mem s) pt (vpage 0 i)) \<longrightarrow> mem s x = 0))"

lemma less_npg: "j < npg sz \<longleftrightarrow> 4096 * j < unat sz"
proof -
  have "j < npg sz \<longleftrightarrow> Suc j * 4096 \<le> unat sz + 4095"
    unfolding npg_def by (simp add: Suc_le_eq [symmetric] less_eq_div_iff_mult_less_eq del: mult_Suc)
  then show ?thesis by auto
qed

text \<open>The outcome of \<open>uvmalloc\<close> from a space that has \<open>j\<close> pages, \<open>n\<close> of them before the call.\<close>

definition uvmalloc_post where
  "uvmalloc_post pt n j newsz xperm s ps r s' ps' \<longleftrightarrow>
     (if r = newsz \<and> newsz \<noteq> 0
      then resized pt s ps j s' ps' (npg newsz) (set ps)
        \<and> fresh_pages s' pt j (npg newsz) (PTE_R OR PTE_U OR xperm)
      else r = 0 \<and> resized pt s ps j s' ps' n (set ps \<union> set (upages (mem s) pt (vpage 0 n) (j - n))))"

lemma resized_nodes: "resized pt s ps n s' ps' n' P \<Longrightarrow> nodes (mem s') pt \<subseteq> held s pt ps n"
  unfolding resized_def held_def by blast

lemma uvmalloc_step_ok:
  assumes r1: "resized pt s ps j s3 ps3 (Suc j) (set ps)" and n: "n \<le> j" and p: "p \<in> set ps" "set ps3 \<subseteq> set ps"
    and e: "pte_of (mem s3) pt (vpage 0 j) = PA2PTE p OR perm OR PTE_V" "PTE2PA (PA2PTE p OR perm OR PTE_V) = p"
      "PTE_FLAGS (PA2PTE p OR perm OR PTE_V) = perm OR PTE_V"
    and z: "\<And>x. PGROUNDDOWN x = p \<Longrightarrow> mem s3 x = 0" and perm: "perm = PTE_R OR PTE_U OR xperm"
    and r2: "uvmalloc_post pt n (Suc j) newsz xperm s3 ps3 r s' ps'" and j: "j < npg newsz"
    and us: "uspace s pt ps j"
  shows "uvmalloc_post pt n j newsz xperm s ps r s' ps'"
proof -
  have us3: "uspace s3 pt ps3 (Suc j)" and keep: "\<And>i. i < j \<Longrightarrow> pte_of (mem s3) pt (vpage 0 i) = pte_of (mem s) pt (vpage 0 i)"
    using r1 by (auto simp: resized_def)
  have pin: "p \<in> set (upages (mem s3) pt 0 (Suc j))" using e by (simp add: upages_snoc)
  have up: "upages (mem s3) pt (vpage 0 n) (Suc j - n) = upages (mem s) pt (vpage 0 n) (j - n) @ [p]"
  proof -
    have "Suc j - n = Suc (j - n)" using n by simp
    moreover have "upages (mem s3) pt (vpage 0 n) (j - n) = upages (mem s) pt (vpage 0 n) (j - n)"
      using keep n by (intro upages_cong) (simp add: vpage_vpage)
    ultimately show ?thesis using e n by (simp add: upages_snoc vpage_vpage)
  qed
  have nd: "nodes (mem s3) pt \<subseteq> nodes (mem s) pt \<union> set ps"
  proof -
    have "nodes (mem s3) pt \<inter> set (upages (mem s3) pt 0 (Suc j)) = {}" using held_disjoint [OF us3] by auto
    moreover have "set (upages (mem s) pt 0 j) \<subseteq> set (upages (mem s3) pt 0 (Suc j))"
      using keep upages_cong [of j "mem s3" pt 0 "mem s"] by (simp add: upages_snoc) blast
    ultimately show ?thesis using resized_nodes [OF r1] by (auto simp: held_def)
  qed
  show ?thesis
  proof (cases "r = newsz \<and> newsz \<noteq> 0")
    case True
    then have r2': "resized pt s3 ps3 (Suc j) s' ps' (npg newsz) (set ps3)"
      "fresh_pages s' pt (Suc j) (npg newsz) perm"
      using r2 perm by (auto simp: uvmalloc_post_def)
    have pk: "pte_of (mem s') pt (vpage 0 j) = PA2PTE p OR perm OR PTE_V"
      using r2'(1) j e(1) by (simp add: resized_def)
    have pd: "p \<notin> nodes (mem s3) pt \<union> set ps3" using held_disjoint [OF us3] pin by auto
    have "mem s' x = 0" if "PGROUNDDOWN x = p" for x
      using r2'(1) z [OF that] pd that by (auto simp: resized_def vm_frame_def)
    moreover have "j \<le> i \<longleftrightarrow> i = j \<or> Suc j \<le> i" for i by auto
    ultimately have "fresh_pages s' pt j (npg newsz) perm"
      using r2'(2) pk e(2,3) unfolding fresh_pages_def by metis
    moreover have "resized pt s ps j s' ps' (npg newsz) (set ps)"
      by (rule resized_trans [OF r1 r2'(1)]) (use nd p(2) in auto)
    ultimately show ?thesis using True perm by (simp add: uvmalloc_post_def)
  next
    case False
    then have r2': "r = 0" "resized pt s3 ps3 (Suc j) s' ps' n (set ps3 \<union> set (upages (mem s3) pt (vpage 0 n) (Suc j - n)))"
      using r2 by (auto simp: uvmalloc_post_def split: if_splits)
    have "resized pt s ps j s' ps' n (set ps \<union> set (upages (mem s) pt (vpage 0 n) (j - n)))"
      by (rule resized_trans [OF r1 r2'(2)]) (use nd n p up in auto)
    then show ?thesis using False r2'(1) by (simp add: uvmalloc_post_def)
  qed
qed

lemma npg_pos: "j < npg newsz \<Longrightarrow> newsz \<noteq> 0"
  by (auto simp: less_npg)

lemma uvmalloc_undo:
  assumes us: "uspace s pt ps j" and n: "n \<le> j"
  obtains s' ps' where "uvmdealloc pt (vpage 0 j) (vpage 0 n) s = Ret (vpage 0 n) s'"
    "resized pt s ps j s' ps' n (set (upages (mem s) pt (vpage 0 n) (j - n)))"
proof -
  have j: "j \<le> UMAX" using us by (simp add: uspace_def)
  have u: "unat (vpage 0 j) = 4096 * j" "unat (vpage 0 n) = 4096 * n"
    using vpage_UMAX(1) j n by simp_all
  have g: "npg (vpage 0 j) = j" "npg (vpage 0 n) = n" by (simp_all add: npg_def u)
  have "min (vpage 0 j) (vpage 0 n) = vpage 0 n" using n u by (simp add: min_def word_le_nat_alt)
  then show ?thesis
    using uvmdealloc_space [of s pt ps "vpage 0 j" "vpage 0 n"] us j g u that by auto
qed


lemma user_perm:
  assumes "(x :: uint64) < 1024"
  shows "PTE_R OR PTE_U OR x < 1024" "(PTE_R OR PTE_U OR x) OR PTE_V \<noteq> PTE_V"
proof -
  have "take_bit 10 x = x" using assms by (simp add: take_bit_eq_mod mod_word_less)
  then have "take_bit 10 (PTE_R OR PTE_U OR x) = PTE_R OR PTE_U OR x" by (simp add: take_bit_or)
  then have "PTE_R OR PTE_U OR x = (PTE_R OR PTE_U OR x) mod 1024" by (simp add: take_bit_eq_mod)
  then show "PTE_R OR PTE_U OR x < 1024"
    using word_mod_less_divisor [of 1024 "PTE_R OR PTE_U OR x"] by simp
  have "bit ((PTE_R OR PTE_U OR x) OR PTE_V) 1" "\<not> bit PTE_V 1" by (simp_all add: bit_simps bit_1_iff)
  then show "(PTE_R OR PTE_U OR x) OR PTE_V \<noteq> PTE_V" by metis
qed

lemma uvmalloc_fail:
  assumes us: "uspace s pt ps j" and r1: "resized pt s ps j s4 [p] j (set ps)"
    and r2: "resized pt s4 [p] j s' ps' n (set (upages (mem s4) pt (vpage 0 n) (j - n)))" and n: "n \<le> j"
  shows "resized pt s ps j s' ps' n (set ps \<union> set (upages (mem s) pt (vpage 0 n) (j - n)))"
proof -
  have keep: "\<And>i. i < j \<Longrightarrow> pte_of (mem s4) pt (vpage 0 i) = pte_of (mem s) pt (vpage 0 i)"
    using r1 by (simp add: resized_def)
  have up: "upages (mem s4) pt (vpage 0 n) (j - n) = upages (mem s) pt (vpage 0 n) (j - n)"
    using keep n by (intro upages_cong) (simp add: vpage_vpage)
  have "upages (mem s4) pt 0 j = upages (mem s) pt 0 j" using keep by (intro upages_cong)
  moreover have "uspace s4 pt [p] j" using r1 by (simp add: resized_def)
  ultimately have "nodes (mem s4) pt \<subseteq> nodes (mem s) pt \<union> set ps"
    using resized_nodes [OF r1] held_disjoint [of s4 pt "[p]" j] by (auto simp: held_def)
  then show ?thesis by (intro resized_trans [OF r1 r2]) (use n up in auto)
qed

lemma uvmalloc_loop_grows:
  assumes "uspace s pt ps j" "n \<le> j" "j \<le> npg newsz" "unat newsz \<le> 4096 * UMAX" "0 < npg newsz"
    and x: "xperm < 1024"
  shows "\<exists>r s' ps'. uvmalloc_loop pt (vpage 0 j) (vpage 0 n) newsz xperm s = Ret r s'
    \<and> uvmalloc_post pt n j newsz xperm s ps r s' ps'"
  using assms
proof (induction "npg newsz - j" arbitrary: j s ps)
  case 0
  then have "j = npg newsz" by simp
  moreover have "\<not> vpage 0 j < newsz"
    using 0 vpage_UMAX(1) [of j] PGROUNDUP_vpage(2) [of newsz] less_npg [of j newsz]
    by (simp add: word_less_nat_alt)
  ultimately show ?case
    using 0 by (subst uvmalloc_loop.simps)
      (auto simp: uvmalloc_post_def fresh_pages_def npg_pos intro: resized_refl)
next
  case (Suc d)
  let ?perm = "PTE_R OR PTE_U OR xperm"
  have jl: "j < npg newsz" using Suc.hyps(2) by simp
  have jU: "j < UMAX" using jl PGROUNDUP_vpage(2) [OF Suc.prems(4)] by simp
  have lt: "vpage 0 j < newsz"
    using jl vpage_UMAX(1) [of j] jU by (simp add: word_less_nat_alt less_npg)
  have nx: "vpage 0 j + PGSIZE = vpage 0 (Suc j)" by (simp add: vpage_def)
  have pm: "?perm < 1024" "?perm OR PTE_V \<noteq> PTE_V" using user_perm [OF x] by simp_all
  have nz: "newsz \<noteq> 0" using jl by (rule npg_pos)
  from Suc.prems(1) jU pm show ?case
  proof (cases rule: uvm_grow)
    case nomem
    obtain s' ps' where "uvmdealloc pt (vpage 0 j) (vpage 0 n) s = Ret (vpage 0 n) s'"
      "resized pt s ps j s' ps' n (set (upages (mem s) pt (vpage 0 n) (j - n)))"
      using uvmalloc_undo [OF Suc.prems(1,2)] by blast
    then show ?thesis using lt nomem nz
      by (subst uvmalloc_loop.simps) (auto simp: uvmalloc_post_def intro!: exI [of _ ps'])
  next
    case (full p s1 s2 s3 s4)
    have us4: "uspace s4 pt [p] j" using full(6) by (simp add: resized_def)
    obtain s' ps' where s': "uvmdealloc pt (vpage 0 j) (vpage 0 n) s4 = Ret (vpage 0 n) s'"
      "resized pt s4 [p] j s' ps' n (set (upages (mem s4) pt (vpage 0 n) (j - n)))"
      using uvmalloc_undo [OF us4 Suc.prems(2)] by blast
    have "uvmalloc_post pt n j newsz xperm s ps 0 s' ps'"
      using uvmalloc_fail [OF Suc.prems(1) full(6) s'(2) Suc.prems(2)] nz by (simp add: uvmalloc_post_def)
    then show ?thesis using lt full(1-5) s'(1)
      by (subst uvmalloc_loop.simps) auto
  next
    case (ok p s1 s2 s3 ps3)
    have us3: "uspace s3 pt ps3 (Suc j)" using ok(5) by (simp add: resized_def)
    have d: "d = npg newsz - Suc j" "Suc j \<le> npg newsz" using Suc.hyps(2) by simp_all
    obtain r s' ps' where r: "uvmalloc_loop pt (vpage 0 (Suc j)) (vpage 0 n) newsz xperm s3 = Ret r s'"
      "uvmalloc_post pt n (Suc j) newsz xperm s3 ps3 r s' ps'"
      using Suc.hyps(1) [OF d(1) us3 _ d(2)] Suc.prems by auto
    have kp: "kpage s p" using ok(6) Suc.prems(1) kpages.free_pages [of s ps] by (auto simp: uspace_def pt_inv_def)
    have f: "?perm OR PTE_V < 1024" using pm(1) by (rule or_1_less_1024)
    have e: "PTE2PA (PA2PTE p OR ?perm OR PTE_V) = p" "PTE_FLAGS (PA2PTE p OR ?perm OR PTE_V) = ?perm OR PTE_V"
      using PTE2PA_PA2PTE [OF _ _ f] PTE_FLAGS_PA2PTE [OF f] kpage_bounds [OF kp] by (simp_all add: or.assoc)
    have "uvmalloc_post pt n j newsz xperm s ps r s' ps'"
      by (rule uvmalloc_step_ok [OF ok(5) Suc.prems(2) ok(6,7,8) e ok(9) refl r(2) jl Suc.prems(1)])
    then show ?thesis using lt ok(1-4) r(1) nx
      by (subst uvmalloc_loop.simps) auto
  qed
qed

text \<open>
  C12. \<open>uvmalloc\<close> (vm.c) is all or nothing. From a space of \<open>oldsz\<close> bytes it returns \<open>newsz\<close>
  with the new pages cleared, mapped with \<open>PTE_R|PTE_U|xperm\<close> and distinct from every other
  page, or it returns 0 with the space back at its old size; in both cases no page is
  lost, the old pages keep their mappings and contents, and it does not panic.
\<close>

theorem uvmalloc_all_or_nothing:
  assumes "uspace s pt ps (npg oldsz)" "oldsz \<le> newsz" "unat newsz \<le> 4096 * UMAX" "newsz \<noteq> 0" "xperm < 1024"
  shows "\<exists>r s' ps'. uvmalloc pt oldsz newsz xperm s = Ret r s'
    \<and> uvmalloc_post pt (npg oldsz) (npg oldsz) newsz xperm s ps r s' ps'"
proof -
  have le: "unat oldsz \<le> unat newsz" using assms(2) by (simp add: word_le_nat_alt)
  have n: "npg oldsz \<le> npg newsz" unfolding npg_def using le by (intro div_le_mono) simp
  have "0 < npg newsz" using assms(4) by (simp add: less_npg unat_gt_0)
  then show ?thesis
    using uvmalloc_loop_grows [OF assms(1) le_refl n assms(3) _ assms(5)]
      PGROUNDUP_vpage(1) [OF le_trans [OF le assms(3)]] assms(2) [unfolded not_less [symmetric]]
    by (simp add: uvmalloc_def)
qed

text \<open>A table that is one cleared page.\<close>

lemma load64_zero_page:
  assumes "\<And>x. PGROUNDDOWN x = pt \<Longrightarrow> m x = 0" "page_aligned pt" "i < 512"
  shows "load64 m (slot pt i) = 0"
proof -
  have "load_bytes m (slot pt i) 8 = replicate 8 0"
    using assms by (intro nth_equalityI) (simp_all add: PGROUNDDOWN_slot)
  then show ?thesis by (simp add: load64_def)
qed

lemma empty_table:
  assumes z: "\<And>x. PGROUNDDOWN x = pt \<Longrightarrow> m x = 0" and pt: "page_aligned pt" "pt \<noteq> 0"
  shows "pt_wf m pt" "nodes m pt = {pt}" "pte_of m pt va = 0"
proof -
  have na: "node_at m pt is = (if is = [] then Some pt else None)" if "ipath is" for "is"
    using that load64_zero_page [of pt m, OF z pt(1)] by (cases "is") (auto simp: ipath_def)
  show n: "nodes m pt = {pt}" by (auto simp: nodes_def na split: if_splits intro!: exI [of _ "[]"])
  show "pt_wf m pt" using pt unfolding pt_wf_def n by (simp add: na split: if_splits)
  show "pte_of m pt va = 0" by (simp add: pte_of_def pte_at_def na) (simp add: vpath_def)
qed

lemma empty_space:
  assumes "\<And>x. PGROUNDDOWN x = pt \<Longrightarrow> mem s x = 0" "page_aligned pt" "pt \<noteq> 0" "kmem_inv s ps" "pt \<notin> set ps"
  shows "uspace s pt ps 0"
  using empty_table [of pt "mem s", OF assms(1-3)] assms(4,5)
  by (simp add: uspace_def pt_inv_def leaves_def upages_def freeable_def)

text \<open>A machine with one free page and an empty table, for the witnesses.\<close>

definition boot_state :: kmem where
  "boot_state = \<lparr>mem = \<lambda>_. 0, kout = [], freelist = 0x80023000, kend = 0x80022000\<rparr>"

lemma boot_state_space: "uspace boot_state 0x80022000 [0x80023000] 0"
proof (rule empty_space)
  have "load64 (\<lambda>_. 0) (0x80023000 :: uint64) = 0"
    using le_word_zeros [of 8] by (simp add: load64_def load_bytes_def map_replicate_const)
  then show "kmem_inv boot_state [0x80023000]"
    by (simp add: kmem_inv_def kpage_def page_aligned_unat boot_state_def)
qed (simp_all add: boot_state_def page_aligned_unat)

theorem uvmalloc_all_or_nothing_witness:
  "\<exists>r s' ps'. uvmalloc 0x80022000 0 8192 PTE_W boot_state = Ret r s'
    \<and> uvmalloc_post 0x80022000 (npg 0) (npg 0) 8192 PTE_W boot_state [0x80023000] r s' ps'"
proof (rule uvmalloc_all_or_nothing)
  show "uspace boot_state 0x80022000 [0x80023000] (npg 0)"
    using boot_state_space by (simp add: npg_def)
qed simp_all

text \<open>
  C11. \<open>mappages\<close> (vm.c) on a well-formed table with no page of the range mapped: it never
  panics; it returns 0 with every page of the range mapped to consecutive physical pages
  with the given permissions, or -1 when memory ran out with a prefix of the range mapped;
  no entry outside the range and no memory outside the table changes.
\<close>

theorem mappages_maps:
  assumes "pt_inv s pt ps" "0 < unat sz" "unat va + unat sz \<le> unat MAXVA"
    and "\<And>vb. unat (vb - PGROUNDDOWN va) < 4096 * page_span va sz \<Longrightarrow> vb < MAXVA
      \<Longrightarrow> \<not> pte_valid (pte_of (mem s) pt vb)"
  shows "\<exists>r s' ps'. mappages pt va sz pa perm s = Ret r s'
     \<and> mappages_post pt (PGROUNDDOWN va) (page_span va sz) pa perm s ps r s' ps'"
proof -
  obtain k where k: "page_span va sz = Suc k" by (simp add: page_span_def)
  have "unat va + unat sz \<le> 0x4000000000" using assms(3) by simp
  note sp = page_span_last [OF assms(2) this]
  have "sz \<noteq> 0" using assms(2) by auto
  then show ?thesis
    using mappages_loop_maps [OF assms(1) page_aligned_PGROUNDDOWN sp(2) [unfolded k]] assms(4)
    by (simp add: mappages_def sp(1) k)
qed

theorem mappages_maps_witness:
  "\<exists>r s' ps'. mappages 0x80022000 0x1800 0x1000 0x80024000 PTE_W boot_state = Ret r s'
     \<and> mappages_post 0x80022000 (PGROUNDDOWN 0x1800) (page_span 0x1800 0x1000) 0x80024000 PTE_W
         boot_state [0x80023000] r s' ps'"
proof (rule mappages_maps)
  show "pt_inv boot_state 0x80022000 [0x80023000]" using boot_state_space by (simp add: uspace_def)
  show "\<not> pte_valid (pte_of (mem boot_state) 0x80022000 vb)" for vb
  proof -
    have "pte_of (mem boot_state) 0x80022000 vb = 0"
      by (rule empty_table(3)) (simp_all add: boot_state_def page_aligned_unat)
    then show ?thesis by simp
  qed
qed simp_all

end
