(* ===== verification/Printf.thy ===== *)
theory Printf
  imports Prelude
begin

text \<open>
  Formatted output: \<open>printint\<close>, \<open>printptr\<close> and \<open>vprintf\<close> of user/printf.c, the same functions of
  kernel/printf.c, and \<open>atoi\<close> of user/ulib.c. A function returns the characters it gives to
  \<open>putc\<close> or \<open>consputc\<close>. The variable arguments are a list; \<open>None\<close> is a call whose arguments
  do not fit the format, which is undefined in C.
\<close>

section \<open>Integers\<close>

abbreviation (input) udigits :: string where "udigits \<equiv> ''0123456789ABCDEF''"
abbreviation (input) kdigits :: string where "kdigits \<equiv> ''0123456789abcdef''"

lemma div_base_less:
  assumes "\<not> base < (2 :: uint)" "x div base \<noteq> 0"
  shows "unat (x div base) < unat x"
proof -
  have "2 \<le> unat base" using assms(1) by (simp add: word_less_nat_alt)
  moreover have "0 < unat x" using assms(2) by (auto simp: unat_gt_0)
  ultimately show ?thesis by (simp add: unat_div_distrib)
qed

text \<open>
  The loop that fills \<open>buf\<close>, least significant digit first. Every call passes base 10 or 16;
  the guard on the base makes the function total.
\<close>

function digit_loop :: "string \<Rightarrow> uint \<Rightarrow> uint \<Rightarrow> string" where
  "digit_loop digits base x =
     (let d = digits ! unat (x mod base) in
      if x div base = 0 \<or> base < 2 then [d] else d # digit_loop digits base (x div base))"
  by pat_completeness auto
termination by (relation "measure (\<lambda>(_, _, x). unat x)") (auto intro: div_base_less)

declare digit_loop.simps [simp del]

definition printint :: "string \<Rightarrow> uint \<Rightarrow> uint \<Rightarrow> bool \<Rightarrow> string" where
  "printint digits xx base sgnd =
     (let neg = (sgnd \<and> sint xx < 0);
          x = (if neg then - xx else xx);
          buf = digit_loop digits base x;
          buf = (if neg then buf @ ''-'' else buf)
      in rev buf)"

fun printptr_loop :: "string \<Rightarrow> nat \<Rightarrow> uint64 \<Rightarrow> string" where
  "printptr_loop digits 0 x = []"
| "printptr_loop digits (Suc n) x =
     digits ! unat (drop_bit 60 x) # printptr_loop digits n (push_bit 4 x)"

definition printptr :: "string \<Rightarrow> uint64 \<Rightarrow> string" where
  "printptr digits x = ''0x'' @ printptr_loop digits 16 x"

section \<open>Formats\<close>

text \<open>An argument: a register, or a string pointer (\<open>None\<close> for the null pointer).\<close>

datatype varg = VInt uint64 | VStr "string option"

definition str_arg :: "string option \<Rightarrow> string" where
  "str_arg s = (case s of None \<Rightarrow> ''(null)'' | Some s \<Rightarrow> s)"

text \<open>\<open>vprintf\<close> of user/printf.c; the flag is \<open>state == '%'\<close>.\<close>

fun vprintf :: "bool \<Rightarrow> string \<Rightarrow> varg list \<Rightarrow> string option" where
  "vprintf st [] ap = Some []"
| "vprintf st (c # fmt) ap =
     (if \<not> st then
        if c = CHR ''%'' then vprintf True fmt ap
        else map_option ((#) c) (vprintf False fmt ap)
      else if c = CHR ''d'' then
        (case ap of VInt v # ap' \<Rightarrow> map_option ((@) (printint udigits (ucast v) 10 True)) (vprintf False fmt ap')
         | _ \<Rightarrow> None)
      else if c = CHR ''l'' then
        (case ap of VInt v # ap' \<Rightarrow> map_option ((@) (printint udigits (ucast v) 10 False)) (vprintf False fmt ap')
         | _ \<Rightarrow> None)
      else if c = CHR ''x'' then
        (case ap of VInt v # ap' \<Rightarrow> map_option ((@) (printint udigits (ucast v) 16 False)) (vprintf False fmt ap')
         | _ \<Rightarrow> None)
      else if c = CHR ''p'' then
        (case ap of VInt v # ap' \<Rightarrow> map_option ((@) (printptr udigits v)) (vprintf False fmt ap')
         | _ \<Rightarrow> None)
      else if c = CHR ''s'' then
        (case ap of VStr s # ap' \<Rightarrow> map_option ((@) (str_arg s)) (vprintf False fmt ap')
         | _ \<Rightarrow> None)
      else if c = CHR ''c'' then
        (case ap of VInt v # ap' \<Rightarrow> map_option ((#) (char_of (unat (ucast v :: uchar)))) (vprintf False fmt ap')
         | _ \<Rightarrow> None)
      else if c = CHR ''%'' then map_option ((#) c) (vprintf False fmt ap)
      else map_option (\<lambda>o'. CHR ''%'' # c # o') (vprintf False fmt ap))"

definition fprintf :: "nat \<Rightarrow> string \<Rightarrow> varg list \<Rightarrow> (nat \<times> string) option" where
  "fprintf fd fmt ap = map_option (Pair fd) (vprintf False fmt ap)"

definition uprintf :: "string \<Rightarrow> varg list \<Rightarrow> (nat \<times> string) option" where
  "uprintf fmt ap = fprintf 1 fmt ap"

text \<open>\<open>printf\<close> of kernel/printf.c.\<close>

fun kprintf :: "string \<Rightarrow> varg list \<Rightarrow> string option" where
  "kprintf [] ap = Some []"
| "kprintf [c] ap = Some (if c = CHR ''%'' then [] else [c])"
| "kprintf (c # d # fmt) ap =
     (if c \<noteq> CHR ''%'' then map_option ((#) c) (kprintf (d # fmt) ap)
      else if d = CHR ''d'' then
        (case ap of VInt v # ap' \<Rightarrow> map_option ((@) (printint kdigits (ucast v) 10 True)) (kprintf fmt ap')
         | _ \<Rightarrow> None)
      else if d = CHR ''x'' then
        (case ap of VInt v # ap' \<Rightarrow> map_option ((@) (printint kdigits (ucast v) 16 True)) (kprintf fmt ap')
         | _ \<Rightarrow> None)
      else if d = CHR ''p'' then
        (case ap of VInt v # ap' \<Rightarrow> map_option ((@) (printptr kdigits v)) (kprintf fmt ap')
         | _ \<Rightarrow> None)
      else if d = CHR ''s'' then
        (case ap of VStr s # ap' \<Rightarrow> map_option ((@) (str_arg s)) (kprintf fmt ap')
         | _ \<Rightarrow> None)
      else if d = CHR ''%'' then map_option ((#) d) (kprintf fmt ap)
      else map_option (\<lambda>o'. CHR ''%'' # d # o') (kprintf fmt ap))"

text \<open>\<open>panic\<close> prints its message; the message is itself the format.\<close>

definition panic_out :: "string \<Rightarrow> string option" where
  "panic_out s =
     (case kprintf ''panic: '' [] of None \<Rightarrow> None
      | Some a \<Rightarrow> (case kprintf s [] of None \<Rightarrow> None
        | Some b \<Rightarrow> map_option (\<lambda>c. a @ b @ c) (kprintf [CHR 0x0A] [])))"

section \<open>Reading numbers back\<close>

fun atoi_loop :: "uint \<Rightarrow> string \<Rightarrow> uint" where
  "atoi_loop n [] = n"
| "atoi_loop n (c # s) =
     (if 48 \<le> (of_char c :: nat) \<and> (of_char c :: nat) \<le> 57
      then atoi_loop (n * 10 + of_char c - 48) s else n)"

definition atoi :: "string \<Rightarrow> uint" where
  "atoi s = atoi_loop 0 s"

section \<open>Decimal numerals\<close>

text \<open>The decimal numeral of a number, most significant digit first.\<close>

definition digit :: "nat \<Rightarrow> char" where
  "digit d = char_of (48 + d)"

fun decimal :: "nat \<Rightarrow> string" where
  "decimal n = (if n < 10 then [digit n] else decimal (n div 10) @ [digit (n mod 10)])"

declare decimal.simps [simp del]

lemma udigits_digit: "d < 10 \<Longrightarrow> udigits ! d = digit d"
proof -
  assume "d < 10"
  then have "d \<in> {0, 1, 2, 3, 4, 5, 6, 7, 8, 9}" by auto
  then show ?thesis by (elim insertE) (simp_all add: digit_def, code_simp+)
qed

lemma sint32: "sint (w :: uint) = (if uint w < 2 ^ 31 then uint w else uint w - 2 ^ 32)"
proof -
  have b: "0 \<le> uint w" "uint w < 2 ^ 32" using uint_lt2p [of w] by simp_all
  have s: "sint w = (uint w + 2 ^ 31) mod 2 ^ 32 - 2 ^ 31"
    by (simp add: sint_uint signed_take_bit_eq_take_bit_shift take_bit_eq_mod)
  show ?thesis
  proof (cases "uint w < 2 ^ 31")
    case True
    then show ?thesis using b s by (simp add: mod_pos_pos_trivial)
  next
    case False
    have "(uint w + 2 ^ 31) mod 2 ^ 32 = (uint w - 2 ^ 31) mod 2 ^ 32"
      using mod_add_self2 [of "uint w - 2 ^ 31" "2 ^ 32"] by (simp add: add.commute)
    also have "\<dots> = uint w - 2 ^ 31" using False b by (intro mod_pos_pos_trivial) simp_all
    finally show ?thesis using False s by simp
  qed
qed

lemma digit_loop_decimal: "rev (digit_loop udigits 10 x) = decimal (unat x)"
proof (induction udigits "10 :: uint" x rule: digit_loop.induct)
  case (1 x)
  have m: "unat (x mod 10) = unat x mod 10" by (simp add: unat_mod_distrib)
  have d: "unat (x div 10) = unat x div 10" by (simp add: unat_div_distrib)
  have z: "x div 10 = 0 \<longleftrightarrow> unat x < 10"
    using d by (auto simp: word_unat_eq_iff)
  have lt: "unat x mod 10 < 10" by simp
  show ?case
  proof (cases "x div 10 = 0")
    case True
    then have "unat x < 10" using z by simp
    then show ?thesis using True m
      by (subst digit_loop.simps, subst decimal.simps) (simp add: udigits_digit Let_def)
  next
    case False
    then have "rev (digit_loop udigits 10 (x div 10)) = decimal (unat x div 10)"
      using 1 d by simp
    then show ?thesis using False z m udigits_digit [OF lt]
      by (subst digit_loop.simps, subst decimal.simps) (simp add: Let_def)
  qed
qed

text \<open>
  C20. \<open>printint\<close> (user/printf.c) in base 10 prints the decimal numeral of its argument as a
  signed integer, with a minus sign for the negative ones: every value is printed
  right, the smallest negative one included.
\<close>

theorem printint_decimal:
  "printint udigits xx 10 True =
     (if sint xx < 0 then CHR ''-'' # decimal (nat (- sint xx)) else decimal (nat (sint xx)))"
proof (cases "sint xx < 0")
  case True
  then have s: "sint xx = uint xx - 2 ^ 32" and b: "2 ^ 31 \<le> uint xx"
    by (auto simp: sint32 split: if_splits)
  have "uint (- xx) = (2 ^ 32 - uint xx) mod 2 ^ 32"
    using mod_add_self2 [of "- uint xx" "2 ^ 32"] by (simp add: uint_word_ariths)
  also have "\<dots> = 2 ^ 32 - uint xx" using b uint_lt2p [of xx] by (intro mod_pos_pos_trivial) simp_all
  finally have "uint (- xx) = - sint xx" using s by simp
  then have "unat (- xx) = nat (- sint xx)" by (metis nat_uint_eq)
  then show ?thesis using True by (simp add: printint_def Let_def digit_loop_decimal)
next
  case False
  then have "uint xx = sint xx" using uint_lt2p [of xx] by (simp add: sint32 split: if_splits)
  then have "unat xx = nat (sint xx)" by (metis nat_uint_eq)
  then show ?thesis using False by (simp add: printint_def Let_def digit_loop_decimal)
qed


section \<open>Round trip\<close>

lemma of_char_digit: "d < 10 \<Longrightarrow> (of_char (digit d) :: nat) = 48 + d"
  by (simp add: digit_def)

lemma of_char_word: "(of_char c :: uint) = of_nat (of_char c)"
  by (simp add: of_nat_of_char)

lemma atoi_loop_append_digit:
  "list_all (\<lambda>c. 48 \<le> (of_char c :: nat) \<and> (of_char c :: nat) \<le> 57) s \<Longrightarrow> d < 10 \<Longrightarrow>
   atoi_loop n (s @ [digit d]) = atoi_loop n s * 10 + of_nat d"
  by (induction s arbitrary: n) (auto simp: of_char_digit of_char_word)

lemma decimal_digits: "list_all (\<lambda>c. 48 \<le> (of_char c :: nat) \<and> (of_char c :: nat) \<le> 57) (decimal n)"
  by (induction n rule: decimal.induct) (subst decimal.simps, auto simp: of_char_digit)

lemma atoi_decimal: "atoi (decimal n) = of_nat n"
proof (induction n rule: decimal.induct)
  case (1 n)
  show ?case
  proof (cases "n < 10")
    case True
    then show ?thesis
      using atoi_loop_append_digit [of "[]" n 0] by (subst decimal.simps) (simp add: atoi_def)
  next
    case False
    have "of_nat n = (of_nat (n div 10) * 10 + of_nat (n mod 10) :: uint)"
      by (metis div_mult_mod_eq of_nat_add of_nat_mult of_nat_numeral)
    then show ?thesis
      using 1 [OF False] False atoi_loop_append_digit [OF decimal_digits, of "n mod 10" 0 "n div 10"]
      by (subst decimal.simps) (simp add: atoi_def)
  qed
qed

text \<open>
  C21. \<open>atoi\<close> (user/ulib.c) reads back what \<open>printint\<close> (user/printf.c) prints for every
  non-negative integer. It knows no sign: for what is printed for a negative integer it gives 0.
\<close>

theorem atoi_printint: "atoi (printint udigits xx 10 True) = (if 0 \<le> sint xx then xx else 0)"
proof (cases "0 \<le> sint xx")
  case True
  then have "uint xx = sint xx" using uint_lt2p [of xx] by (simp add: sint32 split: if_splits)
  then have "rev (digit_loop udigits 10 xx) = decimal (unat xx)" by (simp only: digit_loop_decimal)
  then show ?thesis using True by (simp add: printint_def Let_def atoi_decimal)
next
  case False
  then show ?thesis by (simp add: printint_def Let_def atoi_def)
qed

end
