(* ===== verification/Proc.thy ===== *)
theory Proc
  imports Uvm Printf
begin

text \<open>
  The process table, kernel/proc.c, without the functions that use files (those are in
  \<open>Life\<close>): allocation and release of processes and their page tables, sleeping and waking,
  killing, the scheduler, and copying between kernel and user memory; and the sleep locks
  of kernel/sleeplock.c.

  A handler runs as process \<open>cpu_proc\<close> of the executing CPU. Spin locks protect the table in
  the C code; a handler of the model runs without interleaving up to the point where it
  sleeps, so acquiring and releasing them has no effect here.
\<close>

unbundle bit_operations_syntax

section \<open>State (proc.h)\<close>

record kcontext =
  ctx_ra :: uint64
  ctx_sp :: uint64
  ctx_s :: "nat \<Rightarrow> uint64"   \<comment> \<open>\<open>s0\<close> to \<open>s11\<close>\<close>

datatype procstate = UNUSED | USED | SLEEPING | RUNNABLE | RUNNING | ZOMBIE

record proc =
  p_state :: procstate
  p_chan :: "chan option"
  p_killed :: bool
  p_xstate :: uint
  p_pid :: uint
  p_parent :: "nat option"
  p_kstack :: uint64
  p_sz :: uint64
  p_pagetable :: uint64
  p_trapframe :: uint64
  p_context :: kcontext
  p_ofile :: "nat \<Rightarrow> nat option"   \<comment> \<open>indices into \<open>ftable\<close>\<close>
  p_cwd :: "nat option"   \<comment> \<open>index into \<open>itable\<close>\<close>
  p_name :: "uchar list"

record kproc = kvm +
  proc_tab :: "nat \<Rightarrow> proc"   \<comment> \<open>\<open>proc[NPROC]\<close>\<close>
  nextpid :: uint
  initproc :: "nat option"
  cpu_proc :: "nat option"   \<comment> \<open>\<open>mycpu()->proc\<close>\<close>
  ticks :: uint
  trampoline :: uint64   \<comment> \<open>address of trampoline.S, set by the linker\<close>
  forkret_pc :: uint64   \<comment> \<open>address of \<open>forkret\<close>\<close>

definition upd_proc :: "nat \<Rightarrow> (proc \<Rightarrow> proc) \<Rightarrow> 'a kproc_scheme \<Rightarrow> 'a kproc_scheme" where
  "upd_proc p f s = s\<lparr>proc_tab := (proc_tab s)(p := f (proc_tab s p))\<rparr>"

text \<open>Code that uses \<open>myproc()->...\<close>.\<close>

definition myproc :: "(nat \<Rightarrow> 'a kproc_scheme \<Rightarrow> ('b, 'a kproc_scheme) outcome)
    \<Rightarrow> 'a kproc_scheme \<Rightarrow> ('b, 'a kproc_scheme) outcome" where
  "myproc f s = (case cpu_proc s of None \<Rightarrow> null_deref | Some p \<Rightarrow> f p s)"

section \<open>Trapframes\<close>

text \<open>Offsets in \<open>struct trapframe\<close>; \<open>TF_A n\<close> is the one of register \<open>a<n>\<close>.\<close>

abbreviation (input) TF_SATP :: uint64 where "TF_SATP \<equiv> 0"
abbreviation (input) TF_KSP :: uint64 where "TF_KSP \<equiv> 8"
abbreviation (input) TF_KTRAP :: uint64 where "TF_KTRAP \<equiv> 16"
abbreviation (input) TF_EPC :: uint64 where "TF_EPC \<equiv> 24"
abbreviation (input) TF_HARTID :: uint64 where "TF_HARTID \<equiv> 32"
abbreviation (input) TF_SP :: uint64 where "TF_SP \<equiv> 48"

definition TF_A :: "nat \<Rightarrow> uint64" where
  "TF_A n = 112 + 8 * of_nat n"

definition tf_get :: "nat \<Rightarrow> uint64 \<Rightarrow> 'a kproc_scheme \<Rightarrow> uint64" where
  "tf_get p off s = load64 (mem s) (p_trapframe (proc_tab s p) + off)"

definition tf_set :: "nat \<Rightarrow> uint64 \<Rightarrow> uint64 \<Rightarrow> 'a kproc_scheme \<Rightarrow> 'a kproc_scheme" where
  "tf_set p off v s = s\<lparr>mem := store64 (mem s) (p_trapframe (proc_tab s p) + off) v\<rparr>"

section \<open>Allocation\<close>

definition procinit :: "'a kproc_scheme \<Rightarrow> 'a kproc_scheme" where
  "procinit s = s\<lparr>proc_tab := (\<lambda>p.
     if p < NPROC then (proc_tab s p)\<lparr>p_state := UNUSED, p_kstack := KSTACK p\<rparr>
     else proc_tab s p)\<rparr>"

definition allocpid :: "'a kproc_scheme \<Rightarrow> (uint, 'a kproc_scheme) outcome" where
  "allocpid s = Ret (nextpid s) (s\<lparr>nextpid := nextpid s + 1\<rparr>)"

definition proc_pagetable :: "nat \<Rightarrow> 'a kproc_scheme \<Rightarrow> (uint64, 'a kproc_scheme) outcome" where
  "proc_pagetable p s =
     bnd (uvmcreate s) (\<lambda>pt s.
     if pt = 0 then Ret 0 s
     else
       bnd (mappages pt TRAMPOLINE PGSIZE (trampoline s) (PTE_R OR PTE_X) s) (\<lambda>r s.
       if r < 0 then bnd (uvmfree pt 0 s) (\<lambda>_ s. Ret 0 s)
       else
         bnd (mappages pt TRAPFRAME PGSIZE (p_trapframe (proc_tab s p)) (PTE_R OR PTE_W) s) (\<lambda>r s.
         if r < 0 then
           bnd (uvmunmap pt TRAMPOLINE 1 False s) (\<lambda>_ s.
           bnd (uvmfree pt 0 s) (\<lambda>_ s. Ret 0 s))
         else Ret pt s)))"

definition proc_freepagetable ::
  "uint64 \<Rightarrow> uint64 \<Rightarrow> 'a kproc_scheme \<Rightarrow> (unit, 'a kproc_scheme) outcome" where
  "proc_freepagetable pagetable sz s =
     bnd (uvmunmap pagetable TRAMPOLINE 1 False s) (\<lambda>_ s.
     bnd (uvmunmap pagetable TRAPFRAME 1 False s) (\<lambda>_ s.
     uvmfree pagetable sz s))"

definition freeproc :: "nat \<Rightarrow> 'a kproc_scheme \<Rightarrow> (unit, 'a kproc_scheme) outcome" where
  "freeproc p s =
     bnd (if p_trapframe (proc_tab s p) \<noteq> 0 then kfree (p_trapframe (proc_tab s p)) s else Ret () s) (\<lambda>_ s.
     bnd (Ret () (upd_proc p (\<lambda>q. q\<lparr>p_trapframe := 0\<rparr>) s)) (\<lambda>_ s.
     bnd (if p_pagetable (proc_tab s p) \<noteq> 0
          then proc_freepagetable (p_pagetable (proc_tab s p)) (p_sz (proc_tab s p)) s else Ret () s) (\<lambda>_ s.
     Ret () (upd_proc p (\<lambda>q. q\<lparr>p_pagetable := 0, p_sz := 0, p_pid := 0, p_parent := None,
       p_name := (p_name q)[0 := 0], p_chan := None, p_killed := False, p_xstate := 0,
       p_state := UNUSED\<rparr>) s))))"

text \<open>\<open>allocproc\<close>: \<open>None\<close> is the null pointer.\<close>

definition allocproc :: "'a kproc_scheme \<Rightarrow> (nat option, 'a kproc_scheme) outcome" where
  "allocproc s =
     (case first_idx (\<lambda>p. p_state (proc_tab s p) = UNUSED) NPROC of
        None \<Rightarrow> Ret None s
      | Some p \<Rightarrow>
          bnd (allocpid s) (\<lambda>pid s.
          bnd (kalloc (upd_proc p (\<lambda>q. q\<lparr>p_pid := pid, p_state := USED\<rparr>) s)) (\<lambda>tf s.
          let s = upd_proc p (\<lambda>q. q\<lparr>p_trapframe := tf\<rparr>) s in
          if tf = 0 then bnd (freeproc p s) (\<lambda>_ s. Ret None s)
          else
            bnd (proc_pagetable p s) (\<lambda>pt s.
            let s = upd_proc p (\<lambda>q. q\<lparr>p_pagetable := pt\<rparr>) s in
            if pt = 0 then bnd (freeproc p s) (\<lambda>_ s. Ret None s)
            else
              Ret (Some p) (upd_proc p (\<lambda>q. q\<lparr>p_context :=
                \<lparr>ctx_ra = forkret_pc s, ctx_sp = p_kstack q + PGSIZE, ctx_s = (\<lambda>_. 0)\<rparr>\<rparr>) s)))))"

definition growproc :: "int \<Rightarrow> 'a kproc_scheme \<Rightarrow> (int, 'a kproc_scheme) outcome" where
  "growproc n = myproc (\<lambda>p s.
     let sz = p_sz (proc_tab s p); pt = p_pagetable (proc_tab s p) in
     if n > 0 then
       bnd (uvmalloc pt sz (sz + of_int n) PTE_W s) (\<lambda>r s.
       if r = 0 then Ret (-1) s else Ret 0 (upd_proc p (\<lambda>q. q\<lparr>p_sz := r\<rparr>) s))
     else if n < 0 then
       bnd (uvmdealloc pt sz (sz + of_int n) s) (\<lambda>r s. Ret 0 (upd_proc p (\<lambda>q. q\<lparr>p_sz := r\<rparr>) s))
     else Ret 0 (upd_proc p (\<lambda>q. q\<lparr>p_sz := sz\<rparr>) s))"

section \<open>Sleeping, waking, killing\<close>

text \<open>\<open>sleep\<close> up to its call of \<open>sched\<close>, and what it does when it is scheduled again.\<close>

definition sleep :: "chan \<Rightarrow> 'a kproc_scheme \<Rightarrow> ('b, 'a kproc_scheme) outcome" where
  "sleep c = myproc (\<lambda>p s. Sleep c (upd_proc p (\<lambda>q. q\<lparr>p_chan := Some c, p_state := SLEEPING\<rparr>) s))"

definition sleep_resume :: "nat \<Rightarrow> 'a kproc_scheme \<Rightarrow> 'a kproc_scheme" where
  "sleep_resume p s = upd_proc p (\<lambda>q. q\<lparr>p_chan := None\<rparr>) s"

definition wakeup :: "chan \<Rightarrow> 'a kproc_scheme \<Rightarrow> 'a kproc_scheme" where
  "wakeup c s = s\<lparr>proc_tab := (\<lambda>p.
     if p < NPROC \<and> cpu_proc s \<noteq> Some p \<and> p_state (proc_tab s p) = SLEEPING \<and> p_chan (proc_tab s p) = Some c
     then (proc_tab s p)\<lparr>p_state := RUNNABLE\<rparr> else proc_tab s p)\<rparr>"

definition kill :: "uint \<Rightarrow> 'a kproc_scheme \<Rightarrow> (int, 'a kproc_scheme) outcome" where
  "kill pid s =
     (case first_idx (\<lambda>p. p_pid (proc_tab s p) = pid) NPROC of
        None \<Rightarrow> Ret (-1) s
      | Some p \<Rightarrow> Ret 0 (upd_proc p (\<lambda>q.
          q\<lparr>p_killed := True, p_state := (if p_state q = SLEEPING then RUNNABLE else p_state q)\<rparr>) s))"

definition setkilled :: "nat \<Rightarrow> 'a kproc_scheme \<Rightarrow> 'a kproc_scheme" where
  "setkilled p s = upd_proc p (\<lambda>q. q\<lparr>p_killed := True\<rparr>) s"

definition killed :: "nat \<Rightarrow> 'a kproc_scheme \<Rightarrow> bool" where
  "killed p s = p_killed (proc_tab s p)"

definition reparent :: "nat \<Rightarrow> 'a kproc_scheme \<Rightarrow> 'a kproc_scheme" where
  "reparent p s = fold (\<lambda>pp s.
     if p_parent (proc_tab s pp) = Some p
     then case initproc s of
        None \<Rightarrow> upd_proc pp (\<lambda>q. q\<lparr>p_parent := None\<rparr>) s
      | Some i \<Rightarrow> wakeup (ChProc i) (upd_proc pp (\<lambda>q. q\<lparr>p_parent := Some i\<rparr>) s)
     else s) [0..<NPROC] s"

section \<open>The scheduler\<close>

text \<open>
  \<open>yield\<close> up to its call of \<open>sched\<close>; one iteration of the scheduler's inner loop at process
  \<open>p\<close>, where \<open>run p\<close> is what the process does from its \<open>swtch\<close> until the \<open>swtch\<close> back; and
  the inner loop, with the list of the processes that ran.
\<close>

definition yield :: "'a kproc_scheme \<Rightarrow> (unit, 'a kproc_scheme) outcome" where
  "yield = myproc (\<lambda>p s. Ret () (upd_proc p (\<lambda>q. q\<lparr>p_state := RUNNABLE\<rparr>) s))"

definition sched_slot ::
  "(nat \<Rightarrow> 'a kproc_scheme \<Rightarrow> 'a kproc_scheme) \<Rightarrow> nat \<Rightarrow> 'a kproc_scheme \<Rightarrow> bool \<times> 'a kproc_scheme" where
  "sched_slot run p s =
     (if p_state (proc_tab s p) = RUNNABLE
      then (True, (run p ((upd_proc p (\<lambda>q. q\<lparr>p_state := RUNNING\<rparr>) s)\<lparr>cpu_proc := Some p\<rparr>))\<lparr>cpu_proc := None\<rparr>)
      else (False, s))"

fun sched_scan ::
  "(nat \<Rightarrow> 'a kproc_scheme \<Rightarrow> 'a kproc_scheme) \<Rightarrow> nat list \<Rightarrow> 'a kproc_scheme \<Rightarrow> nat list \<times> 'a kproc_scheme" where
  "sched_scan run [] s = ([], s)"
| "sched_scan run (p # ps) s =
     (case sched_slot run p s of (b, s1) \<Rightarrow>
      case sched_scan run ps s1 of (rs, s2) \<Rightarrow> (if b then p # rs else rs, s2))"

definition scheduler_round ::
  "(nat \<Rightarrow> 'a kproc_scheme \<Rightarrow> 'a kproc_scheme) \<Rightarrow> 'a kproc_scheme \<Rightarrow> nat list \<times> 'a kproc_scheme" where
  "scheduler_round run s = sched_scan run [0..<NPROC] s"

section \<open>Copying to and from user or kernel memory\<close>

text \<open>
  The destination is a user virtual address, a kernel address, or a variable of the
  caller, which is given by the bytes written to it; likewise the source.
\<close>

datatype dest = UserDst uint64 | KernDst uint64 | LocalDst

datatype src = UserSrc uint64 | LocalSrc "uchar list"

definition either_copyout ::
  "dest \<Rightarrow> uchar list \<Rightarrow> 'a kproc_scheme \<Rightarrow> (int, 'a kproc_scheme) outcome" where
  "either_copyout d bs s =
     (case d of
        UserDst dst \<Rightarrow> myproc (\<lambda>p s. copyout (p_pagetable (proc_tab s p)) dst bs s) s
      | KernDst dst \<Rightarrow> Ret 0 (s\<lparr>mem := store_bytes (mem s) dst bs\<rparr>)
      | LocalDst \<Rightarrow> Ret 0 s)"

definition either_copyin ::
  "src \<Rightarrow> nat \<Rightarrow> 'a kproc_scheme \<Rightarrow> (int \<times> uchar list, 'a kproc_scheme) outcome" where
  "either_copyin d len s =
     (case d of
        UserSrc a \<Rightarrow> myproc (\<lambda>p s. copyin (p_pagetable (proc_tab s p)) a len s) s
      | LocalSrc bs \<Rightarrow> Ret (0, take len bs) s)"

fun dest_plus :: "dest \<Rightarrow> nat \<Rightarrow> dest" where
  "dest_plus (UserDst a) m = UserDst (a + of_nat m)"
| "dest_plus (KernDst a) m = KernDst (a + of_nat m)"
| "dest_plus LocalDst m = LocalDst"

fun src_plus :: "src \<Rightarrow> nat \<Rightarrow> src" where
  "src_plus (UserSrc a) m = UserSrc (a + of_nat m)"
| "src_plus (LocalSrc bs) m = LocalSrc (drop m bs)"

section \<open>Process listing\<close>

definition say :: "string \<Rightarrow> 'a machine_scheme \<Rightarrow> 'a machine_scheme" where
  "say t s = s\<lparr>kout := kout s @ t\<rparr>"

fun state_name :: "procstate \<Rightarrow> string" where
  "state_name UNUSED = ''unused''"
| "state_name USED = ''used''"
| "state_name SLEEPING = ''sleep ''"
| "state_name RUNNABLE = ''runble''"
| "state_name RUNNING = ''run   ''"
| "state_name ZOMBIE = ''zombie''"

definition bytes_str :: "uchar list \<Rightarrow> string" where
  "bytes_str bs = map (\<lambda>b. char_of (unat b)) (takeWhile (\<lambda>b. b \<noteq> 0) bs)"

definition proc_line :: "proc \<Rightarrow> string" where
  "proc_line q =
     the (kprintf ''%d %s %s'' [VInt (scast (p_pid q)), VStr (Some (state_name (p_state q))),
       VStr (Some (bytes_str (p_name q)))]) @ [CHR 0x0A]"

definition procdump :: "'a kproc_scheme \<Rightarrow> 'a kproc_scheme" where
  "procdump s = fold (\<lambda>p s.
     if p_state (proc_tab s p) = UNUSED then s else say (proc_line (proc_tab s p)) s)
     [0..<NPROC] (say [CHR 0x0A] s)"

section \<open>Sleep locks (sleeplock.c)\<close>

record sleeplock =
  sl_locked :: bool
  sl_pid :: uint

text \<open>
  The lock is passed and returned by value; \<open>c\<close> is the channel its address stands for.
  \<open>acquiresleep\<close> that has slept starts its loop again, with the value the lock has then.
\<close>

definition initsleeplock :: sleeplock where
  "initsleeplock = \<lparr>sl_locked = False, sl_pid = 0\<rparr>"

definition acquiresleep ::
  "chan \<Rightarrow> sleeplock \<Rightarrow> 'a kproc_scheme \<Rightarrow> (sleeplock, 'a kproc_scheme) outcome" where
  "acquiresleep c lk s =
     (if sl_locked lk then sleep c s
      else myproc (\<lambda>p s. Ret (lk\<lparr>sl_locked := True, sl_pid := p_pid (proc_tab s p)\<rparr>) s) s)"

definition releasesleep ::
  "chan \<Rightarrow> sleeplock \<Rightarrow> 'a kproc_scheme \<Rightarrow> (sleeplock, 'a kproc_scheme) outcome" where
  "releasesleep c lk s = Ret (lk\<lparr>sl_locked := False, sl_pid := 0\<rparr>) (wakeup c s)"

definition holdingsleep ::
  "sleeplock \<Rightarrow> 'a kproc_scheme \<Rightarrow> (bool, 'a kproc_scheme) outcome" where
  "holdingsleep lk s =
     (if sl_locked lk then myproc (\<lambda>p s. Ret (sl_pid lk = p_pid (proc_tab s p)) s) s else Ret False s)"

end
