(* ===== verification/Console.thy ===== *)
theory Console
  imports Proc
begin

text \<open>
  The serial port, kernel/uart.c, and the console on top of it, kernel/console.c. The
  device is an environment: \<open>lsr_tx\<close> are the answers it will give to reads of the
  transmit-idle bit of its line status register, \<open>rhr\<close> the bytes it has received, \<open>thr\<close> the
  bytes that were written to its transmit register. The 32-bit and 64-bit ring indices wrap
  around as in C.
\<close>

unbundle bit_operations_syntax

section \<open>State\<close>

datatype devfn = Consoleread | Consolewrite

record kcons = kproc +
  uart_cfg :: "(nat \<times> uchar) list"   \<comment> \<open>writes to the control registers\<close>
  uart_tx_buf :: "nat \<Rightarrow> uchar"
  uart_tx_w :: uint64
  uart_tx_r :: uint64
  lsr_tx :: "bool list"
  thr :: "uchar list"
  rhr :: "uchar list"
  cons_buf :: "nat \<Rightarrow> uchar"
  cons_r :: uint
  cons_w :: uint
  cons_e :: uint
  devsw_read :: "nat \<Rightarrow> devfn option"
  devsw_write :: "nat \<Rightarrow> devfn option"

abbreviation (input) UART_TX_BUF_SIZE :: uint64 where "UART_TX_BUF_SIZE \<equiv> 32"
abbreviation (input) INPUT_BUF_SIZE :: uint where "INPUT_BUF_SIZE \<equiv> 128"
abbreviation (input) BACKSPACE :: nat where "BACKSPACE \<equiv> 0x100"
abbreviation (input) CONSOLE :: nat where "CONSOLE \<equiv> 1"

section \<open>The serial port (uart.c)\<close>

definition uartinit :: "'a kcons_scheme \<Rightarrow> 'a kcons_scheme" where
  "uartinit s = s\<lparr>uart_cfg := uart_cfg s @
     [(1, 0x00), (3, 0x80), (0, 0x03), (1, 0x00), (3, 0x03), (2, 1 OR 6), (1, 2 OR 1)]\<rparr>"

text \<open>A read of the transmit-idle bit.\<close>

definition read_idle :: "'a kcons_scheme \<Rightarrow> bool \<times> 'a kcons_scheme" where
  "read_idle s = (case lsr_tx s of [] \<Rightarrow> (False, s) | b # bs \<Rightarrow> (b, s\<lparr>lsr_tx := bs\<rparr>))"

lemma read_idle_sel: "(b, s') = read_idle s \<Longrightarrow> uart_tx_w s' = uart_tx_w s \<and> uart_tx_r s' = uart_tx_r s"
  by (auto simp: read_idle_def split: list.splits)

lemma unat_pred: "w \<noteq> r \<Longrightarrow> unat (w - (r + 1)) < unat (w - r :: uint64)"
proof -
  assume "w \<noteq> r"
  then have "w - r \<noteq> 0" by simp
  then have "unat (w - r - 1) < unat (w - r)"
    by (metis unat_gt_0 diff_less unat_minus_one zero_less_one)
  then show ?thesis by (simp add: algebra_simps)
qed

lemma wakeup_uart [simp]:
  "uart_tx_w (wakeup c s) = uart_tx_w s" "uart_tx_r (wakeup c s) = uart_tx_r s"
  by (simp_all add: wakeup_def)

function uartstart :: "'a kcons_scheme \<Rightarrow> 'a kcons_scheme" where
  "uartstart s =
     (if uart_tx_w s = uart_tx_r s then s
      else case read_idle s of (idle, s1) \<Rightarrow>
        if \<not> idle then s1
        else
          let c = uart_tx_buf s1 (unat (uart_tx_r s1 mod UART_TX_BUF_SIZE));
              s2 = wakeup ChUart (s1\<lparr>uart_tx_r := uart_tx_r s1 + 1\<rparr>)
          in uartstart (s2\<lparr>thr := thr s2 @ [c]\<rparr>))"
  by pat_completeness auto
termination
  by (relation "measure (\<lambda>s. unat (uart_tx_w s - uart_tx_r s))") (auto simp: unat_pred dest!: read_idle_sel)

declare uartstart.simps [simp del]

definition uartputc :: "uchar \<Rightarrow> 'a kcons_scheme \<Rightarrow> (unit, 'a kcons_scheme) outcome" where
  "uartputc c s =
     (if uart_tx_w s = uart_tx_r s + UART_TX_BUF_SIZE then sleep ChUart s
      else Ret () (uartstart (s\<lparr>
        uart_tx_buf := (uart_tx_buf s)(unat (uart_tx_w s mod UART_TX_BUF_SIZE) := c),
        uart_tx_w := uart_tx_w s + 1\<rparr>)))"

text \<open>The loop of \<open>uartputc_sync\<close> that waits for the idle bit; \<open>None\<close> if it never is set.\<close>

fun wait_idle :: "bool list \<Rightarrow> bool list option" where
  "wait_idle [] = None"
| "wait_idle (b # bs) = (if b then Some bs else wait_idle bs)"

definition uartputc_sync :: "uchar \<Rightarrow> 'a kcons_scheme \<Rightarrow> (unit, 'a kcons_scheme) outcome" where
  "uartputc_sync c s =
     (case wait_idle (lsr_tx s) of
        None \<Rightarrow> Hang
      | Some bs \<Rightarrow> Ret () (s\<lparr>lsr_tx := bs, thr := thr s @ [c]\<rparr>))"

definition uartgetc :: "'a kcons_scheme \<Rightarrow> uchar option \<times> 'a kcons_scheme" where
  "uartgetc s = (case rhr s of [] \<Rightarrow> (None, s) | c # cs \<Rightarrow> (Some c, s\<lparr>rhr := cs\<rparr>))"

section \<open>The console (console.c)\<close>

definition consputc :: "nat \<Rightarrow> 'a kcons_scheme \<Rightarrow> (unit, 'a kcons_scheme) outcome" where
  "consputc c s =
     (if c = BACKSPACE then
        bnd (uartputc_sync 8 s) (\<lambda>_ s. bnd (uartputc_sync 32 s) (\<lambda>_ s. uartputc_sync 8 s))
      else uartputc_sync (of_nat c) s)"

fun consolewrite_loop ::
  "nat \<Rightarrow> nat \<Rightarrow> src \<Rightarrow> 'a kcons_scheme \<Rightarrow> (int, 'a kcons_scheme) outcome" where
  "consolewrite_loop 0 i src s = Ret (int i) s"
| "consolewrite_loop (Suc k) i src s =
     bnd (either_copyin src 1 s) (\<lambda>(r, bs) s.
     if r = -1 then Ret (int i) s
     else bnd (uartputc (hd bs) s) (\<lambda>_ s. consolewrite_loop k (Suc i) (src_plus src 1) s))"

definition consolewrite :: "src \<Rightarrow> int \<Rightarrow> 'a kcons_scheme \<Rightarrow> (int, 'a kcons_scheme) outcome" where
  "consolewrite src n s = consolewrite_loop (nat n) 0 src s"

text \<open>The loop of \<open>consoleread\<close>; \<open>k\<close> is the C variable \<open>n\<close>, counting down from \<open>target\<close>.\<close>

fun consoleread_loop ::
  "nat \<Rightarrow> nat \<Rightarrow> dest \<Rightarrow> 'a kcons_scheme \<Rightarrow> (int, 'a kcons_scheme) outcome" where
  "consoleread_loop target 0 dst s = Ret (int target) s"
| "consoleread_loop target (Suc k) dst s =
     (if cons_r s = cons_w s then
        myproc (\<lambda>p s. if killed p s then Ret (-1) s else sleep ChCons s) s
      else
        let c = cons_buf s (unat (cons_r s mod INPUT_BUF_SIZE));
            s = s\<lparr>cons_r := cons_r s + 1\<rparr>
        in
        if c = 4 then
          Ret (int target - int (Suc k)) (if Suc k < target then s\<lparr>cons_r := cons_r s - 1\<rparr> else s)
        else
          bnd (either_copyout dst [c] s) (\<lambda>r s.
          if r = -1 then Ret (int target - int (Suc k)) s
          else if c = 10 then Ret (int target - int k) s
          else consoleread_loop target k (dest_plus dst 1) s))"

definition consoleread :: "dest \<Rightarrow> int \<Rightarrow> 'a kcons_scheme \<Rightarrow> (int, 'a kcons_scheme) outcome" where
  "consoleread dst n s =
     (if n \<le> 0 then Ret 0 s else consoleread_loop (nat n) (nat n) dst s)"

text \<open>The loop of the kill character.\<close>

lemma uartputc_sync_cons:
  "uartputc_sync c s = Ret u s' \<Longrightarrow> cons_e s' = cons_e s \<and> cons_w s' = cons_w s \<and> rhr s' = rhr s"
  by (auto simp: uartputc_sync_def split: option.splits)

lemma consputc_cons:
  "consputc c s = Ret u s' \<Longrightarrow> cons_e s' = cons_e s \<and> cons_w s' = cons_w s \<and> rhr s' = rhr s"
  by (auto simp: consputc_def dest!: uartputc_sync_cons split: if_splits)

lemma unat_back: "e \<noteq> w \<Longrightarrow> unat (e - 1 - w) < unat (e - w :: uint)"
proof -
  assume "e \<noteq> w"
  then have "e - w \<noteq> 0" by simp
  then have "unat (e - w - 1) < unat (e - w)"
    by (metis unat_gt_0 diff_less unat_minus_one zero_less_one)
  then show ?thesis by (simp add: algebra_simps)
qed

function kill_line :: "'a kcons_scheme \<Rightarrow> (unit, 'a kcons_scheme) outcome" where
  "kill_line s =
     (if cons_e s \<noteq> cons_w s \<and> cons_buf s (unat ((cons_e s - 1) mod INPUT_BUF_SIZE)) \<noteq> 10
      then bnd (consputc BACKSPACE (s\<lparr>cons_e := cons_e s - 1\<rparr>)) (\<lambda>_ s. kill_line s)
      else Ret () s)"
  by pat_completeness auto
termination
  by (relation "measure (\<lambda>s. unat (cons_e s - cons_w s))") (auto dest!: consputc_cons intro: unat_back)

declare kill_line.simps [simp del]

text \<open>The default case of \<open>consoleintr\<close>: echo the character, store it, pass a whole line on.\<close>

definition cons_store :: "uchar \<Rightarrow> 'a kcons_scheme \<Rightarrow> 'a kcons_scheme" where
  "cons_store c s =
     (let s = s\<lparr>cons_buf := (cons_buf s)(unat (cons_e s mod INPUT_BUF_SIZE) := c), cons_e := cons_e s + 1\<rparr> in
      if c = 10 \<or> c = 4 \<or> cons_e s - cons_r s = INPUT_BUF_SIZE
      then wakeup ChCons (s\<lparr>cons_w := cons_e s\<rparr>) else s)"

definition cons_input :: "uchar \<Rightarrow> 'a kcons_scheme \<Rightarrow> (unit, 'a kcons_scheme) outcome" where
  "cons_input c s =
     (if c \<noteq> 0 \<and> cons_e s - cons_r s < INPUT_BUF_SIZE then
        let c = (if c = 13 then 10 else c) in
        bnd (consputc (unat c) s) (\<lambda>_ s. Ret () (cons_store c s))
      else Ret () s)"

definition consoleintr :: "uchar \<Rightarrow> 'a kcons_scheme \<Rightarrow> (unit, 'a kcons_scheme) outcome" where
  "consoleintr c s =
     (if c = 16 then Ret () (procdump s)
      else if c = 21 then kill_line s
      else if c = 8 \<or> c = 0x7f then
        (if cons_e s \<noteq> cons_w s then consputc BACKSPACE (s\<lparr>cons_e := cons_e s - 1\<rparr>) else Ret () s)
      else cons_input c s)"

definition consoleinit :: "'a kcons_scheme \<Rightarrow> 'a kcons_scheme" where
  "consoleinit s = (let s = uartinit s in
     s\<lparr>devsw_read := (devsw_read s)(CONSOLE \<mapsto> Consoleread),
       devsw_write := (devsw_write s)(CONSOLE \<mapsto> Consolewrite)\<rparr>)"

lemma wakeup_rhr [simp]: "rhr (wakeup c s) = rhr s"
  by (simp add: wakeup_def)

lemma kill_line_rhr: "kill_line s = Ret u s' \<Longrightarrow> rhr s' = rhr s"
proof (induction s rule: kill_line.induct)
  case (1 s)
  show ?case
  proof (cases "cons_e s \<noteq> cons_w s \<and> cons_buf s (unat ((cons_e s - 1) mod INPUT_BUF_SIZE)) \<noteq> 10")
    case True
    then obtain u1 s1 where s1: "consputc BACKSPACE (s\<lparr>cons_e := cons_e s - 1\<rparr>) = Ret u1 s1" "kill_line s1 = Ret u s'"
      using "1.prems" by (subst (asm) kill_line.simps) auto
    then show ?thesis using "1.IH" [OF True] consputc_cons [OF s1(1)] by simp
  next
    case False
    then show ?thesis using "1.prems" by (subst (asm) kill_line.simps) auto
  qed
qed

lemma procdump_rhr [simp]: "rhr (procdump s) = rhr s"
proof -
  have "rhr (fold (\<lambda>p s. if p_state (proc_tab s p) = UNUSED then s else say (proc_line (proc_tab s p)) s) ps s) = rhr s"
    for ps and s :: "'a kcons_scheme"
    by (induction ps arbitrary: s) (auto simp: say_def)
  then show ?thesis by (simp add: procdump_def say_def)
qed

lemma cons_store_rhr [simp]: "rhr (cons_store c s) = rhr s"
  by (simp add: cons_store_def Let_def)

lemma cons_input_rhr: "cons_input c s = Ret u s' \<Longrightarrow> rhr s' = rhr s"
  by (auto simp: cons_input_def Let_def dest!: consputc_cons split: if_split_asm)

lemma consoleintr_rhr: "consoleintr c s = Ret u s' \<Longrightarrow> rhr s' = rhr s"
  by (auto simp: consoleintr_def dest!: consputc_cons kill_line_rhr cons_input_rhr split: if_split_asm)

text \<open>\<open>uartintr\<close>: every received byte goes to the console, then output is started.\<close>

function uartintr_loop :: "'a kcons_scheme \<Rightarrow> (unit, 'a kcons_scheme) outcome" where
  "uartintr_loop s =
     (case uartgetc s of
        (None, s) \<Rightarrow> Ret () s
      | (Some c, s) \<Rightarrow> bnd (consoleintr c s) (\<lambda>_ s. uartintr_loop s))"
  by pat_completeness auto
termination
  by (relation "measure (\<lambda>s. length (rhr s))")
     (auto simp: uartgetc_def dest!: consoleintr_rhr split: list.splits)

declare uartintr_loop.simps [simp del]

definition uartintr :: "'a kcons_scheme \<Rightarrow> (unit, 'a kcons_scheme) outcome" where
  "uartintr s = bnd (uartintr_loop s) (\<lambda>_ s. Ret () (uartstart s))"

end
