(* ===== verification/Virtio.thy ===== *)
theory Virtio
  imports Console
begin

text \<open>
  The disk driver, kernel/virtio_disk.c: the descriptor table, the ring of requests for the
  device (\<open>avail\<close>) and the ring of finished requests (\<open>used\<close>). The ring indices are 16-bit
  counters that wrap around. \<open>vq_used_idx\<close> and \<open>vq_used_ring\<close> are written by the device,
  the other parts by the driver; addresses in descriptors name the object they point to.
\<close>

unbundle bit_operations_syntax

section \<open>State (virtio.h, struct disk)\<close>

abbreviation (input) NUM :: nat where "NUM \<equiv> 8"
abbreviation (input) VRING_DESC_F_NEXT :: ushort where "VRING_DESC_F_NEXT \<equiv> 1"
abbreviation (input) VRING_DESC_F_WRITE :: ushort where "VRING_DESC_F_WRITE \<equiv> 2"

datatype vaddr = VNull | VReq nat | VData nat | VStatus nat

record vdesc =
  vd_addr :: vaddr
  vd_len :: uint
  vd_flags :: ushort
  vd_next :: ushort

record vreq =
  vr_type :: uint
  vr_reserved :: uint
  vr_sector :: uint64

record kvd = kcons +
  vq_desc :: "nat \<Rightarrow> vdesc"
  vq_avail_ring :: "nat \<Rightarrow> ushort"
  vq_avail_idx :: ushort
  vq_used_ring :: "nat \<Rightarrow> uint"   \<comment> \<open>the \<open>id\<close> of each entry\<close>
  vq_used_idx :: ushort
  vq_free :: "nat \<Rightarrow> bool"
  vq_seen :: ushort   \<comment> \<open>\<open>disk.used_idx\<close>\<close>
  vq_info_b :: "nat \<Rightarrow> nat option"
  vq_status :: "nat \<Rightarrow> uchar"   \<comment> \<open>\<open>disk.info[i].status\<close>\<close>
  vq_ops :: "nat \<Rightarrow> vreq"
  buf_disk :: "nat \<Rightarrow> bool"   \<comment> \<open>\<open>b->disk\<close> of every buffer\<close>
  mmio_w :: "(nat \<times> uint) list"   \<comment> \<open>writes to the device registers\<close>

definition mmio_write :: "nat \<Rightarrow> uint \<Rightarrow> 'a kvd_scheme \<Rightarrow> 'a kvd_scheme" where
  "mmio_write r v s = s\<lparr>mmio_w := mmio_w s @ [(r, v)]\<rparr>"

section \<open>Initialisation\<close>

text \<open>
  \<open>rd\<close> gives the value that a read of each register returns; the status register is read once,
  after the features are set.
\<close>

definition negotiate :: "uint \<Rightarrow> uint64" where
  "negotiate features =
     fold (\<lambda>b f. f AND NOT (push_bit b 1)) [5, 7, 11, 12, 27, 29, 28] (ucast features :: uint64)"

definition virtio_disk_init :: "(nat \<Rightarrow> uint) \<Rightarrow> 'a kvd_scheme \<Rightarrow> (unit, 'a kvd_scheme) outcome" where
  "virtio_disk_init rd s =
     (if rd 0x000 \<noteq> 0x74726976 \<or> rd 0x004 \<noteq> 2 \<or> rd 0x008 \<noteq> 2 \<or> rd 0x00c \<noteq> 0x554d4551
      then Panic ''could not find virtio disk''
      else
        let s = mmio_write 0x070 0 s;
            s = mmio_write 0x070 1 s;
            s = mmio_write 0x070 (1 OR 2) s;
            s = mmio_write 0x020 (ucast (negotiate (rd 0x010))) s;
            s = mmio_write 0x070 (1 OR 2 OR 8) s
        in
        if rd 0x070 AND 8 = 0 then Panic ''virtio disk FEATURES_OK unset''
        else
          let s = mmio_write 0x030 0 s in
          if rd 0x044 \<noteq> 0 then Panic ''virtio disk should not be ready''
          else if rd 0x034 = 0 then Panic ''virtio disk has no queue 0''
          else if rd 0x034 < of_nat NUM then Panic ''virtio disk max queue too short''
          else
            bnd (kalloc s) (\<lambda>desc s.
            bnd (kalloc s) (\<lambda>avail s.
            bnd (kalloc s) (\<lambda>used s.
            if desc = 0 \<or> avail = 0 \<or> used = 0 then Panic ''virtio disk kalloc''
            else
              let m = memset (memset (memset (mem s) desc 0 4096) avail 0 4096) used 0 4096;
                  s = s\<lparr>mem := m,
                        vq_desc := (\<lambda>_. \<lparr>vd_addr = VNull, vd_len = 0, vd_flags = 0, vd_next = 0\<rparr>),
                        vq_avail_ring := (\<lambda>_. 0), vq_avail_idx := 0,
                        vq_used_ring := (\<lambda>_. 0), vq_used_idx := 0\<rparr>;
                  s = mmio_write 0x038 (of_nat NUM) s;
                  s = mmio_write 0x080 (ucast desc) s;
                  s = mmio_write 0x084 (ucast (drop_bit 32 desc)) s;
                  s = mmio_write 0x090 (ucast avail) s;
                  s = mmio_write 0x094 (ucast (drop_bit 32 avail)) s;
                  s = mmio_write 0x0a0 (ucast used) s;
                  s = mmio_write 0x0a4 (ucast (drop_bit 32 used)) s;
                  s = mmio_write 0x044 1 s;
                  s = s\<lparr>vq_free := (\<lambda>i. if i < NUM then True else vq_free s i)\<rparr>
              in Ret () (mmio_write 0x070 (rd 0x070 OR 4) s)))))"

section \<open>Descriptors\<close>

definition alloc_desc :: "'a kvd_scheme \<Rightarrow> nat option \<times> 'a kvd_scheme" where
  "alloc_desc s =
     (case first_idx (vq_free s) NUM of
        None \<Rightarrow> (None, s)
      | Some i \<Rightarrow> (Some i, s\<lparr>vq_free := (vq_free s)(i := False)\<rparr>))"

definition free_desc :: "nat \<Rightarrow> 'a kvd_scheme \<Rightarrow> (unit, 'a kvd_scheme) outcome" where
  "free_desc i s =
     (if i \<ge> NUM then Panic ''free_desc 1''
      else if vq_free s i then Panic ''free_desc 2''
      else Ret () (wakeup ChDisk (s\<lparr>
        vq_desc := (vq_desc s)(i := \<lparr>vd_addr = VNull, vd_len = 0, vd_flags = 0, vd_next = 0\<rparr>),
        vq_free := (vq_free s)(i := True)\<rparr>)))"

lemma free_desc_frees:
  "free_desc i s = Ret u s' \<Longrightarrow> i < NUM \<and> \<not> vq_free s i \<and> vq_free s' = (vq_free s)(i := True)"
  by (auto simp: free_desc_def wakeup_def split: if_splits)

text \<open>Every round of the loop frees a descriptor that was in use, so it ends.\<close>

function free_chain :: "nat \<Rightarrow> 'a kvd_scheme \<Rightarrow> (unit, 'a kvd_scheme) outcome" where
  "free_chain i s =
     (let flag = vd_flags (vq_desc s i); nxt = vd_next (vq_desc s i) in
      bnd (free_desc i s) (\<lambda>_ s.
      if flag AND VRING_DESC_F_NEXT \<noteq> 0 then free_chain (unat nxt) s else Ret () s))"
  by pat_completeness auto
termination
proof (relation "measure (\<lambda>(i, s). card {j. j < NUM \<and> \<not> vq_free s j})", simp, goal_cases)
  case (1 i s x xa u s')
  have "{j. j < NUM \<and> \<not> vq_free s' j} \<subset> {j. j < NUM \<and> \<not> vq_free s j}"
    using free_desc_frees [OF 1(3)] by auto
  then show ?case by (simp add: psubset_card_mono)
qed

declare free_chain.simps [simp del]

fun free_descs :: "nat list \<Rightarrow> 'a kvd_scheme \<Rightarrow> (unit, 'a kvd_scheme) outcome" where
  "free_descs [] s = Ret () s"
| "free_descs (i # is) s = bnd (free_desc i s) (\<lambda>_ s. free_descs is s)"

text \<open>The loop of \<open>alloc3_desc\<close> with \<open>k\<close> descriptors to go; \<open>None\<close> is its result \<open>-1\<close>.\<close>

fun alloc_descs :: "nat \<Rightarrow> nat list \<Rightarrow> 'a kvd_scheme \<Rightarrow> (nat list option, 'a kvd_scheme) outcome" where
  "alloc_descs 0 idx s = Ret (Some idx) s"
| "alloc_descs (Suc k) idx s =
     (case alloc_desc s of
        (None, s) \<Rightarrow> bnd (free_descs idx s) (\<lambda>_ s. Ret None s)
      | (Some i, s) \<Rightarrow> alloc_descs k (idx @ [i]) s)"

definition alloc3_desc :: "'a kvd_scheme \<Rightarrow> (nat list option, 'a kvd_scheme) outcome" where
  "alloc3_desc s = alloc_descs 3 [] s"

section \<open>Requests\<close>

definition set_desc :: "nat \<Rightarrow> vaddr \<Rightarrow> uint \<Rightarrow> ushort \<Rightarrow> ushort \<Rightarrow> 'a kvd_scheme \<Rightarrow> 'a kvd_scheme" where
  "set_desc i a len fl nxt s =
     s\<lparr>vq_desc := (vq_desc s)(i := \<lparr>vd_addr = a, vd_len = len, vd_flags = fl, vd_next = nxt\<rparr>)\<rparr>"

text \<open>\<open>virtio_disk_rw\<close> from the formatting of the three descriptors to the notification.\<close>

definition virtio_send :: "nat \<Rightarrow> uint \<Rightarrow> bool \<Rightarrow> nat \<Rightarrow> nat \<Rightarrow> nat \<Rightarrow> 'a kvd_scheme \<Rightarrow> 'a kvd_scheme" where
  "virtio_send b blockno write i0 i1 i2 s =
     (let s = s\<lparr>vq_ops := (vq_ops s)(i0 :=
                \<lparr>vr_type = (if write then 1 else 0), vr_reserved = 0, vr_sector = ucast (blockno * 2)\<rparr>)\<rparr>;
          s = set_desc i0 (VReq i0) 16 VRING_DESC_F_NEXT (of_nat i1) s;
          s = set_desc i1 (VData b) 1024
                ((if write then 0 else VRING_DESC_F_WRITE) OR VRING_DESC_F_NEXT) (of_nat i2) s;
          s = s\<lparr>vq_status := (vq_status s)(i0 := 0xff)\<rparr>;
          s = set_desc i2 (VStatus i0) 1 VRING_DESC_F_WRITE 0 s;
          s = s\<lparr>buf_disk := (buf_disk s)(b := True), vq_info_b := (vq_info_b s)(i0 \<mapsto> b)\<rparr>;
          s = s\<lparr>vq_avail_ring := (vq_avail_ring s)(unat (vq_avail_idx s mod 8) := of_nat i0),
                vq_avail_idx := vq_avail_idx s + 1\<rparr>
      in mmio_write 0x050 0 s)"

text \<open>
  The two halves of \<open>virtio_disk_rw\<close>: until the request is sent, which gives the head of the
  chain, and from the loop that waits for the interrupt.
\<close>

definition virtio_start :: "nat \<Rightarrow> uint \<Rightarrow> bool \<Rightarrow> 'a kvd_scheme \<Rightarrow> (nat, 'a kvd_scheme) outcome" where
  "virtio_start b blockno write s =
     bnd (alloc3_desc s) (\<lambda>r s.
     case r of
       None \<Rightarrow> sleep ChDisk s
     | Some idx \<Rightarrow> Ret (idx ! 0) (virtio_send b blockno write (idx ! 0) (idx ! 1) (idx ! 2) s))"

definition virtio_finish :: "nat \<Rightarrow> nat \<Rightarrow> 'a kvd_scheme \<Rightarrow> (unit, 'a kvd_scheme) outcome" where
  "virtio_finish b i0 s =
     (if buf_disk s b then sleep (ChDiskBuf b) s
      else free_chain i0 (s\<lparr>vq_info_b := (vq_info_b s)(i0 := None)\<rparr>))"

section \<open>Completion\<close>

lemma unat_ring: "u \<noteq> v \<Longrightarrow> unat (v - (u + 1)) < unat (v - u :: ushort)"
proof -
  assume "u \<noteq> v"
  then have "v - u \<noteq> 0" by simp
  then have "unat (v - u - 1) < unat (v - u)"
    by (metis unat_gt_0 diff_less unat_minus_one zero_less_one)
  then show ?thesis by (simp add: algebra_simps)
qed

lemma wakeup_vq [simp]: "vq_seen (wakeup c s) = vq_seen s" "vq_used_idx (wakeup c s) = vq_used_idx s"
  by (simp_all add: wakeup_def)

function intr_loop :: "'a kvd_scheme \<Rightarrow> (unit, 'a kvd_scheme) outcome" where
  "intr_loop s =
     (if vq_seen s \<noteq> vq_used_idx s then
        let i = unat (vq_used_ring s (unat (vq_seen s mod 8))) in
        if vq_status s i \<noteq> 0 then Panic ''virtio_disk_intr status''
        else case vq_info_b s i of
          None \<Rightarrow> null_deref
        | Some b \<Rightarrow>
            let s1 = wakeup (ChDiskBuf b) (s\<lparr>buf_disk := (buf_disk s)(b := False)\<rparr>) in
            intr_loop (s1\<lparr>vq_seen := vq_seen s1 + 1\<rparr>)
      else Ret () s)"
  by pat_completeness auto
termination
  by (relation "measure (\<lambda>s. unat (vq_used_idx s - vq_seen s))") (auto simp: unat_ring)

declare intr_loop.simps [simp del]

text \<open>\<open>status\<close>: what the interrupt status register reads.\<close>

definition virtio_disk_intr :: "uint \<Rightarrow> 'a kvd_scheme \<Rightarrow> (unit, 'a kvd_scheme) outcome" where
  "virtio_disk_intr status s = intr_loop (mmio_write 0x064 (status AND 3) s)"

end
