(* ===== verification/Bio.thy ===== *)
theory Bio
  imports Virtio
begin

text \<open>
  The buffer cache, kernel/bio.c. A pointer to a buffer is its index in \<open>bcache.buf\<close>, and
  \<open>HEAD\<close> stands for \<open>&bcache.head\<close>; the list of buffers is threaded through \<open>prev\<close> and \<open>next\<close>
  as in C.

  The disk is a map from block numbers to blocks, and \<open>dwrites\<close> is the history of the
  blocks written to it. \<open>virtio_disk_rw\<close> (kernel/virtio_disk.c) is represented here by the
  effect of the whole request, which it waits for.
\<close>

section \<open>State\<close>

record buf =
  b_valid :: bool
  b_dev :: uint
  b_blockno :: uint
  b_lock :: sleeplock
  b_refcnt :: uint
  b_prev :: nat
  b_next :: nat
  b_data :: "uchar list"

abbreviation (input) HEAD :: nat where "HEAD \<equiv> NBUF"
abbreviation (input) BSIZE :: nat where "BSIZE \<equiv> 1024"

record kbio = kvd +
  bcache :: "nat \<Rightarrow> buf"
  disk :: "uint \<Rightarrow> uchar list"
  dwrites :: "(uint \<times> uchar list) list"   \<comment> \<open>oldest first\<close>

definition upd_buf :: "nat \<Rightarrow> (buf \<Rightarrow> buf) \<Rightarrow> 'a kbio_scheme \<Rightarrow> 'a kbio_scheme" where
  "upd_buf b f s = s\<lparr>bcache := (bcache s)(b := f (bcache s b))\<rparr>"

definition virtio_disk_rw :: "nat \<Rightarrow> bool \<Rightarrow> 'a kbio_scheme \<Rightarrow> 'a kbio_scheme" where
  "virtio_disk_rw b write s =
     (let n = b_blockno (bcache s b) in
      if write then s\<lparr>disk := (disk s)(n := b_data (bcache s b)), dwrites := dwrites s @ [(n, b_data (bcache s b))]\<rparr>
      else upd_buf b (\<lambda>x. x\<lparr>b_data := disk s n\<rparr>) s)"

section \<open>Operations\<close>

definition binit_step :: "nat \<Rightarrow> (nat \<Rightarrow> buf) \<Rightarrow> (nat \<Rightarrow> buf)" where
  "binit_step b bc =
     (let bc = bc(b := (bc b)\<lparr>b_next := b_next (bc HEAD), b_prev := HEAD, b_lock := initsleeplock\<rparr>);
          bc = bc(b_next (bc HEAD) := (bc (b_next (bc HEAD)))\<lparr>b_prev := b\<rparr>)
      in bc(HEAD := (bc HEAD)\<lparr>b_next := b\<rparr>))"

definition binit :: "'a kbio_scheme \<Rightarrow> 'a kbio_scheme" where
  "binit s = s\<lparr>bcache := fold binit_step [0..<NBUF]
     ((bcache s)(HEAD := (bcache s HEAD)\<lparr>b_prev := HEAD, b_next := HEAD\<rparr>))\<rparr>"

text \<open>
  The loops \<open>for(b = ...; b != &bcache.head; b = b->next)\<close> (or \<open>b->prev\<close>) that look for a
  buffer: \<open>Some None\<close> when the loop ends at the head. A list that never comes back to the
  head is an endless loop, the value \<open>None\<close>.
\<close>

partial_function (option) scan_bufs :: "(nat \<Rightarrow> nat) \<Rightarrow> (nat \<Rightarrow> bool) \<Rightarrow> nat \<Rightarrow> nat option option" where
  "scan_bufs nxt P b =
     (if b = HEAD then Some None else if P b then Some (Some b) else scan_bufs nxt P (nxt b))"

definition lock_buf :: "nat \<Rightarrow> 'a kbio_scheme \<Rightarrow> (nat, 'a kbio_scheme) outcome" where
  "lock_buf b s =
     bnd (acquiresleep (ChBuf b) (b_lock (bcache s b)) s) (\<lambda>lk s.
     Ret b (upd_buf b (\<lambda>x. x\<lparr>b_lock := lk\<rparr>) s))"

definition bget :: "uint \<Rightarrow> uint \<Rightarrow> 'a kbio_scheme \<Rightarrow> (nat, 'a kbio_scheme) outcome" where
  "bget dev blockno s =
     (let bc = bcache s in
      case scan_bufs (\<lambda>b. b_next (bc b)) (\<lambda>b. b_dev (bc b) = dev \<and> b_blockno (bc b) = blockno) (b_next (bc HEAD)) of
        None \<Rightarrow> Hang
      | Some (Some b) \<Rightarrow> lock_buf b (upd_buf b (\<lambda>x. x\<lparr>b_refcnt := b_refcnt x + 1\<rparr>) s)
      | Some None \<Rightarrow>
         (case scan_bufs (\<lambda>b. b_prev (bc b)) (\<lambda>b. b_refcnt (bc b) = 0) (b_prev (bc HEAD)) of
            None \<Rightarrow> Hang
          | Some (Some b) \<Rightarrow> lock_buf b (upd_buf b (\<lambda>x.
              x\<lparr>b_dev := dev, b_blockno := blockno, b_valid := False, b_refcnt := 1\<rparr>) s)
          | Some None \<Rightarrow> Panic ''bget: no buffers''))"

definition bread :: "uint \<Rightarrow> uint \<Rightarrow> 'a kbio_scheme \<Rightarrow> (nat, 'a kbio_scheme) outcome" where
  "bread dev blockno s =
     bnd (bget dev blockno s) (\<lambda>b s.
     if \<not> b_valid (bcache s b)
     then Ret b (upd_buf b (\<lambda>x. x\<lparr>b_valid := True\<rparr>) (virtio_disk_rw b False s))
     else Ret b s)"

definition bwrite :: "nat \<Rightarrow> 'a kbio_scheme \<Rightarrow> (unit, 'a kbio_scheme) outcome" where
  "bwrite b s =
     bnd (holdingsleep (b_lock (bcache s b)) s) (\<lambda>h s.
     if \<not> h then Panic ''bwrite'' else Ret () (virtio_disk_rw b True s))"

text \<open>The list surgery of \<open>brelse\<close>: unlink \<open>b\<close>, put it behind the head.\<close>

definition move_front :: "nat \<Rightarrow> (nat \<Rightarrow> buf) \<Rightarrow> (nat \<Rightarrow> buf)" where
  "move_front b bc =
     (let bc = bc(b_next (bc b) := (bc (b_next (bc b)))\<lparr>b_prev := b_prev (bc b)\<rparr>);
          bc = bc(b_prev (bc b) := (bc (b_prev (bc b)))\<lparr>b_next := b_next (bc b)\<rparr>);
          bc = bc(b := (bc b)\<lparr>b_next := b_next (bc HEAD)\<rparr>);
          bc = bc(b := (bc b)\<lparr>b_prev := HEAD\<rparr>);
          bc = bc(b_next (bc HEAD) := (bc (b_next (bc HEAD)))\<lparr>b_prev := b\<rparr>)
      in bc(HEAD := (bc HEAD)\<lparr>b_next := b\<rparr>))"

definition brelse :: "nat \<Rightarrow> 'a kbio_scheme \<Rightarrow> (unit, 'a kbio_scheme) outcome" where
  "brelse b s =
     bnd (holdingsleep (b_lock (bcache s b)) s) (\<lambda>h s.
     if \<not> h then Panic ''brelse''
     else
       bnd (releasesleep (ChBuf b) (b_lock (bcache s b)) s) (\<lambda>lk s.
       let s = upd_buf b (\<lambda>x. x\<lparr>b_lock := lk, b_refcnt := b_refcnt x - 1\<rparr>) s in
       Ret () (if b_refcnt (bcache s b) = 0 then s\<lparr>bcache := move_front b (bcache s)\<rparr> else s)))"

definition bpin :: "nat \<Rightarrow> 'a kbio_scheme \<Rightarrow> 'a kbio_scheme" where
  "bpin b s = upd_buf b (\<lambda>x. x\<lparr>b_refcnt := b_refcnt x + 1\<rparr>) s"

definition bunpin :: "nat \<Rightarrow> 'a kbio_scheme \<Rightarrow> 'a kbio_scheme" where
  "bunpin b s = upd_buf b (\<lambda>x. x\<lparr>b_refcnt := b_refcnt x - 1\<rparr>) s"

end
