(* ===== verification/Log.thy ===== *)
theory Log
  imports Bio
begin

text \<open>
  The write-ahead log, kernel/log.c. A system call runs between \<open>begin_op\<close> and \<open>end_op\<close>;
  \<open>log_write\<close> records the blocks it changes, and the last \<open>end_op\<close> commits them together.
\<close>

section \<open>Words in blocks\<close>

definition get32 :: "uchar list \<Rightarrow> nat \<Rightarrow> uint" where
  "get32 bs off = le_word (take 4 (drop off bs))"

definition put_bytes :: "uchar list \<Rightarrow> nat \<Rightarrow> uchar list \<Rightarrow> uchar list" where
  "put_bytes bs off xs = take off bs @ xs @ drop (off + length xs) bs"

definition put32 :: "uchar list \<Rightarrow> nat \<Rightarrow> uint \<Rightarrow> uchar list" where
  "put32 bs off w = put_bytes bs off (le_bytes 4 w)"

section \<open>State\<close>

record logheader =
  lh_n :: uint
  lh_block :: "nat \<Rightarrow> uint"

record klog = kbio +
  log_start :: uint
  log_size :: uint
  log_outstanding :: int
  log_committing :: bool
  log_dev :: uint
  log_lh :: logheader

text \<open>The number of entries a loop \<open>for(i = 0; i < log.lh.n; i++)\<close> visits.\<close>

definition lh_count :: "logheader \<Rightarrow> nat" where
  "lh_count lh = nat (sint (lh_n lh))"

section \<open>Installing and writing the log\<close>

fun install_loop ::
  "bool \<Rightarrow> nat \<Rightarrow> nat \<Rightarrow> 'a klog_scheme \<Rightarrow> (unit, 'a klog_scheme) outcome" where
  "install_loop recovering 0 tail s = Ret () s"
| "install_loop recovering (Suc k) tail s =
     bnd (bread (log_dev s) (log_start s + of_nat tail + 1) s) (\<lambda>lbuf s.
     bnd (bread (log_dev s) (lh_block (log_lh s) tail) s) (\<lambda>dbuf s.
     bnd (Ret () (upd_buf dbuf (\<lambda>x. x\<lparr>b_data := b_data (bcache s lbuf)\<rparr>) s)) (\<lambda>_ s.
     bnd (bwrite dbuf s) (\<lambda>_ s.
     bnd (Ret () (if recovering then s else bunpin dbuf s)) (\<lambda>_ s.
     bnd (brelse lbuf s) (\<lambda>_ s.
     bnd (brelse dbuf s) (\<lambda>_ s.
     install_loop recovering k (Suc tail) s)))))))"

definition install_trans :: "bool \<Rightarrow> 'a klog_scheme \<Rightarrow> (unit, 'a klog_scheme) outcome" where
  "install_trans recovering s = install_loop recovering (lh_count (log_lh s)) 0 s"

text \<open>The layout of \<open>struct logheader\<close> in its block.\<close>

definition decode_head :: "uchar list \<Rightarrow> (nat \<Rightarrow> uint) \<Rightarrow> logheader" where
  "decode_head bs old =
     (let n = get32 bs 0 in
      \<lparr>lh_n = n, lh_block = (\<lambda>i. if i < nat (sint n) then get32 bs (4 + 4 * i) else old i)\<rparr>)"

definition encode_head :: "logheader \<Rightarrow> uchar list \<Rightarrow> uchar list" where
  "encode_head lh bs = fold (\<lambda>i bs. put32 bs (4 + 4 * i) (lh_block lh i)) [0..<lh_count lh] (put32 bs 0 (lh_n lh))"

definition read_head :: "'a klog_scheme \<Rightarrow> (unit, 'a klog_scheme) outcome" where
  "read_head s =
     bnd (bread (log_dev s) (log_start s) s) (\<lambda>b s.
     brelse b (s\<lparr>log_lh := decode_head (b_data (bcache s b)) (lh_block (log_lh s))\<rparr>))"

definition write_head :: "'a klog_scheme \<Rightarrow> (unit, 'a klog_scheme) outcome" where
  "write_head s =
     bnd (bread (log_dev s) (log_start s) s) (\<lambda>b s.
     bnd (bwrite b (upd_buf b (\<lambda>x. x\<lparr>b_data := encode_head (log_lh s) (b_data x)\<rparr>) s)) (\<lambda>_ s.
     brelse b s))"

definition recover_from_log :: "'a klog_scheme \<Rightarrow> (unit, 'a klog_scheme) outcome" where
  "recover_from_log s =
     bnd (read_head s) (\<lambda>_ s.
     bnd (install_trans True s) (\<lambda>_ s.
     write_head (s\<lparr>log_lh := (log_lh s)\<lparr>lh_n := 0\<rparr>\<rparr>)))"

text \<open>
  \<open>initlog\<close>; \<open>sizeof(struct logheader)\<close> is \<open>4 + 4 * LOGSIZE\<close>, below \<open>BSIZE\<close>, so its panic is
  not reachable.
\<close>

definition initlog :: "uint \<Rightarrow> uint \<Rightarrow> uint \<Rightarrow> 'a klog_scheme \<Rightarrow> (unit, 'a klog_scheme) outcome" where
  "initlog dev logstart nlog s =
     (if 4 + 4 * LOGSIZE \<ge> BSIZE then Panic ''initlog: too big logheader''
      else recover_from_log (s\<lparr>log_start := logstart, log_size := nlog, log_dev := dev\<rparr>))"

fun write_log_loop :: "nat \<Rightarrow> nat \<Rightarrow> 'a klog_scheme \<Rightarrow> (unit, 'a klog_scheme) outcome" where
  "write_log_loop 0 tail s = Ret () s"
| "write_log_loop (Suc k) tail s =
     bnd (bread (log_dev s) (log_start s + of_nat tail + 1) s) (\<lambda>to s.
     bnd (bread (log_dev s) (lh_block (log_lh s) tail) s) (\<lambda>from' s.
     bnd (Ret () (upd_buf to (\<lambda>x. x\<lparr>b_data := b_data (bcache s from')\<rparr>) s)) (\<lambda>_ s.
     bnd (bwrite to s) (\<lambda>_ s.
     bnd (brelse from' s) (\<lambda>_ s.
     bnd (brelse to s) (\<lambda>_ s.
     write_log_loop k (Suc tail) s))))))"

definition write_log :: "'a klog_scheme \<Rightarrow> (unit, 'a klog_scheme) outcome" where
  "write_log s = write_log_loop (lh_count (log_lh s)) 0 s"

definition commit :: "'a klog_scheme \<Rightarrow> (unit, 'a klog_scheme) outcome" where
  "commit s =
     (if sint (lh_n (log_lh s)) > 0 then
        bnd (write_log s) (\<lambda>_ s.
        bnd (write_head s) (\<lambda>_ s.
        bnd (install_trans False s) (\<lambda>_ s.
        write_head (s\<lparr>log_lh := (log_lh s)\<lparr>lh_n := 0\<rparr>\<rparr>))))
      else Ret () s)"

section \<open>Transactions\<close>

text \<open>\<open>begin_op\<close>; woken up, it starts its loop again.\<close>

definition begin_op :: "'a klog_scheme \<Rightarrow> (unit, 'a klog_scheme) outcome" where
  "begin_op s =
     (if log_committing s then sleep ChLog s
      else if sint (lh_n (log_lh s)) + (log_outstanding s + 1) * int MAXOPBLOCKS > int LOGSIZE then sleep ChLog s
      else Ret () (s\<lparr>log_outstanding := log_outstanding s + 1\<rparr>))"

definition end_op :: "'a klog_scheme \<Rightarrow> (unit, 'a klog_scheme) outcome" where
  "end_op s =
     (let s = s\<lparr>log_outstanding := log_outstanding s - 1\<rparr> in
      if log_committing s then Panic ''log.committing''
      else if log_outstanding s = 0 then
        bnd (commit (s\<lparr>log_committing := True\<rparr>)) (\<lambda>_ s.
        Ret () (wakeup ChLog (s\<lparr>log_committing := False\<rparr>)))
      else Ret () (wakeup ChLog s))"

definition log_write :: "nat \<Rightarrow> 'a klog_scheme \<Rightarrow> (unit, 'a klog_scheme) outcome" where
  "log_write b s =
     (let lh = log_lh s; n = lh_count lh; bno = b_blockno (bcache s b) in
      if sint (lh_n lh) \<ge> int LOGSIZE \<or> sint (lh_n lh) \<ge> sint (log_size s) - 1
      then Panic ''too big a transaction''
      else if log_outstanding s < 1 then Panic ''log_write outside of trans''
      else
        let i = (case first_idx (\<lambda>i. lh_block lh i = bno) n of Some i \<Rightarrow> i | None \<Rightarrow> n);
            s1 = s\<lparr>log_lh := lh\<lparr>lh_block := (lh_block lh)(i := bno)\<rparr>\<rparr>
        in if i = n then
             let s2 = bpin b s1 in Ret () (s2\<lparr>log_lh := (log_lh s2)\<lparr>lh_n := lh_n lh + 1\<rparr>\<rparr>)
           else Ret () s1)"

end
