(* ===== verification/Fs.thy ===== *)
theory Fs
  imports Log
begin

text \<open>
  The file system, kernel/fs.c: the block allocator, inodes in memory and on disk, file
  contents, directories and path names. An \<open>inode\<close> pointer is an index into \<open>itable.inode\<close>;
  on-disk structures are decoded from and encoded into the bytes of their block, with the
  layout of kernel/fs.h.
\<close>

unbundle bit_operations_syntax

section \<open>On-disk structures (fs.h)\<close>

abbreviation (input) ROOTINO :: uint where "ROOTINO \<equiv> 1"
abbreviation (input) FSMAGIC :: uint where "FSMAGIC \<equiv> 0x10203040"
abbreviation (input) NDIRECT :: nat where "NDIRECT \<equiv> 12"
abbreviation (input) NINDIRECT :: nat where "NINDIRECT \<equiv> 256"
abbreviation (input) MAXFILE :: nat where "MAXFILE \<equiv> 268"
abbreviation (input) IPB :: nat where "IPB \<equiv> 16"
abbreviation (input) BPB :: nat where "BPB \<equiv> 8192"
abbreviation (input) DIRSIZ :: nat where "DIRSIZ \<equiv> 14"
abbreviation (input) T_DIR :: ushort where "T_DIR \<equiv> 1"
abbreviation (input) T_FILE :: ushort where "T_FILE \<equiv> 2"
abbreviation (input) T_DEVICE :: ushort where "T_DEVICE \<equiv> 3"

record superblock =
  sb_magic :: uint
  sb_size :: uint
  sb_nblocks :: uint
  sb_ninodes :: uint
  sb_nlog :: uint
  sb_logstart :: uint
  sb_inodestart :: uint
  sb_bmapstart :: uint

definition decode_sb :: "uchar list \<Rightarrow> superblock" where
  "decode_sb bs =
     \<lparr>sb_magic = get32 bs 0, sb_size = get32 bs 4, sb_nblocks = get32 bs 8, sb_ninodes = get32 bs 12,
      sb_nlog = get32 bs 16, sb_logstart = get32 bs 20, sb_inodestart = get32 bs 24, sb_bmapstart = get32 bs 28\<rparr>"

record dinode =
  d_type :: ushort
  d_major :: ushort
  d_minor :: ushort
  d_nlink :: ushort
  d_size :: uint
  d_addrs :: "uint list"

definition get16 :: "uchar list \<Rightarrow> nat \<Rightarrow> ushort" where
  "get16 bs off = le_word (take 2 (drop off bs))"

definition decode_dinode :: "uchar list \<Rightarrow> nat \<Rightarrow> dinode" where
  "decode_dinode bs off =
     \<lparr>d_type = get16 bs off, d_major = get16 bs (off + 2), d_minor = get16 bs (off + 4),
      d_nlink = get16 bs (off + 6), d_size = get32 bs (off + 8),
      d_addrs = map (\<lambda>i. get32 bs (off + 12 + 4 * i)) [0..<NDIRECT + 1]\<rparr>"

definition encode_dinode :: "dinode \<Rightarrow> uchar list" where
  "encode_dinode d =
     le_bytes 2 (d_type d) @ le_bytes 2 (d_major d) @ le_bytes 2 (d_minor d) @ le_bytes 2 (d_nlink d) @
     le_bytes 4 (d_size d) @ concat (map (le_bytes 4) (d_addrs d))"

definition zero_dinode :: "ushort \<Rightarrow> dinode" where
  "zero_dinode t = \<lparr>d_type = t, d_major = 0, d_minor = 0, d_nlink = 0, d_size = 0, d_addrs = replicate (NDIRECT + 1) 0\<rparr>"

section \<open>State\<close>

record inode =
  i_dev :: uint
  i_inum :: uint
  i_ref :: int
  i_lock :: sleeplock
  i_valid :: bool
  i_d :: dinode   \<comment> \<open>the copy of the disk inode\<close>

record kfs = klog +
  sb :: superblock
  itable :: "nat \<Rightarrow> inode"

definition upd_inode :: "nat \<Rightarrow> (inode \<Rightarrow> inode) \<Rightarrow> 'a kfs_scheme \<Rightarrow> 'a kfs_scheme" where
  "upd_inode ip f s = s\<lparr>itable := (itable s)(ip := f (itable s ip))\<rparr>"

definition upd_data :: "nat \<Rightarrow> (uchar list \<Rightarrow> uchar list) \<Rightarrow> 'a kbio_scheme \<Rightarrow> 'a kbio_scheme" where
  "upd_data b f s = upd_buf b (\<lambda>x. x\<lparr>b_data := f (b_data x)\<rparr>) s"

definition IBLOCK :: "uint \<Rightarrow> superblock \<Rightarrow> uint" where
  "IBLOCK i x = i div 16 + sb_inodestart x"

definition BBLOCK :: "uint \<Rightarrow> superblock \<Rightarrow> uint" where
  "BBLOCK b x = b div 8192 + sb_bmapstart x"

section \<open>Blocks\<close>

definition readsb :: "uint \<Rightarrow> 'a kfs_scheme \<Rightarrow> (unit, 'a kfs_scheme) outcome" where
  "readsb dev s =
     bnd (bread dev 1 s) (\<lambda>bp s. brelse bp (s\<lparr>sb := decode_sb (b_data (bcache s bp))\<rparr>))"

definition fsinit :: "uint \<Rightarrow> 'a kfs_scheme \<Rightarrow> (unit, 'a kfs_scheme) outcome" where
  "fsinit dev s =
     bnd (readsb dev s) (\<lambda>_ s.
     if sb_magic (sb s) \<noteq> FSMAGIC then Panic ''invalid file system''
     else initlog dev (sb_logstart (sb s)) (sb_nlog (sb s)) s)"

definition bzero :: "uint \<Rightarrow> uint \<Rightarrow> 'a klog_scheme \<Rightarrow> (unit, 'a klog_scheme) outcome" where
  "bzero dev bno s =
     bnd (bread dev bno s) (\<lambda>bp s.
     bnd (log_write bp (upd_data bp (\<lambda>_. replicate BSIZE 0) s)) (\<lambda>_ s.
     brelse bp s))"

definition bit_of :: "uchar list \<Rightarrow> nat \<Rightarrow> bool" where
  "bit_of bs bi = (bs ! (bi div 8) AND push_bit (bi mod 8) 1 \<noteq> 0)"

definition set_bit_of :: "uchar list \<Rightarrow> nat \<Rightarrow> uchar list" where
  "set_bit_of bs bi = bs[bi div 8 := bs ! (bi div 8) OR push_bit (bi mod 8) 1]"

definition clear_bit_of :: "uchar list \<Rightarrow> nat \<Rightarrow> uchar list" where
  "clear_bit_of bs bi = bs[bi div 8 := bs ! (bi div 8) AND NOT (push_bit (bi mod 8) 1)]"

text \<open>The outer loop of \<open>balloc\<close> from block \<open>b\<close>; \<open>sz\<close> is \<open>sb.size\<close>.\<close>

function balloc_loop :: "uint \<Rightarrow> nat \<Rightarrow> nat \<Rightarrow> 'a kfs_scheme \<Rightarrow> (uint, 'a kfs_scheme) outcome" where
  "balloc_loop dev sz b s =
     (if b < sz then
        bnd (bread dev (BBLOCK (of_nat b) (sb s)) s) (\<lambda>bp s.
        case first_idx (\<lambda>bi. \<not> bit_of (b_data (bcache s bp)) bi) (min BPB (sz - b)) of
          Some bi \<Rightarrow>
            bnd (log_write bp (upd_data bp (\<lambda>bs. set_bit_of bs bi) s)) (\<lambda>_ s.
            bnd (brelse bp s) (\<lambda>_ s.
            bnd (bzero dev (of_nat (b + bi)) s) (\<lambda>_ s.
            Ret (of_nat (b + bi)) s)))
        | None \<Rightarrow> bnd (brelse bp s) (\<lambda>_ s. balloc_loop dev sz (b + BPB) s))
      else Ret 0 (say (''balloc: out of blocks'' @ [CHR 0x0A]) s))"
  by pat_completeness auto
termination by (relation "measure (\<lambda>(dev, sz, b, s). sz - b)") auto

declare balloc_loop.simps [simp del]

definition balloc :: "uint \<Rightarrow> 'a kfs_scheme \<Rightarrow> (uint, 'a kfs_scheme) outcome" where
  "balloc dev s = balloc_loop dev (unat (sb_size (sb s))) 0 s"

definition bfree :: "uint \<Rightarrow> uint \<Rightarrow> 'a kfs_scheme \<Rightarrow> (unit, 'a kfs_scheme) outcome" where
  "bfree dev b s =
     bnd (bread dev (BBLOCK b (sb s)) s) (\<lambda>bp s.
     let bi = unat b mod BPB in
     if \<not> bit_of (b_data (bcache s bp)) bi then Panic ''freeing free block''
     else
       bnd (log_write bp (upd_data bp (\<lambda>bs. clear_bit_of bs bi) s)) (\<lambda>_ s.
       brelse bp s))"

section \<open>Inodes\<close>

definition iinit :: "'a kfs_scheme \<Rightarrow> 'a kfs_scheme" where
  "iinit s = s\<lparr>itable := (\<lambda>i. if i < NINODE then (itable s i)\<lparr>i_lock := initsleeplock\<rparr> else itable s i)\<rparr>"

definition iget :: "uint \<Rightarrow> uint \<Rightarrow> 'a kfs_scheme \<Rightarrow> (nat, 'a kfs_scheme) outcome" where
  "iget dev inum s =
     (case first_idx (\<lambda>i. i_ref (itable s i) > 0 \<and> i_dev (itable s i) = dev \<and> i_inum (itable s i) = inum) NINODE of
        Some ip \<Rightarrow> Ret ip (upd_inode ip (\<lambda>x. x\<lparr>i_ref := i_ref x + 1\<rparr>) s)
      | None \<Rightarrow>
         (case first_idx (\<lambda>i. i_ref (itable s i) = 0) NINODE of
            None \<Rightarrow> Panic ''iget: no inodes''
          | Some ip \<Rightarrow> Ret ip (upd_inode ip (\<lambda>x. x\<lparr>i_dev := dev, i_inum := inum, i_ref := 1, i_valid := False\<rparr>) s)))"

definition idup :: "nat \<Rightarrow> 'a kfs_scheme \<Rightarrow> (nat, 'a kfs_scheme) outcome" where
  "idup ip s = Ret ip (upd_inode ip (\<lambda>x. x\<lparr>i_ref := i_ref x + 1\<rparr>) s)"

text \<open>The loop of \<open>ialloc\<close>, with \<open>k\<close> inodes left to look at from \<open>inum\<close>.\<close>

fun ialloc_loop :: "uint \<Rightarrow> ushort \<Rightarrow> nat \<Rightarrow> nat \<Rightarrow> 'a kfs_scheme \<Rightarrow> (nat option, 'a kfs_scheme) outcome" where
  "ialloc_loop dev t 0 inum s = Ret None (say (''ialloc: no inodes'' @ [CHR 0x0A]) s)"
| "ialloc_loop dev t (Suc k) inum s =
     bnd (bread dev (IBLOCK (of_nat inum) (sb s)) s) (\<lambda>bp s.
     let off = 64 * (inum mod IPB) in
     if d_type (decode_dinode (b_data (bcache s bp)) off) = 0 then
       bnd (log_write bp (upd_data bp (\<lambda>bs. put_bytes bs off (encode_dinode (zero_dinode t))) s)) (\<lambda>_ s.
       bnd (brelse bp s) (\<lambda>_ s.
       bnd (iget dev (of_nat inum) s) (\<lambda>ip s. Ret (Some ip) s)))
     else bnd (brelse bp s) (\<lambda>_ s. ialloc_loop dev t k (Suc inum) s))"

definition ialloc :: "uint \<Rightarrow> ushort \<Rightarrow> 'a kfs_scheme \<Rightarrow> (nat option, 'a kfs_scheme) outcome" where
  "ialloc dev t s = ialloc_loop dev t (unat (sb_ninodes (sb s)) - 1) 1 s"

definition iupdate :: "nat \<Rightarrow> 'a kfs_scheme \<Rightarrow> (unit, 'a kfs_scheme) outcome" where
  "iupdate ip s =
     bnd (bread (i_dev (itable s ip)) (IBLOCK (i_inum (itable s ip)) (sb s)) s) (\<lambda>bp s.
     let off = 64 * (unat (i_inum (itable s ip)) mod IPB) in
     bnd (log_write bp (upd_data bp (\<lambda>bs. put_bytes bs off (encode_dinode (i_d (itable s ip)))) s)) (\<lambda>_ s.
     brelse bp s))"

definition lock_inode :: "nat \<Rightarrow> 'a kfs_scheme \<Rightarrow> (unit, 'a kfs_scheme) outcome" where
  "lock_inode ip s =
     bnd (acquiresleep (ChInode ip) (i_lock (itable s ip)) s) (\<lambda>lk s.
     Ret () (upd_inode ip (\<lambda>x. x\<lparr>i_lock := lk\<rparr>) s))"

definition unlock_inode :: "nat \<Rightarrow> 'a kfs_scheme \<Rightarrow> (unit, 'a kfs_scheme) outcome" where
  "unlock_inode ip s =
     bnd (releasesleep (ChInode ip) (i_lock (itable s ip)) s) (\<lambda>lk s.
     Ret () (upd_inode ip (\<lambda>x. x\<lparr>i_lock := lk\<rparr>) s))"

definition ilock :: "nat \<Rightarrow> 'a kfs_scheme \<Rightarrow> (unit, 'a kfs_scheme) outcome" where
  "ilock ip s =
     (if i_ref (itable s ip) < 1 then Panic ''ilock''
      else
        bnd (lock_inode ip s) (\<lambda>_ s.
        if \<not> i_valid (itable s ip) then
          bnd (bread (i_dev (itable s ip)) (IBLOCK (i_inum (itable s ip)) (sb s)) s) (\<lambda>bp s.
          let d = decode_dinode (b_data (bcache s bp)) (64 * (unat (i_inum (itable s ip)) mod IPB)) in
          bnd (brelse bp (upd_inode ip (\<lambda>x. x\<lparr>i_d := d\<rparr>) s)) (\<lambda>_ s.
          bnd (Ret () (upd_inode ip (\<lambda>x. x\<lparr>i_valid := True\<rparr>) s)) (\<lambda>_ s.
          if d_type (i_d (itable s ip)) = 0 then Panic ''ilock: no type'' else Ret () s)))
        else Ret () s))"

definition iunlock :: "nat \<Rightarrow> 'a kfs_scheme \<Rightarrow> (unit, 'a kfs_scheme) outcome" where
  "iunlock ip s =
     bnd (holdingsleep (i_lock (itable s ip)) s) (\<lambda>h s.
     if \<not> h \<or> i_ref (itable s ip) < 1 then Panic ''iunlock'' else unlock_inode ip s)"

section \<open>Inode content\<close>

definition set_addr :: "nat \<Rightarrow> nat \<Rightarrow> uint \<Rightarrow> 'a kfs_scheme \<Rightarrow> 'a kfs_scheme" where
  "set_addr ip i a s = upd_inode ip (\<lambda>x. x\<lparr>i_d := (i_d x)\<lparr>d_addrs := (d_addrs (i_d x))[i := a]\<rparr>\<rparr>) s"

text \<open>The address in \<open>ip->addrs[i]\<close>, allocated if it is 0.\<close>

definition get_addr :: "nat \<Rightarrow> nat \<Rightarrow> 'a kfs_scheme \<Rightarrow> (uint, 'a kfs_scheme) outcome" where
  "get_addr ip i s =
     (let addr = d_addrs (i_d (itable s ip)) ! i in
      if addr = 0 then
        bnd (balloc (i_dev (itable s ip)) s) (\<lambda>addr s.
        if addr = 0 then Ret 0 s else Ret addr (set_addr ip i addr s))
      else Ret addr s)"

definition bmap :: "nat \<Rightarrow> nat \<Rightarrow> 'a kfs_scheme \<Rightarrow> (uint, 'a kfs_scheme) outcome" where
  "bmap ip bn s =
     (if bn < NDIRECT then get_addr ip bn s
      else if bn - NDIRECT < NINDIRECT then
        bnd (get_addr ip NDIRECT s) (\<lambda>addr s.
        if addr = 0 then Ret 0 s
        else
          bnd (bread (i_dev (itable s ip)) addr s) (\<lambda>bp s.
          let addr = get32 (b_data (bcache s bp)) (4 * (bn - NDIRECT)) in
          if addr = 0 then
            bnd (balloc (i_dev (itable s ip)) s) (\<lambda>addr s.
            bnd (if addr \<noteq> 0 then log_write bp (upd_data bp (\<lambda>bs. put32 bs (4 * (bn - NDIRECT)) addr) s)
                 else Ret () s) (\<lambda>_ s.
            bnd (brelse bp s) (\<lambda>_ s. Ret addr s)))
          else bnd (brelse bp s) (\<lambda>_ s. Ret addr s)))
      else Panic ''bmap: out of range'')"

fun itrunc_direct :: "nat \<Rightarrow> nat list \<Rightarrow> 'a kfs_scheme \<Rightarrow> (unit, 'a kfs_scheme) outcome" where
  "itrunc_direct ip [] s = Ret () s"
| "itrunc_direct ip (i # is) s =
     (let a = d_addrs (i_d (itable s ip)) ! i in
      if a \<noteq> 0 then bnd (bfree (i_dev (itable s ip)) a s) (\<lambda>_ s. itrunc_direct ip is (set_addr ip i 0 s))
      else itrunc_direct ip is s)"

fun itrunc_indirect :: "uint \<Rightarrow> uint list \<Rightarrow> 'a kfs_scheme \<Rightarrow> (unit, 'a kfs_scheme) outcome" where
  "itrunc_indirect dev [] s = Ret () s"
| "itrunc_indirect dev (a # as) s =
     (if a \<noteq> 0 then bnd (bfree dev a s) (\<lambda>_ s. itrunc_indirect dev as s) else itrunc_indirect dev as s)"

text \<open>The inner loop reads \<open>a[j]\<close> from the locked indirect block, which \<open>bfree\<close> does not change.\<close>

definition itrunc :: "nat \<Rightarrow> 'a kfs_scheme \<Rightarrow> (unit, 'a kfs_scheme) outcome" where
  "itrunc ip s =
     bnd (itrunc_direct ip [0..<NDIRECT] s) (\<lambda>_ s.
     bnd (let a = d_addrs (i_d (itable s ip)) ! NDIRECT in
          if a \<noteq> 0 then
            bnd (bread (i_dev (itable s ip)) a s) (\<lambda>bp s.
            bnd (itrunc_indirect (i_dev (itable s ip))
                   (map (\<lambda>j. get32 (b_data (bcache s bp)) (4 * j)) [0..<NINDIRECT]) s) (\<lambda>_ s.
            bnd (brelse bp s) (\<lambda>_ s.
            bnd (bfree (i_dev (itable s ip)) (d_addrs (i_d (itable s ip)) ! NDIRECT) s) (\<lambda>_ s.
            Ret () (set_addr ip NDIRECT 0 s)))))
          else Ret () s) (\<lambda>_ s.
     iupdate ip (upd_inode ip (\<lambda>x. x\<lparr>i_d := (i_d x)\<lparr>d_size := 0\<rparr>\<rparr>) s)))"

definition iput :: "nat \<Rightarrow> 'a kfs_scheme \<Rightarrow> (unit, 'a kfs_scheme) outcome" where
  "iput ip s =
     bnd (if i_ref (itable s ip) = 1 \<and> i_valid (itable s ip) \<and> d_nlink (i_d (itable s ip)) = 0 then
            bnd (lock_inode ip s) (\<lambda>_ s.
            bnd (itrunc ip s) (\<lambda>_ s.
            bnd (iupdate ip (upd_inode ip (\<lambda>x. x\<lparr>i_d := (i_d x)\<lparr>d_type := 0\<rparr>\<rparr>) s)) (\<lambda>_ s.
            unlock_inode ip (upd_inode ip (\<lambda>x. x\<lparr>i_valid := False\<rparr>) s))))
          else Ret () s) (\<lambda>_ s.
     Ret () (upd_inode ip (\<lambda>x. x\<lparr>i_ref := i_ref x - 1\<rparr>) s))"

definition iunlockput :: "nat \<Rightarrow> 'a kfs_scheme \<Rightarrow> (unit, 'a kfs_scheme) outcome" where
  "iunlockput ip s = bnd (iunlock ip s) (\<lambda>_ s. iput ip s)"

text \<open>\<open>stati\<close>: the bytes of \<open>struct stat\<close>; \<open>pad\<close> are the four bytes of padding in the caller's variable.\<close>

definition stati :: "nat \<Rightarrow> uchar list \<Rightarrow> 'a kfs_scheme \<Rightarrow> uchar list" where
  "stati ip pad s =
     (let x = itable s ip; d = i_d x in
      le_bytes 4 (i_dev x) @ le_bytes 4 (i_inum x) @ le_bytes 2 (d_type d) @ le_bytes 2 (d_nlink d) @
      pad @ le_bytes 8 (ucast (d_size d) :: uint64))"

text \<open>
  The loops of \<open>readi\<close> and \<open>writei\<close>. \<open>readi\<close> also gives the bytes it has copied, for callers
  whose destination is a variable.
\<close>

function readi_loop ::
  "nat \<Rightarrow> dest \<Rightarrow> nat \<Rightarrow> nat \<Rightarrow> nat \<Rightarrow> uchar list \<Rightarrow> 'a kfs_scheme
    \<Rightarrow> (int \<times> uchar list, 'a kfs_scheme) outcome" where
  "readi_loop ip dst off n tot acc s =
     (if tot < n then
        bnd (bmap ip (off div BSIZE) s) (\<lambda>addr s.
        if addr = 0 then Ret (int tot, acc) s
        else
          bnd (bread (i_dev (itable s ip)) addr s) (\<lambda>bp s.
          let m = min (n - tot) (BSIZE - off mod BSIZE);
              bs = take m (drop (off mod BSIZE) (b_data (bcache s bp)))
          in
          bnd (either_copyout dst bs s) (\<lambda>r s.
          if r = -1 then bnd (brelse bp s) (\<lambda>_ s. Ret (-1, acc) s)
          else bnd (brelse bp s) (\<lambda>_ s. readi_loop ip (dest_plus dst m) (off + m) n (tot + m) (acc @ bs) s))))
      else Ret (int tot, acc) s)"
  by pat_completeness auto
termination
  by (relation "measure (\<lambda>(ip, dst, off, n, tot, acc, s). n - tot)") auto

declare readi_loop.simps [simp del]

definition readi ::
  "nat \<Rightarrow> dest \<Rightarrow> uint \<Rightarrow> uint \<Rightarrow> 'a kfs_scheme \<Rightarrow> (int \<times> uchar list, 'a kfs_scheme) outcome" where
  "readi ip dst off n s =
     (let sz = d_size (i_d (itable s ip)) in
      if off > sz \<or> off + n < off then Ret (0, []) s
      else
        let n = (if off + n > sz then sz - off else n) in
        readi_loop ip dst (unat off) (unat n) 0 [] s)"

function writei_loop ::
  "nat \<Rightarrow> src \<Rightarrow> nat \<Rightarrow> nat \<Rightarrow> nat \<Rightarrow> 'a kfs_scheme \<Rightarrow> (nat \<times> nat, 'a kfs_scheme) outcome" where
  "writei_loop ip src off n tot s =
     (if tot < n then
        bnd (bmap ip (off div BSIZE) s) (\<lambda>addr s.
        if addr = 0 then Ret (tot, off) s
        else
          bnd (bread (i_dev (itable s ip)) addr s) (\<lambda>bp s.
          let m = min (n - tot) (BSIZE - off mod BSIZE) in
          bnd (either_copyin src m s) (\<lambda>(r, bs) s.
          bnd (Ret () (upd_data bp (\<lambda>old. put_bytes old (off mod BSIZE) bs) s)) (\<lambda>_ s.
          if r = -1 then bnd (brelse bp s) (\<lambda>_ s. Ret (tot, off) s)
          else
            bnd (log_write bp s) (\<lambda>_ s.
            bnd (brelse bp s) (\<lambda>_ s.
            writei_loop ip (src_plus src m) (off + m) n (tot + m) s))))))
      else Ret (tot, off) s)"
  by pat_completeness auto
termination
  by (relation "measure (\<lambda>(ip, src, off, n, tot, s). n - tot)") auto

declare writei_loop.simps [simp del]

definition writei ::
  "nat \<Rightarrow> src \<Rightarrow> uint \<Rightarrow> uint \<Rightarrow> 'a kfs_scheme \<Rightarrow> (int, 'a kfs_scheme) outcome" where
  "writei ip src off n s =
     (if off > d_size (i_d (itable s ip)) \<or> off + n < off then Ret (-1) s
      else if unat (off + n) > MAXFILE * BSIZE then Ret (-1) s
      else
        bnd (writei_loop ip src (unat off) (unat n) 0 s) (\<lambda>(tot, off) s.
        bnd (iupdate ip (if of_nat off > d_size (i_d (itable s ip))
               then upd_inode ip (\<lambda>x. x\<lparr>i_d := (i_d x)\<lparr>d_size := of_nat off\<rparr>\<rparr>) s else s)) (\<lambda>_ s.
        Ret (int tot) s)))"

section \<open>Directories\<close>

text \<open>A name is its bytes up to the NUL, at most \<open>DIRSIZ\<close> of them.\<close>

definition cchar :: "uchar list \<Rightarrow> nat \<Rightarrow> uchar" where
  "cchar bs i = (if i < length bs then bs ! i else 0)"

definition namecmp :: "uchar list \<Rightarrow> uchar list \<Rightarrow> int" where
  "namecmp s t = strncmp_at (cchar s) (cchar t) 0 DIRSIZ"

definition de_inum :: "uchar list \<Rightarrow> ushort" where
  "de_inum de = get16 de 0"

definition de_name :: "uchar list \<Rightarrow> uchar list" where
  "de_name de = take DIRSIZ (drop 2 de)"

text \<open>The dirent with \<open>strncpy(de.name, name, DIRSIZ)\<close> and \<open>de.inum = inum\<close>.\<close>

definition mk_dirent :: "uchar list \<Rightarrow> uint \<Rightarrow> uchar list" where
  "mk_dirent name inum = le_bytes 2 (ucast inum :: ushort) @ take DIRSIZ (name @ replicate DIRSIZ 0)"

text \<open>The directory is locked, and reading it does not change its size \<open>sz\<close>.\<close>

function dirlookup_loop ::
  "nat \<Rightarrow> uchar list \<Rightarrow> nat \<Rightarrow> nat \<Rightarrow> 'a kfs_scheme \<Rightarrow> ((nat \<times> nat) option, 'a kfs_scheme) outcome" where
  "dirlookup_loop dp name sz off s =
     (if off < sz then
        bnd (readi dp LocalDst (of_nat off) 16 s) (\<lambda>(r, de) s.
        if r \<noteq> 16 then Panic ''dirlookup read''
        else if de_inum de = 0 then dirlookup_loop dp name sz (off + 16) s
        else if namecmp name (de_name de) = 0 then
          bnd (iget (i_dev (itable s dp)) (ucast (de_inum de)) s) (\<lambda>ip s. Ret (Some (ip, off)) s)
        else dirlookup_loop dp name sz (off + 16) s)
      else Ret None s)"
  by pat_completeness auto
termination
  by (relation "measure (\<lambda>(dp, name, sz, off, s). sz - off)") auto

declare dirlookup_loop.simps [simp del]

definition dirlookup ::
  "nat \<Rightarrow> uchar list \<Rightarrow> 'a kfs_scheme \<Rightarrow> ((nat \<times> nat) option, 'a kfs_scheme) outcome" where
  "dirlookup dp name s =
     (if d_type (i_d (itable s dp)) \<noteq> T_DIR then Panic ''dirlookup not DIR''
      else dirlookup_loop dp name (unat (d_size (i_d (itable s dp)))) 0 s)"

function dirslot_loop :: "nat \<Rightarrow> nat \<Rightarrow> nat \<Rightarrow> 'a kfs_scheme \<Rightarrow> (nat, 'a kfs_scheme) outcome" where
  "dirslot_loop dp sz off s =
     (if off < sz then
        bnd (readi dp LocalDst (of_nat off) 16 s) (\<lambda>(r, de) s.
        if r \<noteq> 16 then Panic ''dirlink read''
        else if de_inum de = 0 then Ret off s
        else dirslot_loop dp sz (off + 16) s)
      else Ret off s)"
  by pat_completeness auto
termination
  by (relation "measure (\<lambda>(dp, sz, off, s). sz - off)") auto

declare dirslot_loop.simps [simp del]

definition dirlink :: "nat \<Rightarrow> uchar list \<Rightarrow> uint \<Rightarrow> 'a kfs_scheme \<Rightarrow> (int, 'a kfs_scheme) outcome" where
  "dirlink dp name inum s =
     bnd (dirlookup dp name s) (\<lambda>r s.
     case r of
       Some (ip, _) \<Rightarrow> bnd (iput ip s) (\<lambda>_ s. Ret (-1) s)
     | None \<Rightarrow>
         bnd (dirslot_loop dp (unat (d_size (i_d (itable s dp)))) 0 s) (\<lambda>off s.
         bnd (writei dp (LocalSrc (mk_dirent name inum)) (of_nat off) 16 s) (\<lambda>w s.
         if w \<noteq> 16 then Ret (-1) s else Ret 0 s)))"

section \<open>Paths\<close>

abbreviation (input) slash :: uchar where "slash \<equiv> 47"

text \<open>\<open>skipelem\<close>: the rest of the path and the name, \<open>None\<close> for the null pointer.\<close>

definition skipelem :: "uchar list \<Rightarrow> (uchar list \<times> uchar list) option" where
  "skipelem path =
     (let p = dropWhile (\<lambda>c. c = slash) path in
      if p = [] then None
      else
        let elem = takeWhile (\<lambda>c. c \<noteq> slash) p;
            rest = dropWhile (\<lambda>c. c \<noteq> slash) p
        in Some (dropWhile (\<lambda>c. c = slash) rest, take DIRSIZ elem))"

lemma skipelem_shorter: "skipelem path = Some (rest, name) \<Longrightarrow> length rest < length path"
proof -
  assume a: "skipelem path = Some (rest, name)"
  let ?p = "dropWhile (\<lambda>c. c = slash) path"
  let ?r = "dropWhile (\<lambda>c. c \<noteq> slash) ?p"
  have p: "?p \<noteq> []" "rest = dropWhile (\<lambda>c. c = slash) ?r"
    using a by (auto simp: skipelem_def Let_def split: if_splits)
  have "hd ?p \<noteq> slash" using hd_dropWhile [OF p(1)] by simp
  then have "length ?r < length ?p"
    using p(1) length_dropWhile_le [of "\<lambda>c. c \<noteq> slash" "tl ?p"] by (cases ?p) auto
  moreover have "length rest \<le> length ?r" unfolding p(2) by (rule length_dropWhile_le)
  moreover have "length ?p \<le> length path" by (rule length_dropWhile_le)
  ultimately show ?thesis by linarith
qed

function namex_loop ::
  "uchar list \<Rightarrow> nat \<Rightarrow> bool \<Rightarrow> uchar list \<Rightarrow> 'a kfs_scheme
    \<Rightarrow> ((nat \<times> uchar list) option, 'a kfs_scheme) outcome" where
  "namex_loop path ip nameiparent name s =
     (case skipelem path of
        None \<Rightarrow> if nameiparent then bnd (iput ip s) (\<lambda>_ s. Ret None s) else Ret (Some (ip, name)) s
      | Some (rest, name) \<Rightarrow>
          bnd (ilock ip s) (\<lambda>_ s.
          if d_type (i_d (itable s ip)) \<noteq> T_DIR then bnd (iunlockput ip s) (\<lambda>_ s. Ret None s)
          else if nameiparent \<and> rest = [] then bnd (iunlock ip s) (\<lambda>_ s. Ret (Some (ip, name)) s)
          else
            bnd (dirlookup ip name s) (\<lambda>r s.
            case r of
              None \<Rightarrow> bnd (iunlockput ip s) (\<lambda>_ s. Ret None s)
            | Some (nxt, _) \<Rightarrow> bnd (iunlockput ip s) (\<lambda>_ s. namex_loop rest nxt nameiparent name s))))"
  by pat_completeness auto
termination
  by (relation "measure (\<lambda>(path, ip, np, name, s). length path)") (auto intro: skipelem_shorter)

declare namex_loop.simps [simp del]

definition namex ::
  "uchar list \<Rightarrow> bool \<Rightarrow> 'a kfs_scheme \<Rightarrow> ((nat \<times> uchar list) option, 'a kfs_scheme) outcome" where
  "namex path nameiparent s =
     bnd (if path \<noteq> [] \<and> hd path = slash then iget ROOTDEV ROOTINO s
          else myproc (\<lambda>p s. case p_cwd (proc_tab s p) of None \<Rightarrow> null_deref | Some ip \<Rightarrow> idup ip s) s) (\<lambda>ip s.
     namex_loop path ip nameiparent [] s)"

definition namei :: "uchar list \<Rightarrow> 'a kfs_scheme \<Rightarrow> (nat option, 'a kfs_scheme) outcome" where
  "namei path s = bnd (namex path False s) (\<lambda>r s. Ret (map_option fst r) s)"

definition nameiparent ::
  "uchar list \<Rightarrow> 'a kfs_scheme \<Rightarrow> ((nat \<times> uchar list) option, 'a kfs_scheme) outcome" where
  "nameiparent path s = namex path True s"

end
