(* ===== verification/File.thy ===== *)
theory File
  imports Fs
begin

text \<open>
  Open files, kernel/file.c, and pipes, kernel/pipe.c. A \<open>struct file\<close> pointer is an index
  into \<open>ftable.file\<close>. A pipe lives in a page of its own, so its pointer is the address of
  that page.
\<close>

section \<open>State (file.h, pipe.c)\<close>

datatype ftype = FD_NONE | FD_PIPE | FD_INODE | FD_DEVICE

record openfile =
  f_type :: ftype
  f_ref :: int
  f_readable :: bool
  f_writable :: bool
  f_pipe :: uint64
  f_ip :: "nat option"
  f_off :: uint
  f_major :: ushort

record pipe =
  pi_data :: "nat \<Rightarrow> uchar"
  pi_nread :: uint
  pi_nwrite :: uint
  pi_readopen :: bool
  pi_writeopen :: bool

abbreviation (input) PIPESIZE :: uint where "PIPESIZE \<equiv> 512"

record kfile = kfs +
  ftable :: "nat \<Rightarrow> openfile"
  pipes :: "uint64 \<Rightarrow> pipe"

definition upd_file :: "nat \<Rightarrow> (openfile \<Rightarrow> openfile) \<Rightarrow> 'a kfile_scheme \<Rightarrow> 'a kfile_scheme" where
  "upd_file f g s = s\<lparr>ftable := (ftable s)(f := g (ftable s f))\<rparr>"

definition upd_pipe :: "uint64 \<Rightarrow> (pipe \<Rightarrow> pipe) \<Rightarrow> 'a kfile_scheme \<Rightarrow> 'a kfile_scheme" where
  "upd_pipe pi g s = s\<lparr>pipes := (pipes s)(pi := g (pipes s pi))\<rparr>"

section \<open>The file table\<close>

definition filealloc :: "'a kfile_scheme \<Rightarrow> (nat option, 'a kfile_scheme) outcome" where
  "filealloc s =
     (case first_idx (\<lambda>f. f_ref (ftable s f) = 0) NFILE of
        None \<Rightarrow> Ret None s
      | Some f \<Rightarrow> Ret (Some f) (upd_file f (\<lambda>x. x\<lparr>f_ref := 1\<rparr>) s))"

definition filedup :: "nat \<Rightarrow> 'a kfile_scheme \<Rightarrow> (nat, 'a kfile_scheme) outcome" where
  "filedup f s =
     (if f_ref (ftable s f) < 1 then Panic ''filedup''
      else Ret f (upd_file f (\<lambda>x. x\<lparr>f_ref := f_ref x + 1\<rparr>) s))"

definition pipeclose :: "uint64 \<Rightarrow> bool \<Rightarrow> 'a kfile_scheme \<Rightarrow> (unit, 'a kfile_scheme) outcome" where
  "pipeclose pi writable s =
     (let s = (if writable then wakeup (ChPipeR pi) (upd_pipe pi (\<lambda>x. x\<lparr>pi_writeopen := False\<rparr>) s)
               else wakeup (ChPipeW pi) (upd_pipe pi (\<lambda>x. x\<lparr>pi_readopen := False\<rparr>) s))
      in if \<not> pi_readopen (pipes s pi) \<and> \<not> pi_writeopen (pipes s pi) then kfree pi s else Ret () s)"

text \<open>\<open>iput\<close> on a pointer that may be null.\<close>

definition iput_ptr :: "nat option \<Rightarrow> 'a kfs_scheme \<Rightarrow> (unit, 'a kfs_scheme) outcome" where
  "iput_ptr ip s = (case ip of None \<Rightarrow> null_deref | Some ip \<Rightarrow> iput ip s)"

definition fileclose :: "nat \<Rightarrow> 'a kfile_scheme \<Rightarrow> (unit, 'a kfile_scheme) outcome" where
  "fileclose f s =
     (if f_ref (ftable s f) < 1 then Panic ''fileclose''
      else if f_ref (ftable s f) - 1 > 0 then Ret () (upd_file f (\<lambda>x. x\<lparr>f_ref := f_ref x - 1\<rparr>) s)
      else
        let ff = ftable s f;
            s = upd_file f (\<lambda>x. x\<lparr>f_ref := 0, f_type := FD_NONE\<rparr>) s
        in if f_type ff = FD_PIPE then pipeclose (f_pipe ff) (f_writable ff) s
           else if f_type ff = FD_INODE \<or> f_type ff = FD_DEVICE then
             bnd (begin_op s) (\<lambda>_ s. bnd (iput_ptr (f_ip ff) s) (\<lambda>_ s. end_op s))
           else Ret () s)"

section \<open>Pipes\<close>

text \<open>The exit of \<open>pipealloc\<close> at label \<open>bad\<close>; \<open>pi\<close> is 0 there, for it is allocated last.\<close>

definition pipealloc_bad ::
  "nat option \<Rightarrow> nat option \<Rightarrow> 'a kfile_scheme \<Rightarrow> (int \<times> nat option \<times> nat option, 'a kfile_scheme) outcome" where
  "pipealloc_bad f0 f1 s =
     bnd (case f0 of None \<Rightarrow> Ret () s | Some f \<Rightarrow> fileclose f s) (\<lambda>_ s.
     bnd (case f1 of None \<Rightarrow> Ret () s | Some f \<Rightarrow> fileclose f s) (\<lambda>_ s.
     Ret (-1, f0, f1) s))"

definition pipealloc ::
  "'a kfile_scheme \<Rightarrow> (int \<times> nat option \<times> nat option, 'a kfile_scheme) outcome" where
  "pipealloc s =
     bnd (filealloc s) (\<lambda>f0 s.
     case f0 of
       None \<Rightarrow> pipealloc_bad None None s
     | Some r \<Rightarrow>
         bnd (filealloc s) (\<lambda>f1 s.
         case f1 of
           None \<Rightarrow> pipealloc_bad (Some r) None s
         | Some w \<Rightarrow>
             bnd (kalloc s) (\<lambda>pi s.
             if pi = 0 then pipealloc_bad (Some r) (Some w) s
             else
               let s = upd_pipe pi (\<lambda>x. x\<lparr>pi_readopen := True, pi_writeopen := True, pi_nwrite := 0, pi_nread := 0\<rparr>) s;
                   s = upd_file r (\<lambda>x. x\<lparr>f_type := FD_PIPE, f_readable := True, f_writable := False, f_pipe := pi\<rparr>) s;
                   s = upd_file w (\<lambda>x. x\<lparr>f_type := FD_PIPE, f_readable := False, f_writable := True, f_pipe := pi\<rparr>) s
               in Ret (0, Some r, Some w) s)))"

text \<open>
  The loop of \<open>pipewrite\<close> with \<open>k\<close> bytes left of \<open>i + k\<close>. Woken up from its sleep, it goes on
  with the same \<open>k\<close> and \<open>i\<close>.
\<close>

fun pipewrite_loop ::
  "uint64 \<Rightarrow> uint64 \<Rightarrow> nat \<Rightarrow> nat \<Rightarrow> 'a kfile_scheme \<Rightarrow> (int, 'a kfile_scheme) outcome" where
  "pipewrite_loop pi addr 0 i s = Ret (int i) (wakeup (ChPipeR pi) s)"
| "pipewrite_loop pi addr (Suc k) i s = myproc (\<lambda>pr s.
     if \<not> pi_readopen (pipes s pi) \<or> killed pr s then Ret (-1) s
     else if pi_nwrite (pipes s pi) = pi_nread (pipes s pi) + PIPESIZE
     then sleep (ChPipeW pi) (wakeup (ChPipeR pi) s)
     else
       bnd (copyin (p_pagetable (proc_tab s pr)) (addr + of_nat i) 1 s) (\<lambda>(r, bs) s.
       if r = -1 then Ret (int i) (wakeup (ChPipeR pi) s)
       else pipewrite_loop pi addr k (Suc i) (upd_pipe pi (\<lambda>x.
         x\<lparr>pi_data := (pi_data x)(unat (pi_nwrite x mod PIPESIZE) := hd bs), pi_nwrite := pi_nwrite x + 1\<rparr>) s))) s"

definition pipewrite :: "uint64 \<Rightarrow> uint64 \<Rightarrow> int \<Rightarrow> 'a kfile_scheme \<Rightarrow> (int, 'a kfile_scheme) outcome" where
  "pipewrite pi addr n s = pipewrite_loop pi addr (nat n) 0 s"

fun piperead_loop ::
  "uint64 \<Rightarrow> uint64 \<Rightarrow> nat \<Rightarrow> nat \<Rightarrow> 'a kfile_scheme \<Rightarrow> (int, 'a kfile_scheme) outcome" where
  "piperead_loop pi addr 0 i s = Ret (int i) (wakeup (ChPipeW pi) s)"
| "piperead_loop pi addr (Suc k) i s = myproc (\<lambda>pr s.
     if pi_nread (pipes s pi) = pi_nwrite (pipes s pi) then Ret (int i) (wakeup (ChPipeW pi) s)
     else
       let ch = pi_data (pipes s pi) (unat (pi_nread (pipes s pi) mod PIPESIZE));
           s = upd_pipe pi (\<lambda>x. x\<lparr>pi_nread := pi_nread x + 1\<rparr>) s
       in bnd (copyout (p_pagetable (proc_tab s pr)) (addr + of_nat i) [ch] s) (\<lambda>r s.
          if r = -1 then Ret (int i) (wakeup (ChPipeW pi) s)
          else piperead_loop pi addr k (Suc i) s)) s"

definition piperead :: "uint64 \<Rightarrow> uint64 \<Rightarrow> int \<Rightarrow> 'a kfile_scheme \<Rightarrow> (int, 'a kfile_scheme) outcome" where
  "piperead pi addr n = myproc (\<lambda>pr s.
     if pi_nread (pipes s pi) = pi_nwrite (pipes s pi) \<and> pi_writeopen (pipes s pi) then
       if killed pr s then Ret (-1) s else sleep (ChPipeR pi) s
     else piperead_loop pi addr (nat n) 0 s)"

section \<open>Reading and writing files\<close>

definition ilock_ptr :: "nat option \<Rightarrow> 'a kfs_scheme \<Rightarrow> (nat, 'a kfs_scheme) outcome" where
  "ilock_ptr ip s = (case ip of None \<Rightarrow> Panic ''ilock'' | Some ip \<Rightarrow> bnd (ilock ip s) (\<lambda>_ s. Ret ip s))"

definition filestat ::
  "uchar list \<Rightarrow> nat \<Rightarrow> uint64 \<Rightarrow> 'a kfile_scheme \<Rightarrow> (int, 'a kfile_scheme) outcome" where
  "filestat pad f addr = myproc (\<lambda>p s.
     if f_type (ftable s f) = FD_INODE \<or> f_type (ftable s f) = FD_DEVICE then
       bnd (ilock_ptr (f_ip (ftable s f)) s) (\<lambda>ip s.
       let st = stati ip pad s in
       bnd (iunlock ip s) (\<lambda>_ s.
       bnd (copyout (p_pagetable (proc_tab s p)) addr st s) (\<lambda>r s.
       if r < 0 then Ret (-1) s else Ret 0 s)))
     else Ret (-1) s)"

text \<open>A call through \<open>devsw\<close>.\<close>

definition dev_call :: "devfn \<Rightarrow> uint64 \<Rightarrow> int \<Rightarrow> 'a kcons_scheme \<Rightarrow> (int, 'a kcons_scheme) outcome" where
  "dev_call fn addr n s =
     (case fn of Consoleread \<Rightarrow> consoleread (UserDst addr) n s | Consolewrite \<Rightarrow> consolewrite (UserSrc addr) n s)"

definition dev_fn :: "(nat \<Rightarrow> devfn option) \<Rightarrow> ushort \<Rightarrow> devfn option" where
  "dev_fn sw major = (if sint major < 0 \<or> sint major \<ge> int NDEV then None else sw (unat major))"

definition fileread :: "nat \<Rightarrow> uint64 \<Rightarrow> int \<Rightarrow> 'a kfile_scheme \<Rightarrow> (int, 'a kfile_scheme) outcome" where
  "fileread f addr n s =
     (let x = ftable s f in
      if \<not> f_readable x then Ret (-1) s
      else case f_type x of
        FD_PIPE \<Rightarrow> piperead (f_pipe x) addr n s
      | FD_DEVICE \<Rightarrow>
          (case dev_fn (devsw_read s) (f_major x) of
             None \<Rightarrow> Ret (-1) s
           | Some fn \<Rightarrow> dev_call fn addr n s)
      | FD_INODE \<Rightarrow>
          bnd (ilock_ptr (f_ip x) s) (\<lambda>ip s.
          bnd (readi ip (UserDst addr) (f_off (ftable s f)) (of_int n) s) (\<lambda>(r, _) s.
          let s = (if r > 0 then upd_file f (\<lambda>x. x\<lparr>f_off := f_off x + of_int r\<rparr>) s else s) in
          bnd (iunlock ip s) (\<lambda>_ s. Ret r s)))
      | FD_NONE \<Rightarrow> Panic ''fileread'')"

abbreviation (input) write_max :: int where "write_max \<equiv> ((int MAXOPBLOCKS - 1 - 1 - 2) div 2) * int BSIZE"

function filewrite_loop ::
  "nat \<Rightarrow> uint64 \<Rightarrow> int \<Rightarrow> int \<Rightarrow> 'a kfile_scheme \<Rightarrow> (int, 'a kfile_scheme) outcome" where
  "filewrite_loop f addr n i s =
     (if i < n then
        let n1 = (if n - i > write_max then write_max else n - i) in
        bnd (begin_op s) (\<lambda>_ s.
        bnd (ilock_ptr (f_ip (ftable s f)) s) (\<lambda>ip s.
        bnd (writei ip (UserSrc (addr + of_int i)) (f_off (ftable s f)) (of_int n1) s) (\<lambda>r s.
        let s = (if r > 0 then upd_file f (\<lambda>x. x\<lparr>f_off := f_off x + of_int r\<rparr>) s else s) in
        bnd (iunlock ip s) (\<lambda>_ s.
        bnd (end_op s) (\<lambda>_ s.
        if r \<noteq> n1 then Ret i s else filewrite_loop f addr n (i + r) s)))))
      else Ret i s)"
  by pat_completeness auto
termination
  by (relation "measure (\<lambda>(f, addr, n, i, s). nat (n - i))") auto

declare filewrite_loop.simps [simp del]

definition filewrite :: "nat \<Rightarrow> uint64 \<Rightarrow> int \<Rightarrow> 'a kfile_scheme \<Rightarrow> (int, 'a kfile_scheme) outcome" where
  "filewrite f addr n s =
     (let x = ftable s f in
      if \<not> f_writable x then Ret (-1) s
      else case f_type x of
        FD_PIPE \<Rightarrow> pipewrite (f_pipe x) addr n s
      | FD_DEVICE \<Rightarrow>
          (case dev_fn (devsw_write s) (f_major x) of
             None \<Rightarrow> Ret (-1) s
           | Some fn \<Rightarrow> dev_call fn addr n s)
      | FD_INODE \<Rightarrow> bnd (filewrite_loop f addr n 0 s) (\<lambda>i s. Ret (if i = n then n else -1) s)
      | FD_NONE \<Rightarrow> Panic ''filewrite'')"

end
