(* ===== verification/Life.thy ===== *)
theory Life
  imports File
begin

text \<open>
  The life of a process: the functions of kernel/proc.c that open and close its files
  (\<open>userinit\<close>, \<open>fork\<close>, \<open>exit\<close>, \<open>wait\<close>, \<open>forkret\<close>), and \<open>exec\<close> of kernel/exec.c.
\<close>

unbundle bit_operations_syntax

section \<open>The first process\<close>

text \<open>The instructions of user/initcode.S.\<close>

definition initcode :: "uchar list" where
  "initcode = [
     0x17, 0x05, 0x00, 0x00, 0x13, 0x05, 0x45, 0x02,
     0x97, 0x05, 0x00, 0x00, 0x93, 0x85, 0x35, 0x02,
     0x93, 0x08, 0x70, 0x00, 0x73, 0x00, 0x00, 0x00,
     0x93, 0x08, 0x20, 0x00, 0x73, 0x00, 0x00, 0x00,
     0xef, 0xf0, 0x9f, 0xff, 0x2f, 0x69, 0x6e, 0x69,
     0x74, 0x00, 0x00, 0x24, 0x00, 0x00, 0x00, 0x00,
     0x00, 0x00, 0x00, 0x00]"

text \<open>\<open>safestrcpy(name, s, 16)\<close>: \<open>old\<close> is the array before, \<open>t\<close> the string without its NUL.\<close>

definition set_name :: "uchar list \<Rightarrow> uchar list \<Rightarrow> uchar list" where
  "set_name t old = (let t = take 15 t @ [0] in t @ drop (length t) old)"

definition str_bytes :: "string \<Rightarrow> uchar list" where
  "str_bytes t = map (\<lambda>c. of_char c) t"

definition userinit :: "'a kfile_scheme \<Rightarrow> (unit, 'a kfile_scheme) outcome" where
  "userinit s =
     bnd (allocproc s) (\<lambda>r s.
     case r of
       None \<Rightarrow> null_deref
     | Some p \<Rightarrow>
         bnd (uvmfirst (p_pagetable (proc_tab s p)) initcode (s\<lparr>initproc := Some p\<rparr>)) (\<lambda>_ s.
         let s = upd_proc p (\<lambda>q. q\<lparr>p_sz := PGSIZE\<rparr>) s;
             s = tf_set p TF_EPC 0 s;
             s = tf_set p TF_SP PGSIZE s;
             s = upd_proc p (\<lambda>q. q\<lparr>p_name := set_name (str_bytes ''initcode'') (p_name q)\<rparr>) s
         in bnd (namei [slash] s) (\<lambda>ip s.
            Ret () (upd_proc p (\<lambda>q. q\<lparr>p_cwd := ip, p_state := RUNNABLE\<rparr>) s))))"

section \<open>Fork\<close>

fun dup_files :: "nat \<Rightarrow> nat \<Rightarrow> nat list \<Rightarrow> 'a kfile_scheme \<Rightarrow> (unit, 'a kfile_scheme) outcome" where
  "dup_files p np [] s = Ret () s"
| "dup_files p np (i # is) s =
     (case p_ofile (proc_tab s p) i of
        None \<Rightarrow> dup_files p np is s
      | Some f \<Rightarrow> bnd (filedup f s) (\<lambda>f s.
          dup_files p np is (upd_proc np (\<lambda>q. q\<lparr>p_ofile := (p_ofile q)(i := Some f)\<rparr>) s)))"

definition fork :: "'a kfile_scheme \<Rightarrow> (int, 'a kfile_scheme) outcome" where
  "fork = myproc (\<lambda>p s.
     bnd (allocproc s) (\<lambda>r s.
     case r of
       None \<Rightarrow> Ret (-1) s
     | Some np \<Rightarrow>
         bnd (uvmcopy (p_pagetable (proc_tab s p)) (p_pagetable (proc_tab s np)) (p_sz (proc_tab s p)) s) (\<lambda>r s.
         if r < 0 then bnd (freeproc np s) (\<lambda>_ s. Ret (-1) s)
         else
           let s = upd_proc np (\<lambda>q. q\<lparr>p_sz := p_sz (proc_tab s p)\<rparr>) s;
               s = s\<lparr>mem := store_bytes (mem s) (p_trapframe (proc_tab s np))
                      (load_bytes (mem s) (p_trapframe (proc_tab s p)) 288)\<rparr>;
               s = tf_set np (TF_A 0) 0 s
           in
           bnd (dup_files p np [0..<NOFILE] s) (\<lambda>_ s.
           bnd (case p_cwd (proc_tab s p) of None \<Rightarrow> null_deref | Some ip \<Rightarrow> idup ip s) (\<lambda>ip s.
           let s = upd_proc np (\<lambda>q. q\<lparr>p_cwd := Some ip,
                     p_name := set_name (takeWhile (\<lambda>b. b \<noteq> 0) (p_name (proc_tab s p))) (p_name q)\<rparr>) s;
               pid = p_pid (proc_tab s np);
               s = upd_proc np (\<lambda>q. q\<lparr>p_parent := Some p\<rparr>) s;
               s = upd_proc np (\<lambda>q. q\<lparr>p_state := RUNNABLE\<rparr>) s
           in Ret (sint pid) s)))))"

section \<open>Exit and wait\<close>

fun close_files :: "nat \<Rightarrow> nat list \<Rightarrow> 'a kfile_scheme \<Rightarrow> (unit, 'a kfile_scheme) outcome" where
  "close_files p [] s = Ret () s"
| "close_files p (fd # fds) s =
     (case p_ofile (proc_tab s p) fd of
        None \<Rightarrow> close_files p fds s
      | Some f \<Rightarrow> bnd (fileclose f s) (\<lambda>_ s.
          close_files p fds (upd_proc p (\<lambda>q. q\<lparr>p_ofile := (p_ofile q)(fd := None)\<rparr>) s)))"

text \<open>\<open>wakeup(p->parent)\<close>; a null parent is a channel nobody sleeps on.\<close>

definition wakeup_parent :: "nat \<Rightarrow> 'a kproc_scheme \<Rightarrow> 'a kproc_scheme" where
  "wakeup_parent p s = (case p_parent (proc_tab s p) of None \<Rightarrow> s | Some q \<Rightarrow> wakeup (ChProc q) s)"

text \<open>\<open>exit\<close>, up to its call of \<open>sched\<close>, from which it does not come back.\<close>

definition exit :: "uint \<Rightarrow> 'a kfile_scheme \<Rightarrow> ('b, 'a kfile_scheme) outcome" where
  "exit status = myproc (\<lambda>p s.
     if initproc s = Some p then Panic ''init exiting''
     else
       bnd (close_files p [0..<NOFILE] s) (\<lambda>_ s.
       bnd (begin_op s) (\<lambda>_ s.
       bnd (iput_ptr (p_cwd (proc_tab s p)) s) (\<lambda>_ s.
       bnd (end_op s) (\<lambda>_ s.
       let s = upd_proc p (\<lambda>q. q\<lparr>p_cwd := None\<rparr>) s;
           s = reparent p s;
           s = wakeup_parent p s
       in Gone (upd_proc p (\<lambda>q. q\<lparr>p_xstate := status, p_state := ZOMBIE\<rparr>) s))))))"

text \<open>\<open>wait\<close>; woken up, it scans the table again.\<close>

definition wait :: "uint64 \<Rightarrow> 'a kfile_scheme \<Rightarrow> (int, 'a kfile_scheme) outcome" where
  "wait addr = myproc (\<lambda>p s.
     case first_idx (\<lambda>pp. p_parent (proc_tab s pp) = Some p \<and> p_state (proc_tab s pp) = ZOMBIE) NPROC of
       Some pp \<Rightarrow>
         let pid = p_pid (proc_tab s pp) in
         bnd (if addr \<noteq> 0 then copyout (p_pagetable (proc_tab s p)) addr (le_bytes 4 (p_xstate (proc_tab s pp))) s
              else Ret 0 s) (\<lambda>r s.
         if r < 0 then Ret (-1) s
         else bnd (freeproc pp s) (\<lambda>_ s. Ret (sint pid) s))
     | None \<Rightarrow>
         if (\<forall>pp \<in> set [0..<NPROC]. p_parent (proc_tab s pp) \<noteq> Some p) \<or> killed p s then Ret (-1) s
         else sleep (ChProc p) s)"

section \<open>Exec (exec.c)\<close>

definition get64 :: "uchar list \<Rightarrow> nat \<Rightarrow> uint64" where
  "get64 bs off = le_word (take 8 (drop off bs))"

definition flags2perm :: "uint \<Rightarrow> uint64" where
  "flags2perm flags =
     (let perm = (if flags AND 1 \<noteq> 0 then PTE_X else 0) in
      if flags AND 2 \<noteq> 0 then perm OR PTE_W else perm)"

text \<open>\<open>loadseg\<close> from byte \<open>i\<close> of the segment on.\<close>

function loadseg_loop ::
  "uint64 \<Rightarrow> uint64 \<Rightarrow> nat \<Rightarrow> uint \<Rightarrow> nat \<Rightarrow> nat \<Rightarrow> 'a kfs_scheme \<Rightarrow> (int, 'a kfs_scheme) outcome" where
  "loadseg_loop pagetable va ip offset sz i s =
     (if i < sz then
        bnd (walkaddr pagetable (va + of_nat i) s) (\<lambda>pa s.
        if pa = 0 then Panic ''loadseg: address should exist''
        else
          let n = (if sz - i < 4096 then sz - i else 4096) in
          bnd (readi ip (KernDst pa) (offset + of_nat i) (of_nat n) s) (\<lambda>(r, _) s.
          if r \<noteq> int n then Ret (-1) s
          else loadseg_loop pagetable va ip offset sz (i + 4096) s))
      else Ret 0 s)"
  by pat_completeness auto
termination
  by (relation "measure (\<lambda>(pt, va, ip, offset, sz, i, s). sz - i)") auto

declare loadseg_loop.simps [simp del]

definition loadseg ::
  "uint64 \<Rightarrow> uint64 \<Rightarrow> nat \<Rightarrow> uint \<Rightarrow> uint \<Rightarrow> 'a kfs_scheme \<Rightarrow> (int, 'a kfs_scheme) outcome" where
  "loadseg pagetable va ip offset sz s = loadseg_loop pagetable va ip offset (unat sz) 0 s"

text \<open>
  The loop over the program headers, with \<open>k\<close> headers left, from file offset \<open>off\<close>: whether
  it went through, and the size \<open>sz\<close> it has reached.
\<close>

fun exec_load ::
  "nat \<Rightarrow> nat \<Rightarrow> uint64 \<Rightarrow> uint \<Rightarrow> uint64 \<Rightarrow> 'a kfs_scheme \<Rightarrow> (bool \<times> uint64, 'a kfs_scheme) outcome" where
  "exec_load 0 ip pagetable off sz s = Ret (True, sz) s"
| "exec_load (Suc k) ip pagetable off sz s =
     bnd (readi ip LocalDst off 56 s) (\<lambda>(r, ph) s.
     if r \<noteq> 56 then Ret (False, sz) s
     else if get32 ph 0 \<noteq> 1 then exec_load k ip pagetable (off + 56) sz s
     else
       let fl = get32 ph 4; foff = get64 ph 8; vaddr = get64 ph 16; filesz = get64 ph 32; memsz = get64 ph 40 in
       if memsz < filesz then Ret (False, sz) s
       else if vaddr + memsz < vaddr then Ret (False, sz) s
       else if vaddr mod PGSIZE \<noteq> 0 then Ret (False, sz) s
       else
         bnd (uvmalloc pagetable sz (vaddr + memsz) (flags2perm fl) s) (\<lambda>sz1 s.
         if sz1 = 0 then Ret (False, sz) s
         else
           bnd (loadseg pagetable vaddr ip (ucast foff) (ucast filesz) s) (\<lambda>r s.
           if r < 0 then Ret (False, sz1) s
           else exec_load k ip pagetable (off + 56) sz1 s)))"

text \<open>The loop that pushes the argument strings; \<open>None\<close> is \<open>goto bad\<close>.\<close>

fun exec_args ::
  "uint64 \<Rightarrow> uint64 \<Rightarrow> uchar list list \<Rightarrow> uint64 \<Rightarrow> uint64 list \<Rightarrow> 'a kmem_scheme
    \<Rightarrow> ((uint64 \<times> uint64 list) option, 'a kmem_scheme) outcome" where
  "exec_args pagetable stackbase [] sp ustack s = Ret (Some (sp, ustack @ [0])) s"
| "exec_args pagetable stackbase (a # argv) sp ustack s =
     (if length ustack \<ge> MAXARG then Ret None s
      else
        let sp = sp - (of_nat (length a) + 1);
            sp = sp - sp mod 16
        in if sp < stackbase then Ret None s
           else
             bnd (copyout pagetable sp (a @ [0]) s) (\<lambda>r s.
             if r < 0 then Ret None s
             else exec_args pagetable stackbase argv sp (ustack @ [sp]) s))"

text \<open>The label \<open>bad\<close>.\<close>

definition exec_bad ::
  "uint64 \<Rightarrow> uint64 \<Rightarrow> nat option \<Rightarrow> 'a kfs_scheme \<Rightarrow> (int, 'a kfs_scheme) outcome" where
  "exec_bad pagetable sz ip s =
     bnd (if pagetable \<noteq> 0 then proc_freepagetable pagetable sz s else Ret () s) (\<lambda>_ s.
     case ip of
       None \<Rightarrow> Ret (-1) s
     | Some ip \<Rightarrow> bnd (iunlockput ip s) (\<lambda>_ s. bnd (end_op s) (\<lambda>_ s. Ret (-1) s)))"

definition last_elem :: "uchar list \<Rightarrow> uchar list" where
  "last_elem path = rev (takeWhile (\<lambda>c. c \<noteq> slash) (rev path))"

text \<open>The second half of \<open>exec\<close>: the stack, the arguments, and the switch to the new image.\<close>

definition exec_stack ::
  "nat \<Rightarrow> uchar list \<Rightarrow> uchar list list \<Rightarrow> uint64 \<Rightarrow> uint64 \<Rightarrow> uint64 \<Rightarrow> 'a kfs_scheme
    \<Rightarrow> (int, 'a kfs_scheme) outcome" where
  "exec_stack p path argv entry pagetable sz s =
     (let oldsz = p_sz (proc_tab s p); sz = PGROUNDUP sz in
      bnd (uvmalloc pagetable sz (sz + 2 * PGSIZE) PTE_W s) (\<lambda>sz1 s.
      if sz1 = 0 then exec_bad pagetable sz None s
      else
        bnd (uvmclear pagetable (sz1 - 2 * PGSIZE) s) (\<lambda>_ s.
        bnd (exec_args pagetable (sz1 - PGSIZE) argv sz1 [] s) (\<lambda>r s.
        case r of
          None \<Rightarrow> exec_bad pagetable sz1 None s
        | Some (sp, ustack) \<Rightarrow>
            let sp = sp - of_nat (length ustack) * 8;
                sp = sp - sp mod 16
            in if sp < sz1 - PGSIZE then exec_bad pagetable sz1 None s
               else
                 bnd (copyout pagetable sp (concat (map (le_bytes 8) ustack)) s) (\<lambda>r s.
                 if r < 0 then exec_bad pagetable sz1 None s
                 else
                   let s = tf_set p (TF_A 1) sp s;
                       s = upd_proc p (\<lambda>q. q\<lparr>p_name := set_name (last_elem path) (p_name q)\<rparr>) s;
                       oldpagetable = p_pagetable (proc_tab s p);
                       s = upd_proc p (\<lambda>q. q\<lparr>p_pagetable := pagetable, p_sz := sz1\<rparr>) s;
                       s = tf_set p TF_EPC entry s;
                       s = tf_set p TF_SP sp s
                   in bnd (proc_freepagetable oldpagetable oldsz s) (\<lambda>_ s.
                      Ret (int (length ustack) - 1) s)))))) "

definition exec :: "uchar list \<Rightarrow> uchar list list \<Rightarrow> 'a kfs_scheme \<Rightarrow> (int, 'a kfs_scheme) outcome" where
  "exec path argv = myproc (\<lambda>p s.
     bnd (begin_op s) (\<lambda>_ s.
     bnd (namei path s) (\<lambda>r s.
     case r of
       None \<Rightarrow> bnd (end_op s) (\<lambda>_ s. Ret (-1) s)
     | Some ip \<Rightarrow>
         bnd (ilock ip s) (\<lambda>_ s.
         bnd (readi ip LocalDst 0 64 s) (\<lambda>(r, elf) s.
         if r \<noteq> 64 then exec_bad 0 0 (Some ip) s
         else if get32 elf 0 \<noteq> 0x464C457F then exec_bad 0 0 (Some ip) s
         else
           bnd (proc_pagetable p s) (\<lambda>pagetable s.
           if pagetable = 0 then exec_bad 0 0 (Some ip) s
           else
             bnd (exec_load (unat (get16 elf 56)) ip pagetable (ucast (get64 elf 32)) 0 s) (\<lambda>(ok, sz) s.
             if \<not> ok then exec_bad pagetable sz (Some ip) s
             else
               bnd (iunlockput ip s) (\<lambda>_ s.
               bnd (end_op s) (\<lambda>_ s.
               exec_stack p path argv (get64 elf 24) pagetable sz s))))))))) "

end
