(* ===== verification/Syscall.thy ===== *)
theory Syscall
  imports Life
begin

text \<open>
  The system calls: argument fetching and dispatch of kernel/syscall.c, the file-system
  calls of kernel/sysfile.c and the process calls of kernel/sysproc.c. A call returns the
  64-bit value that goes to register \<open>a0\<close>. A path is the bytes of the string without its NUL.
\<close>

unbundle bit_operations_syntax

abbreviation (input) err :: uint64 where "err \<equiv> - 1"

section \<open>Arguments (syscall.c)\<close>

definition fetchaddr :: "uint64 \<Rightarrow> 'a kproc_scheme \<Rightarrow> (int \<times> uint64, 'a kproc_scheme) outcome" where
  "fetchaddr addr = myproc (\<lambda>p s.
     if addr \<ge> p_sz (proc_tab s p) \<or> addr + 8 > p_sz (proc_tab s p) then Ret (-1, 0) s
     else
       bnd (copyin (p_pagetable (proc_tab s p)) addr 8 s) (\<lambda>(r, bs) s.
       if r \<noteq> 0 then Ret (-1, 0) s else Ret (0, le_word bs) s))"

definition fetchstr :: "uint64 \<Rightarrow> nat \<Rightarrow> 'a kproc_scheme \<Rightarrow> (int \<times> uchar list, 'a kproc_scheme) outcome" where
  "fetchstr addr n = myproc (\<lambda>p s.
     bnd (copyinstr (p_pagetable (proc_tab s p)) addr n s) (\<lambda>(r, bs) s.
     if r < 0 then Ret (-1, []) s
     else let t = takeWhile (\<lambda>b. b \<noteq> 0) bs in Ret (int (length t), t) s))"

definition argraw :: "nat \<Rightarrow> 'a kproc_scheme \<Rightarrow> (uint64, 'a kproc_scheme) outcome" where
  "argraw n = myproc (\<lambda>p s. if n < 6 then Ret (tf_get p (TF_A n) s) s else Panic ''argraw'')"

definition argint :: "nat \<Rightarrow> 'a kproc_scheme \<Rightarrow> (uint, 'a kproc_scheme) outcome" where
  "argint n s = bnd (argraw n s) (\<lambda>v s. Ret (ucast v) s)"

definition argaddr :: "nat \<Rightarrow> 'a kproc_scheme \<Rightarrow> (uint64, 'a kproc_scheme) outcome" where
  "argaddr n s = argraw n s"

definition argstr :: "nat \<Rightarrow> nat \<Rightarrow> 'a kproc_scheme \<Rightarrow> (int \<times> uchar list, 'a kproc_scheme) outcome" where
  "argstr n m s = bnd (argaddr n s) (\<lambda>addr s. fetchstr addr m s)"

section \<open>Descriptors (sysfile.c)\<close>

definition argfd :: "nat \<Rightarrow> 'a kproc_scheme \<Rightarrow> ((nat \<times> nat) option, 'a kproc_scheme) outcome" where
  "argfd n s = bnd (argint n s) (\<lambda>fd. myproc (\<lambda>p s.
     if sint fd < 0 \<or> sint fd \<ge> int NOFILE then Ret None s
     else Ret (map_option (Pair (unat fd)) (p_ofile (proc_tab s p) (unat fd))) s))"

definition fdalloc_proc :: "nat \<Rightarrow> 'a kproc_scheme \<Rightarrow> (nat option, 'a kproc_scheme) outcome" where
  "fdalloc_proc f = myproc (\<lambda>p s.
     case first_idx (\<lambda>fd. p_ofile (proc_tab s p) fd = None) NOFILE of
       None \<Rightarrow> Ret None s
     | Some fd \<Rightarrow> Ret (Some fd) (upd_proc p (\<lambda>q. q\<lparr>p_ofile := (p_ofile q)(fd := Some f)\<rparr>) s))"

definition clear_fd :: "nat \<Rightarrow> nat \<Rightarrow> 'a kproc_scheme \<Rightarrow> 'a kproc_scheme" where
  "clear_fd p fd s = upd_proc p (\<lambda>q. q\<lparr>p_ofile := (p_ofile q)(fd := None)\<rparr>) s"

definition sys_dup :: "'a kfile_scheme \<Rightarrow> (uint64, 'a kfile_scheme) outcome" where
  "sys_dup s =
     bnd (argfd 0 s) (\<lambda>r s.
     case r of
       None \<Rightarrow> Ret err s
     | Some (_, f) \<Rightarrow>
         bnd (fdalloc_proc f s) (\<lambda>r s.
         case r of
           None \<Rightarrow> Ret err s
         | Some fd \<Rightarrow> bnd (filedup f s) (\<lambda>_ s. Ret (of_nat fd) s)))"

definition sys_read :: "'a kfile_scheme \<Rightarrow> (uint64, 'a kfile_scheme) outcome" where
  "sys_read s =
     bnd (argaddr 1 s) (\<lambda>p s.
     bnd (argint 2 s) (\<lambda>n s.
     bnd (argfd 0 s) (\<lambda>r s.
     case r of
       None \<Rightarrow> Ret err s
     | Some (_, f) \<Rightarrow> bnd (fileread f p (sint n) s) (\<lambda>r s. Ret (of_int r) s))))"

definition sys_write :: "'a kfile_scheme \<Rightarrow> (uint64, 'a kfile_scheme) outcome" where
  "sys_write s =
     bnd (argaddr 1 s) (\<lambda>p s.
     bnd (argint 2 s) (\<lambda>n s.
     bnd (argfd 0 s) (\<lambda>r s.
     case r of
       None \<Rightarrow> Ret err s
     | Some (_, f) \<Rightarrow> bnd (filewrite f p (sint n) s) (\<lambda>r s. Ret (of_int r) s))))"

definition sys_close :: "'a kfile_scheme \<Rightarrow> (uint64, 'a kfile_scheme) outcome" where
  "sys_close s =
     bnd (argfd 0 s) (\<lambda>r s.
     case r of
       None \<Rightarrow> Ret err s
     | Some (fd, f) \<Rightarrow> myproc (\<lambda>p s. bnd (fileclose f (clear_fd p fd s)) (\<lambda>_ s. Ret 0 s)) s)"

text \<open>\<open>pad\<close>: the uninitialised padding of the variable \<open>st\<close> of \<open>filestat\<close>.\<close>

definition sys_fstat :: "uchar list \<Rightarrow> 'a kfile_scheme \<Rightarrow> (uint64, 'a kfile_scheme) outcome" where
  "sys_fstat pad s =
     bnd (argaddr 1 s) (\<lambda>st s.
     bnd (argfd 0 s) (\<lambda>r s.
     case r of
       None \<Rightarrow> Ret err s
     | Some (_, f) \<Rightarrow> bnd (filestat pad f st s) (\<lambda>r s. Ret (of_int r) s)))"

section \<open>Names (sysfile.c)\<close>

definition set_nlink :: "nat \<Rightarrow> (ushort \<Rightarrow> ushort) \<Rightarrow> 'a kfs_scheme \<Rightarrow> 'a kfs_scheme" where
  "set_nlink ip f s = upd_inode ip (\<lambda>x. x\<lparr>i_d := (i_d x)\<lparr>d_nlink := f (d_nlink (i_d x))\<rparr>\<rparr>) s"

text \<open>Return \<open>-1\<close> after closing the transaction.\<close>

definition fail_op :: "'a klog_scheme \<Rightarrow> (uint64, 'a klog_scheme) outcome" where
  "fail_op s = bnd (end_op s) (\<lambda>_ s. Ret err s)"

definition link_bad :: "nat \<Rightarrow> 'a kfs_scheme \<Rightarrow> (uint64, 'a kfs_scheme) outcome" where
  "link_bad ip s =
     bnd (ilock ip s) (\<lambda>_ s.
     bnd (iupdate ip (set_nlink ip (\<lambda>n. n - 1) s)) (\<lambda>_ s.
     bnd (iunlockput ip s) (\<lambda>_ s. fail_op s)))"

definition sys_link :: "'a kfs_scheme \<Rightarrow> (uint64, 'a kfs_scheme) outcome" where
  "sys_link s =
     bnd (argstr 0 MAXPATH s) (\<lambda>(r0, old) s.
     if r0 < 0 then Ret err s
     else
       bnd (argstr 1 MAXPATH s) (\<lambda>(r1, new) s.
       if r1 < 0 then Ret err s
       else
         bnd (begin_op s) (\<lambda>_ s.
         bnd (namei old s) (\<lambda>r s.
         case r of
           None \<Rightarrow> fail_op s
         | Some ip \<Rightarrow>
             bnd (ilock ip s) (\<lambda>_ s.
             if d_type (i_d (itable s ip)) = T_DIR then bnd (iunlockput ip s) (\<lambda>_ s. fail_op s)
             else
               bnd (iupdate ip (set_nlink ip (\<lambda>n. n + 1) s)) (\<lambda>_ s.
               bnd (iunlock ip s) (\<lambda>_ s.
               bnd (nameiparent new s) (\<lambda>r s.
               case r of
                 None \<Rightarrow> link_bad ip s
               | Some (dp, name) \<Rightarrow>
                   bnd (ilock dp s) (\<lambda>_ s.
                   bnd (if i_dev (itable s dp) \<noteq> i_dev (itable s ip) then Ret (-1) s
                        else dirlink dp name (i_inum (itable s ip)) s) (\<lambda>r s.
                   if r < 0 then bnd (iunlockput dp s) (\<lambda>_ s. link_bad ip s)
                   else
                     bnd (iunlockput dp s) (\<lambda>_ s.
                     bnd (iput ip s) (\<lambda>_ s.
                     bnd (end_op s) (\<lambda>_ s. Ret 0 s)))))))))))))"

function isdirempty_loop :: "nat \<Rightarrow> nat \<Rightarrow> nat \<Rightarrow> 'a kfs_scheme \<Rightarrow> (bool, 'a kfs_scheme) outcome" where
  "isdirempty_loop dp sz off s =
     (if off < sz then
        bnd (readi dp LocalDst (of_nat off) 16 s) (\<lambda>(r, de) s.
        if r \<noteq> 16 then Panic ''isdirempty: readi''
        else if de_inum de \<noteq> 0 then Ret False s
        else isdirempty_loop dp sz (off + 16) s)
      else Ret True s)"
  by pat_completeness auto
termination
  by (relation "measure (\<lambda>(dp, sz, off, s). sz - off)") auto

declare isdirempty_loop.simps [simp del]

definition isdirempty :: "nat \<Rightarrow> 'a kfs_scheme \<Rightarrow> (bool, 'a kfs_scheme) outcome" where
  "isdirempty dp s = isdirempty_loop dp (unat (d_size (i_d (itable s dp)))) 32 s"

definition unlink_bad :: "nat \<Rightarrow> 'a kfs_scheme \<Rightarrow> (uint64, 'a kfs_scheme) outcome" where
  "unlink_bad dp s = bnd (iunlockput dp s) (\<lambda>_ s. fail_op s)"

definition sys_unlink :: "'a kfs_scheme \<Rightarrow> (uint64, 'a kfs_scheme) outcome" where
  "sys_unlink s =
     bnd (argstr 0 MAXPATH s) (\<lambda>(r0, path) s.
     if r0 < 0 then Ret err s
     else
       bnd (begin_op s) (\<lambda>_ s.
       bnd (nameiparent path s) (\<lambda>r s.
       case r of
         None \<Rightarrow> fail_op s
       | Some (dp, name) \<Rightarrow>
           bnd (ilock dp s) (\<lambda>_ s.
           if namecmp name (str_bytes ''.'') = 0 \<or> namecmp name (str_bytes ''..'') = 0 then unlink_bad dp s
           else
             bnd (dirlookup dp name s) (\<lambda>r s.
             case r of
               None \<Rightarrow> unlink_bad dp s
             | Some (ip, off) \<Rightarrow>
                 bnd (ilock ip s) (\<lambda>_ s.
                 if sint (d_nlink (i_d (itable s ip))) < 1 then Panic ''unlink: nlink < 1''
                 else
                   bnd (if d_type (i_d (itable s ip)) = T_DIR then isdirempty ip s else Ret True s) (\<lambda>e s.
                   if \<not> e then bnd (iunlockput ip s) (\<lambda>_ s. unlink_bad dp s)
                   else
                     bnd (writei dp (LocalSrc (replicate 16 0)) (of_nat off) 16 s) (\<lambda>w s.
                     if w \<noteq> 16 then Panic ''unlink: writei''
                     else
                       bnd (if d_type (i_d (itable s ip)) = T_DIR
                            then iupdate dp (set_nlink dp (\<lambda>n. n - 1) s) else Ret () s) (\<lambda>_ s.
                       bnd (iunlockput dp s) (\<lambda>_ s.
                       bnd (iupdate ip (set_nlink ip (\<lambda>n. n - 1) s)) (\<lambda>_ s.
                       bnd (iunlockput ip s) (\<lambda>_ s.
                       bnd (end_op s) (\<lambda>_ s. Ret 0 s)))))))))))))"

text \<open>The label \<open>fail\<close> of \<open>create\<close>.\<close>

definition create_fail :: "nat \<Rightarrow> nat \<Rightarrow> 'a kfs_scheme \<Rightarrow> (nat option, 'a kfs_scheme) outcome" where
  "create_fail ip dp s =
     bnd (iupdate ip (set_nlink ip (\<lambda>_. 0) s)) (\<lambda>_ s.
     bnd (iunlockput ip s) (\<lambda>_ s.
     bnd (iunlockput dp s) (\<lambda>_ s. Ret None s)))"

text \<open>The entries \<open>.\<close> and \<open>..\<close> of a new directory.\<close>

definition link_dots :: "nat \<Rightarrow> nat \<Rightarrow> 'a kfs_scheme \<Rightarrow> (int, 'a kfs_scheme) outcome" where
  "link_dots ip dp s =
     bnd (dirlink ip (str_bytes ''.'') (i_inum (itable s ip)) s) (\<lambda>r s.
     if r < 0 then Ret (-1) s else dirlink ip (str_bytes ''..'') (i_inum (itable s dp)) s)"

definition create ::
  "uchar list \<Rightarrow> ushort \<Rightarrow> ushort \<Rightarrow> ushort \<Rightarrow> 'a kfs_scheme \<Rightarrow> (nat option, 'a kfs_scheme) outcome" where
  "create path t major minor s =
     bnd (nameiparent path s) (\<lambda>r s.
     case r of
       None \<Rightarrow> Ret None s
     | Some (dp, name) \<Rightarrow>
         bnd (ilock dp s) (\<lambda>_ s.
         bnd (dirlookup dp name s) (\<lambda>r s.
         case r of
           Some (ip, _) \<Rightarrow>
             bnd (iunlockput dp s) (\<lambda>_ s.
             bnd (ilock ip s) (\<lambda>_ s.
             if t = T_FILE \<and> (d_type (i_d (itable s ip)) = T_FILE \<or> d_type (i_d (itable s ip)) = T_DEVICE)
             then Ret (Some ip) s
             else bnd (iunlockput ip s) (\<lambda>_ s. Ret None s)))
         | None \<Rightarrow>
             bnd (ialloc (i_dev (itable s dp)) t s) (\<lambda>r s.
             case r of
               None \<Rightarrow> bnd (iunlockput dp s) (\<lambda>_ s. Ret None s)
             | Some ip \<Rightarrow>
                 bnd (ilock ip s) (\<lambda>_ s.
                 bnd (iupdate ip (upd_inode ip (\<lambda>x. x\<lparr>i_d := (i_d x)\<lparr>d_major := major, d_minor := minor, d_nlink := 1\<rparr>\<rparr>) s)) (\<lambda>_ s.
                 bnd (if t = T_DIR then link_dots ip dp s else Ret 0 s) (\<lambda>r s.
                 if r < 0 then create_fail ip dp s
                 else
                   bnd (dirlink dp name (i_inum (itable s ip)) s) (\<lambda>r s.
                   if r < 0 then create_fail ip dp s
                   else
                     bnd (if t = T_DIR then iupdate dp (set_nlink dp (\<lambda>n. n + 1) s) else Ret () s) (\<lambda>_ s.
                     bnd (iunlockput dp s) (\<lambda>_ s.
                     Ret (Some ip) s))))))))))"

abbreviation (input) OM_WRONLY :: uint where "OM_WRONLY \<equiv> 0x001"
abbreviation (input) OM_RDWR :: uint where "OM_RDWR \<equiv> 0x002"
abbreviation (input) OM_CREATE :: uint where "OM_CREATE \<equiv> 0x200"
abbreviation (input) OM_TRUNC :: uint where "OM_TRUNC \<equiv> 0x400"

text \<open>The first part of \<open>sys_open\<close>: the inode, locked, or \<open>None\<close> after an error, inside the transaction.\<close>

definition open_inode :: "uchar list \<Rightarrow> uint \<Rightarrow> 'a kfs_scheme \<Rightarrow> (nat option, 'a kfs_scheme) outcome" where
  "open_inode path omode s =
     bnd (if omode AND OM_CREATE \<noteq> 0 then create path T_FILE 0 0 s
          else
            bnd (namei path s) (\<lambda>r s.
            case r of
              None \<Rightarrow> Ret None s
            | Some ip \<Rightarrow>
                bnd (ilock ip s) (\<lambda>_ s.
                if d_type (i_d (itable s ip)) = T_DIR \<and> omode \<noteq> 0
                then bnd (iunlockput ip s) (\<lambda>_ s. Ret None s)
                else Ret (Some ip) s))) (\<lambda>r s.
     case r of
       None \<Rightarrow> Ret None s
     | Some ip \<Rightarrow>
         if d_type (i_d (itable s ip)) = T_DEVICE \<and>
            (sint (d_major (i_d (itable s ip))) < 0 \<or> sint (d_major (i_d (itable s ip))) \<ge> int NDEV)
         then bnd (iunlockput ip s) (\<lambda>_ s. Ret None s)
         else Ret (Some ip) s)"

text \<open>The fields \<open>sys_open\<close> gives to the new \<open>struct file\<close>.\<close>

definition open_fields :: "nat \<Rightarrow> uint \<Rightarrow> dinode \<Rightarrow> openfile \<Rightarrow> openfile" where
  "open_fields ip omode d x =
     (if d_type d = T_DEVICE then x\<lparr>f_type := FD_DEVICE, f_major := d_major d\<rparr>
      else x\<lparr>f_type := FD_INODE, f_off := 0\<rparr>)
     \<lparr>f_ip := Some ip, f_readable := (omode AND OM_WRONLY = 0),
      f_writable := (omode AND OM_WRONLY \<noteq> 0 \<or> omode AND OM_RDWR \<noteq> 0)\<rparr>"

definition sys_open :: "'a kfile_scheme \<Rightarrow> (uint64, 'a kfile_scheme) outcome" where
  "sys_open s =
     bnd (argint 1 s) (\<lambda>omode s.
     bnd (argstr 0 MAXPATH s) (\<lambda>(n, path) s.
     if n < 0 then Ret err s
     else
       bnd (begin_op s) (\<lambda>_ s.
       bnd (open_inode path omode s) (\<lambda>r s.
       case r of
         None \<Rightarrow> fail_op s
       | Some ip \<Rightarrow>
           bnd (filealloc s) (\<lambda>r s.
           case r of
             None \<Rightarrow> bnd (iunlockput ip s) (\<lambda>_ s. fail_op s)
           | Some f \<Rightarrow>
               bnd (fdalloc_proc f s) (\<lambda>r s.
               case r of
                 None \<Rightarrow>
                   bnd (fileclose f s) (\<lambda>_ s.
                   bnd (iunlockput ip s) (\<lambda>_ s. fail_op s))
               | Some fd \<Rightarrow>
                   let s = upd_file f (open_fields ip omode (i_d (itable s ip))) s in
                   bnd (if omode AND OM_TRUNC \<noteq> 0 \<and> d_type (i_d (itable s ip)) = T_FILE
                        then itrunc ip s else Ret () s) (\<lambda>_ s.
                   bnd (iunlock ip s) (\<lambda>_ s.
                   bnd (end_op s) (\<lambda>_ s. Ret (of_nat fd) s)))))))))"

definition sys_mkdir :: "'a kfs_scheme \<Rightarrow> (uint64, 'a kfs_scheme) outcome" where
  "sys_mkdir s =
     bnd (begin_op s) (\<lambda>_ s.
     bnd (argstr 0 MAXPATH s) (\<lambda>(n, path) s.
     if n < 0 then fail_op s
     else
       bnd (create path T_DIR 0 0 s) (\<lambda>r s.
       case r of
         None \<Rightarrow> fail_op s
       | Some ip \<Rightarrow> bnd (iunlockput ip s) (\<lambda>_ s. bnd (end_op s) (\<lambda>_ s. Ret 0 s)))))"

definition sys_mknod :: "'a kfs_scheme \<Rightarrow> (uint64, 'a kfs_scheme) outcome" where
  "sys_mknod s =
     bnd (begin_op s) (\<lambda>_ s.
     bnd (argint 1 s) (\<lambda>major s.
     bnd (argint 2 s) (\<lambda>minor s.
     bnd (argstr 0 MAXPATH s) (\<lambda>(n, path) s.
     if n < 0 then fail_op s
     else
       bnd (create path T_DEVICE (ucast major) (ucast minor) s) (\<lambda>r s.
       case r of
         None \<Rightarrow> fail_op s
       | Some ip \<Rightarrow> bnd (iunlockput ip s) (\<lambda>_ s. bnd (end_op s) (\<lambda>_ s. Ret 0 s)))))))"

definition sys_chdir :: "'a kfile_scheme \<Rightarrow> (uint64, 'a kfile_scheme) outcome" where
  "sys_chdir = myproc (\<lambda>p s.
     bnd (begin_op s) (\<lambda>_ s.
     bnd (argstr 0 MAXPATH s) (\<lambda>(n, path) s.
     if n < 0 then fail_op s
     else
       bnd (namei path s) (\<lambda>r s.
       case r of
         None \<Rightarrow> fail_op s
       | Some ip \<Rightarrow>
           bnd (ilock ip s) (\<lambda>_ s.
           if d_type (i_d (itable s ip)) \<noteq> T_DIR then bnd (iunlockput ip s) (\<lambda>_ s. fail_op s)
           else
             bnd (iunlock ip s) (\<lambda>_ s.
             bnd (iput_ptr (p_cwd (proc_tab s p)) s) (\<lambda>_ s.
             bnd (end_op s) (\<lambda>_ s.
             Ret 0 (upd_proc p (\<lambda>q. q\<lparr>p_cwd := Some ip\<rparr>) s)))))))))"

text \<open>
  The loop of \<open>sys_exec\<close> that copies the argument strings into fresh pages, with \<open>k\<close> entries
  of \<open>argv\<close> left: whether it reached the null pointer, the pages, and the strings in them.
\<close>

fun exec_fetch ::
  "uint64 \<Rightarrow> nat \<Rightarrow> nat \<Rightarrow> uint64 list \<Rightarrow> uchar list list \<Rightarrow> 'a kproc_scheme
    \<Rightarrow> (bool \<times> uint64 list \<times> uchar list list, 'a kproc_scheme) outcome" where
  "exec_fetch uargv 0 i pages argv s = Ret (False, pages, argv) s"
| "exec_fetch uargv (Suc k) i pages argv s =
     bnd (fetchaddr (uargv + 8 * of_nat i) s) (\<lambda>(r, uarg) s.
     if r < 0 then Ret (False, pages, argv) s
     else if uarg = 0 then Ret (True, pages, argv) s
     else
       bnd (kalloc s) (\<lambda>pg s.
       if pg = 0 then Ret (False, pages, argv) s
       else
         bnd (fetchstr uarg 4096 s) (\<lambda>(r, t) s.
         if r < 0 then Ret (False, pages @ [pg], argv) s
         else exec_fetch uargv k (Suc i) (pages @ [pg]) (argv @ [t])
           (s\<lparr>mem := store_bytes (mem s) pg (t @ [0])\<rparr>))))"

fun free_pages :: "uint64 list \<Rightarrow> 'a kmem_scheme \<Rightarrow> (unit, 'a kmem_scheme) outcome" where
  "free_pages [] s = Ret () s"
| "free_pages (pg # pgs) s = bnd (kfree pg s) (\<lambda>_ s. free_pages pgs s)"

definition sys_exec :: "'a kfs_scheme \<Rightarrow> (uint64, 'a kfs_scheme) outcome" where
  "sys_exec s =
     bnd (argaddr 1 s) (\<lambda>uargv s.
     bnd (argstr 0 MAXPATH s) (\<lambda>(n, path) s.
     if n < 0 then Ret err s
     else
       bnd (exec_fetch uargv MAXARG 0 [] [] s) (\<lambda>(ok, pages, argv) s.
       if \<not> ok then bnd (free_pages pages s) (\<lambda>_ s. Ret err s)
       else
         bnd (exec path argv s) (\<lambda>ret s.
         bnd (free_pages pages s) (\<lambda>_ s. Ret (of_int ret) s)))))"

definition pipe_undo :: "nat \<Rightarrow> nat \<Rightarrow> 'a kfile_scheme \<Rightarrow> (uint64, 'a kfile_scheme) outcome" where
  "pipe_undo rfile wfile s = bnd (fileclose rfile s) (\<lambda>_ s. bnd (fileclose wfile s) (\<lambda>_ s. Ret err s))"

definition sys_pipe :: "'a kfile_scheme \<Rightarrow> (uint64, 'a kfile_scheme) outcome" where
  "sys_pipe = myproc (\<lambda>p s.
     bnd (argaddr 0 s) (\<lambda>fdarray s.
     bnd (pipealloc s) (\<lambda>r s.
     case r of
       (_, Some rfile, Some wfile) \<Rightarrow>
         if fst r < 0 then Ret err s
         else
           bnd (fdalloc_proc rfile s) (\<lambda>r0 s.
           case r0 of
             None \<Rightarrow> pipe_undo rfile wfile s
           | Some fd0 \<Rightarrow>
               bnd (fdalloc_proc wfile s) (\<lambda>r1 s.
               case r1 of
                 None \<Rightarrow> pipe_undo rfile wfile (clear_fd p fd0 s)
               | Some fd1 \<Rightarrow>
                   bnd (copyout (p_pagetable (proc_tab s p)) fdarray (le_bytes 4 (of_nat fd0 :: uint)) s) (\<lambda>c s.
                   bnd (if c < 0 then Ret c s
                        else copyout (p_pagetable (proc_tab s p)) (fdarray + 4) (le_bytes 4 (of_nat fd1 :: uint)) s) (\<lambda>c s.
                   if c < 0 then pipe_undo rfile wfile (clear_fd p fd1 (clear_fd p fd0 s))
                   else Ret 0 s))))
     | _ \<Rightarrow> Ret err s)))"

section \<open>Processes (sysproc.c)\<close>

definition sys_exit :: "'a kfile_scheme \<Rightarrow> (uint64, 'a kfile_scheme) outcome" where
  "sys_exit s = bnd (argint 0 s) (\<lambda>n s. exit n s)"

definition sys_getpid :: "'a kproc_scheme \<Rightarrow> (uint64, 'a kproc_scheme) outcome" where
  "sys_getpid = myproc (\<lambda>p s. Ret (scast (p_pid (proc_tab s p))) s)"

definition sys_fork :: "'a kfile_scheme \<Rightarrow> (uint64, 'a kfile_scheme) outcome" where
  "sys_fork s = bnd (fork s) (\<lambda>r s. Ret (of_int r) s)"

definition sys_wait :: "'a kfile_scheme \<Rightarrow> (uint64, 'a kfile_scheme) outcome" where
  "sys_wait s = bnd (argaddr 0 s) (\<lambda>p s. bnd (wait p s) (\<lambda>r s. Ret (of_int r) s))"

definition sys_sbrk :: "'a kproc_scheme \<Rightarrow> (uint64, 'a kproc_scheme) outcome" where
  "sys_sbrk s =
     bnd (argint 0 s) (\<lambda>n. myproc (\<lambda>p s.
       let addr = p_sz (proc_tab s p) in
       bnd (growproc (sint n) s) (\<lambda>r s. if r < 0 then Ret err s else Ret addr s)))"

text \<open>
  \<open>sys_sleep\<close> at the test of its loop, \<open>ticks0\<close> ticks after the start of time: the comparison
  is of unsigned numbers.
\<close>

definition sleep_test :: "uint \<Rightarrow> uint \<Rightarrow> 'a kproc_scheme \<Rightarrow> (uint64, 'a kproc_scheme) outcome" where
  "sleep_test ticks0 n s =
     (if ticks s - ticks0 < n
      then myproc (\<lambda>p s. if killed p s then Ret err s else sleep ChTicks s) s
      else Ret 0 s)"

definition sys_sleep :: "'a kproc_scheme \<Rightarrow> (uint64, 'a kproc_scheme) outcome" where
  "sys_sleep s = bnd (argint 0 s) (\<lambda>n s. sleep_test (ticks s) n s)"

definition sys_kill :: "'a kproc_scheme \<Rightarrow> (uint64, 'a kproc_scheme) outcome" where
  "sys_kill s = bnd (argint 0 s) (\<lambda>pid s. bnd (kill pid s) (\<lambda>r s. Ret (of_int r) s))"

definition sys_uptime :: "'a kproc_scheme \<Rightarrow> (uint64, 'a kproc_scheme) outcome" where
  "sys_uptime s = Ret (ucast (ticks s)) s"

section \<open>Dispatch (syscall.c)\<close>

text \<open>The table \<open>syscalls\<close>, with the numbers of kernel/syscall.h.\<close>

definition syscalls ::
  "uchar list \<Rightarrow> nat \<Rightarrow> ('a kfile_scheme \<Rightarrow> (uint64, 'a kfile_scheme) outcome) option" where
  "syscalls pad n =
     map_of [(1, sys_fork), (2, sys_exit), (3, sys_wait), (4, sys_pipe), (5, sys_read), (6, sys_kill),
       (7, sys_exec), (8, sys_fstat pad), (9, sys_chdir), (10, sys_dup), (11, sys_getpid), (12, sys_sbrk),
       (13, sys_sleep), (14, sys_uptime), (15, sys_open), (16, sys_write), (17, sys_mknod),
       (18, sys_unlink), (19, sys_link), (20, sys_mkdir), (21, sys_close)] n"

definition syscall :: "uchar list \<Rightarrow> 'a kfile_scheme \<Rightarrow> (unit, 'a kfile_scheme) outcome" where
  "syscall pad = myproc (\<lambda>p s.
     let num = sint (ucast (tf_get p (TF_A 7) s) :: uint) in
     case (if num > 0 then syscalls pad (nat num) else None) of
       Some call \<Rightarrow> bnd (call s) (\<lambda>r s. Ret () (tf_set p (TF_A 0) r s))
     | None \<Rightarrow>
         let msg = the (kprintf (''%d %s: unknown sys call %d'' @ [CHR 0x0A])
               [VInt (scast (p_pid (proc_tab s p))), VStr (Some (bytes_str (p_name (proc_tab s p)))), VInt (of_int num)])
         in Ret () (tf_set p (TF_A 0) err (say msg s)))"

end
