(* ===== verification/Trap.thy ===== *)
theory Trap
  imports Syscall
begin

text \<open>
  Traps: kernel/trap.c, kernel/plic.c, \<open>forkret\<close> of kernel/proc.c and the boot sequence of
  kernel/main.c and kernel/start.c. The control and status registers of the executing hart
  are fields of the state; \<open>plic_irq\<close> is what the claim register of the interrupt controller
  reads, \<open>vstatus\<close> what the interrupt status register of the disk reads.
\<close>

unbundle bit_operations_syntax

abbreviation (input) SSTATUS_SPP :: uint64 where "SSTATUS_SPP \<equiv> 0x100"
abbreviation (input) SSTATUS_SPIE :: uint64 where "SSTATUS_SPIE \<equiv> 0x20"
abbreviation (input) SSTATUS_SIE :: uint64 where "SSTATUS_SIE \<equiv> 0x2"

record ktrap = kfile +
  sstatus :: uint64
  sepc :: uint64
  scause :: uint64
  stval :: uint64
  stvec :: uint64
  sip :: uint64
  tp :: uint64
  plic_irq :: uint
  plic_w :: "(uint64 \<times> uint) list"   \<comment> \<open>writes to the interrupt controller\<close>
  vstatus :: uint
  forkret_first :: bool
  kernelvec_pc :: uint64
  usertrap_pc :: uint64
  uservec_pc :: uint64
  userret_pc :: uint64

section \<open>Interrupt enable (riscv.h)\<close>

definition intr_on :: "'a ktrap_scheme \<Rightarrow> 'a ktrap_scheme" where
  "intr_on s = s\<lparr>sstatus := sstatus s OR SSTATUS_SIE\<rparr>"

definition intr_off :: "'a ktrap_scheme \<Rightarrow> 'a ktrap_scheme" where
  "intr_off s = s\<lparr>sstatus := sstatus s AND NOT SSTATUS_SIE\<rparr>"

definition intr_get :: "'a ktrap_scheme \<Rightarrow> bool" where
  "intr_get s = (sstatus s AND SSTATUS_SIE \<noteq> 0)"

section \<open>The interrupt controller (plic.c)\<close>

definition cpuid :: "'a ktrap_scheme \<Rightarrow> nat" where
  "cpuid s = unat (tp s)"

definition plic_write :: "uint64 \<Rightarrow> uint \<Rightarrow> 'a ktrap_scheme \<Rightarrow> 'a ktrap_scheme" where
  "plic_write a v s = s\<lparr>plic_w := plic_w s @ [(a, v)]\<rparr>"

definition plicinit :: "'a ktrap_scheme \<Rightarrow> 'a ktrap_scheme" where
  "plicinit s = plic_write (PLIC + ucast VIRTIO0_IRQ * 4) 1 (plic_write (PLIC + ucast UART0_IRQ * 4) 1 s)"

definition plicinithart :: "'a ktrap_scheme \<Rightarrow> 'a ktrap_scheme" where
  "plicinithart s =
     plic_write (PLIC_SPRIORITY (cpuid s)) 0
      (plic_write (PLIC_SENABLE (cpuid s)) (push_bit (unat UART0_IRQ) 1 OR push_bit (unat VIRTIO0_IRQ) 1) s)"

definition plic_claim :: "'a ktrap_scheme \<Rightarrow> uint" where
  "plic_claim s = plic_irq s"

definition plic_complete :: "uint \<Rightarrow> 'a ktrap_scheme \<Rightarrow> 'a ktrap_scheme" where
  "plic_complete irq s = plic_write (PLIC_SCLAIM (cpuid s)) irq s"

section \<open>Device interrupts (trap.c)\<close>

definition trapinithart :: "'a ktrap_scheme \<Rightarrow> 'a ktrap_scheme" where
  "trapinithart s = s\<lparr>stvec := kernelvec_pc s\<rparr>"

definition clockintr :: "'a kproc_scheme \<Rightarrow> 'a kproc_scheme" where
  "clockintr s = wakeup ChTicks (s\<lparr>ticks := ticks s + 1\<rparr>)"

definition kprint :: "string \<Rightarrow> varg list \<Rightarrow> 'a machine_scheme \<Rightarrow> 'a machine_scheme" where
  "kprint fmt ap s = (case kprintf fmt ap of None \<Rightarrow> s | Some t \<Rightarrow> say t s)"

definition devintr :: "'a ktrap_scheme \<Rightarrow> (int, 'a ktrap_scheme) outcome" where
  "devintr s =
     (if scause s AND 0x8000000000000000 \<noteq> 0 \<and> scause s AND 0xff = 9 then
        let irq = plic_claim s in
        bnd (if irq = UART0_IRQ then uartintr s
             else if irq = VIRTIO0_IRQ then virtio_disk_intr (vstatus s) s
             else if irq \<noteq> 0 then Ret () (kprint (''unexpected interrupt irq=%d'' @ [CHR 0x0A]) [VInt (scast irq)] s)
             else Ret () s) (\<lambda>_ s.
        Ret 1 (if irq \<noteq> 0 then plic_complete irq s else s))
      else if scause s = 0x8000000000000001 then
        let s = (if cpuid s = 0 then clockintr s else s) in
        Ret 2 (s\<lparr>sip := sip s AND NOT 2\<rparr>)
      else Ret 0 s)"

section \<open>User traps\<close>

text \<open>\<open>usertrapret\<close>: the value is the argument of \<open>userret\<close> in trampoline.S, which it jumps to.\<close>

definition usertrapret :: "'a ktrap_scheme \<Rightarrow> (uint64, 'a ktrap_scheme) outcome" where
  "usertrapret = myproc (\<lambda>p s.
     let s = intr_off s;
         s = s\<lparr>stvec := TRAMPOLINE + (uservec_pc s - trampoline s)\<rparr>;
         s = tf_set p TF_SATP (satp s) s;
         s = tf_set p TF_KSP (p_kstack (proc_tab s p) + PGSIZE) s;
         s = tf_set p TF_KTRAP (usertrap_pc s) s;
         s = tf_set p TF_HARTID (tp s) s;
         s = s\<lparr>sstatus := (sstatus s AND NOT SSTATUS_SPP) OR SSTATUS_SPIE\<rparr>;
         s = s\<lparr>sepc := tf_get p TF_EPC s\<rparr>
     in Ret (MAKE_SATP (p_pagetable (proc_tab s p))) s)"

text \<open>
  \<open>usertrap\<close>; on a timer interrupt it yields, and what follows is what it does when it is
  scheduled again.
\<close>

definition usertrap :: "uchar list \<Rightarrow> 'a ktrap_scheme \<Rightarrow> (uint64, 'a ktrap_scheme) outcome" where
  "usertrap pad s =
     (if sstatus s AND SSTATUS_SPP \<noteq> 0 then Panic ''usertrap: not from user mode''
      else myproc (\<lambda>p s.
        let s = tf_set p TF_EPC (sepc s) s in
        bnd (if scause s = 8 then
               if killed p s then exit (-1) s
               else
                 let s = tf_set p TF_EPC (tf_get p TF_EPC s + 4) s in
                 bnd (syscall pad (intr_on s)) (\<lambda>_ s. Ret 0 s)
             else
               bnd (devintr s) (\<lambda>which_dev s.
               if which_dev \<noteq> 0 then Ret which_dev s
               else
                 let s = kprint (''usertrap(): unexpected scause %p pid=%d'' @ [CHR 0x0A])
                           [VInt (scause s), VInt (scast (p_pid (proc_tab s p)))] s;
                     s = kprint (''            sepc=%p stval=%p'' @ [CHR 0x0A]) [VInt (sepc s), VInt (stval s)] s
                 in Ret 0 (setkilled p s))) (\<lambda>which_dev s.
        if killed p s then exit (-1) s
        else bnd (if which_dev = 2 then yield s else Ret () s) (\<lambda>_ s. usertrapret s)))
        (s\<lparr>stvec := kernelvec_pc s\<rparr>))"

section \<open>Kernel traps\<close>

text \<open>The test \<open>myproc() != 0 && myproc()->state == RUNNING\<close>.\<close>

definition running :: "'a kproc_scheme \<Rightarrow> bool" where
  "running s = (case cpu_proc s of None \<Rightarrow> False | Some p \<Rightarrow> p_state (proc_tab s p) = RUNNING)"

definition kerneltrap :: "'a ktrap_scheme \<Rightarrow> (unit, 'a ktrap_scheme) outcome" where
  "kerneltrap s0 =
     (if sstatus s0 AND SSTATUS_SPP = 0 then Panic ''kerneltrap: not from supervisor mode''
      else if intr_get s0 then Panic ''kerneltrap: interrupts enabled''
      else
        bnd (devintr s0) (\<lambda>which_dev s.
        if which_dev = 0 then Panic ''kerneltrap''
        else
          bnd (if which_dev = 2 \<and> running s then yield s else Ret () s) (\<lambda>_ s.
          Ret () (s\<lparr>sepc := sepc s0, sstatus := sstatus s0\<rparr>))))"

definition forkret :: "'a ktrap_scheme \<Rightarrow> (uint64, 'a ktrap_scheme) outcome" where
  "forkret s =
     bnd (if forkret_first s then fsinit ROOTDEV (s\<lparr>forkret_first := False\<rparr>) else Ret () s) (\<lambda>_ s.
     usertrapret s)"

section \<open>Boot (start.c, main.c)\<close>

text \<open>The machine-mode registers that \<open>start\<close> sets up, and the memory \<open>timerinit\<close> writes.\<close>

record mregs =
  mstatus :: uint64
  mepc :: uint64
  m_satp :: uint64
  medeleg :: uint64
  mideleg :: uint64
  sie :: uint64
  pmpaddr0 :: uint64
  pmpcfg0 :: uint64
  mscratch :: uint64
  mtvec :: uint64
  mie :: uint64
  m_tp :: uint64
  mtimecmp :: uint64
  scratch3 :: uint64
  scratch4 :: uint64

definition CLINT_MTIMECMP :: "uint64 \<Rightarrow> uint64" where
  "CLINT_MTIMECMP hartid = 0x2000000 + 0x4000 + 8 * hartid"

text \<open>\<open>hartid\<close>, the timer and the addresses of the scratch area and of \<open>timervec\<close> are arguments.\<close>

definition timerinit :: "uint64 \<Rightarrow> uint64 \<Rightarrow> uint64 \<Rightarrow> uint64 \<Rightarrow> mregs \<Rightarrow> mregs" where
  "timerinit hartid mtime scratch timervec r =
     r\<lparr>mtimecmp := mtime + 1000000, scratch3 := CLINT_MTIMECMP hartid, scratch4 := 1000000,
       mscratch := scratch, mtvec := timervec, mstatus := mstatus r OR 8, mie := mie r OR 0x80\<rparr>"

definition start :: "uint64 \<Rightarrow> uint64 \<Rightarrow> uint64 \<Rightarrow> uint64 \<Rightarrow> uint64 \<Rightarrow> mregs \<Rightarrow> mregs" where
  "start hartid mtime scratch timervec main_pc r =
     (let r = r\<lparr>mstatus := (mstatus r AND NOT (push_bit 11 3)) OR push_bit 11 1\<rparr>;
          r = r\<lparr>mepc := main_pc, m_satp := 0, medeleg := 0xffff, mideleg := 0xffff,
                sie := sie r OR 0x200 OR 0x20 OR 0x2, pmpaddr0 := 0x3fffffffffffff, pmpcfg0 := 0xf\<rparr>;
          r = timerinit hartid mtime scratch timervec r
      in r\<lparr>m_tp := hartid\<rparr>)"

text \<open>\<open>main\<close> on the first hart, up to its call of \<open>scheduler\<close>.\<close>

definition kmain :: "uint64 \<Rightarrow> (nat \<Rightarrow> uint) \<Rightarrow> 'a ktrap_scheme \<Rightarrow> (unit, 'a ktrap_scheme) outcome" where
  "kmain etext rd s =
     (let s = consoleinit s;
          s = say [CHR 0x0A] s;
          s = say (''EEE3535 Operating Systems: booting xv6-riscv kernel'' @ [CHR 0x0A]) s
      in
      bnd (kinit s) (\<lambda>_ s.
      bnd (kvminit etext (trampoline s) s) (\<lambda>_ s.
      bnd (kvminithart s) (\<lambda>_ s.
      let s = procinit s;
          s = trapinithart s;
          s = plicinit s;
          s = plicinithart s;
          s = binit s;
          s = iinit s
      in
      bnd (virtio_disk_init rd s) (\<lambda>_ s.
      userinit s)))))"

end
