(* ===== verification/ShParse.thy ===== *)
theory ShParse
  imports Prelude
begin

text \<open>
  The parser of the shell, user/sh.c. The command line is a buffer; \<open>*ps\<close> is an index into
  it, \<open>es\<close> its length, where the terminating NUL is. A parsed word is the pair of its
  start and end index (\<open>q\<close> and \<open>eq\<close>), as in the C structures, until \<open>nulterminate\<close> puts a
  NUL at every end index and the word becomes a C string.
\<close>

section \<open>Tokens\<close>

abbreviation (input) MAXARGS :: nat where "MAXARGS \<equiv> 10"

definition whitespace :: string where
  "whitespace = [CHR '' '', CHR 0x09, CHR 0x0D, CHR 0x0A, CHR 0x0B]"

definition symbols :: string where
  "symbols = ''<|>&;()''"

text \<open>\<open>*s\<close> for an index \<open>s\<close> up to the NUL.\<close>

definition at :: "string \<Rightarrow> nat \<Rightarrow> char" where
  "at buf i = (if i < length buf then buf ! i else CHR 0x00)"

function skipws :: "string \<Rightarrow> nat \<Rightarrow> nat" where
  "skipws buf s =
     (if s < length buf \<and> at buf s \<in> set whitespace then skipws buf (Suc s) else s)"
  by pat_completeness auto
termination by (relation "measure (\<lambda>(buf, s). length buf - s)") auto

declare skipws.simps [simp del]

function skipword :: "string \<Rightarrow> nat \<Rightarrow> nat" where
  "skipword buf s =
     (if s < length buf \<and> at buf s \<notin> set whitespace \<and> at buf s \<notin> set symbols
      then skipword buf (Suc s) else s)"
  by pat_completeness auto
termination by (relation "measure (\<lambda>(buf, s). length buf - s)") auto

declare skipword.simps [simp del]

text \<open>\<open>gettoken\<close>: the token's kind (NUL at the end of the line), \<open>q\<close>, \<open>eq\<close> and the new \<open>*ps\<close>.\<close>

definition gettoken :: "string \<Rightarrow> nat \<Rightarrow> char \<times> nat \<times> nat \<times> nat" where
  "gettoken buf ps =
     (let q = skipws buf ps;
          c = at buf q;
          (ret, s) =
            (if c = CHR 0x00 then (c, q)
             else if c \<in> set ''|();&<'' then (c, Suc q)
             else if c = CHR ''>'' then
               (if at buf (Suc q) = CHR ''>'' then (CHR ''+'', Suc (Suc q)) else (c, Suc q))
             else (CHR ''a'', skipword buf q))
      in (ret, q, s, skipws buf s))"

definition peek :: "string \<Rightarrow> nat \<Rightarrow> string \<Rightarrow> nat \<times> bool" where
  "peek buf ps toks =
     (let s = skipws buf ps in (s, at buf s \<noteq> CHR 0x00 \<and> at buf s \<in> set toks))"

section \<open>Commands\<close>

type_synonym word = "nat \<times> nat"

datatype omode = O_RDONLY | O_WRONLY_CREATE_TRUNC | O_WRONLY_CREATE | O_RDWR

datatype 'w cmd =
    EXEC "'w list"
  | REDIR "'w cmd" 'w omode nat
  | PIPE "'w cmd" "'w cmd"
  | LIST "'w cmd" "'w cmd"
  | BACK "'w cmd"

text \<open>
  A parse fails with a call of \<open>panic\<close>. The mutually recursive functions carry fuel, the
  depth of the C stack they may use; \<open>OutOfFuel\<close> is never the result with the fuel that
  \<open>parsecmd\<close> gives them, which is theorem \<open>parsecmd_terminates\<close>.
\<close>

datatype parse_error = Syntax string | OutOfFuel

type_synonym 'a presult = "parse_error + 'a"

fun pbind :: "'a presult \<Rightarrow> ('a \<Rightarrow> 'b presult) \<Rightarrow> 'b presult" where
  "pbind (Inl e) f = Inl e"
| "pbind (Inr a) f = f a"

lemma pbind_cong [fundef_cong]:
  "m = m' \<Longrightarrow> (\<And>a. m' = Inr a \<Longrightarrow> f a = g a) \<Longrightarrow> pbind m f = pbind m' g"
  by (cases m') auto

lemma pbind_Inr [simp]: "pbind m f = Inr b \<longleftrightarrow> (\<exists>a. m = Inr a \<and> f a = Inr b)"
  by (cases m) auto

lemma pbind_Inl: "pbind m f = Inl e \<longleftrightarrow> m = Inl e \<or> (\<exists>a. m = Inr a \<and> f a = Inl e)"
  by (cases m) auto

section \<open>Progress of the scanner\<close>

lemma skipws_ge: "s \<le> skipws buf s"
  by (induction buf s rule: skipws.induct) (subst skipws.simps, auto)

lemma skipws_le: "s \<le> length buf \<Longrightarrow> skipws buf s \<le> length buf"
  by (induction buf s rule: skipws.induct) (subst skipws.simps, auto)

lemma skipword_ge: "s \<le> skipword buf s"
  by (induction buf s rule: skipword.induct) (subst skipword.simps, auto)

lemma skipword_le: "s \<le> length buf \<Longrightarrow> skipword buf s \<le> length buf"
  by (induction buf s rule: skipword.induct) (subst skipword.simps, auto)

lemma at_nonnull: "at buf i \<noteq> CHR 0x00 \<Longrightarrow> i < length buf"
  by (auto simp: at_def split: if_splits)

lemma skipws_stop: "\<not> (skipws buf s < length buf \<and> at buf (skipws buf s) \<in> set whitespace)"
  by (induction buf s rule: skipws.induct) (subst (1 2) skipws.simps, auto)

lemma skipws_idem [simp]: "skipws buf (skipws buf s) = skipws buf s"
  using skipws_stop [of buf s] by (subst skipws.simps) auto

lemma skipword_moves:
  "s < length buf \<Longrightarrow> at buf s \<notin> set whitespace \<Longrightarrow> at buf s \<notin> set symbols \<Longrightarrow> s < skipword buf s"
  using skipword_ge [of "Suc s" buf] by (subst skipword.simps) simp

lemma gettoken_bounds:
  assumes "gettoken buf ps = (t, q, eq, ps')"
  shows "ps \<le> q" "q \<le> eq" "eq \<le> ps'" "t \<noteq> CHR 0x00 \<Longrightarrow> q < eq"
    "ps \<le> length buf \<Longrightarrow> ps' \<le> length buf"
proof -
  let ?q = "skipws buf ps"
  have q: "q = ?q" "ps \<le> q" using assms skipws_ge [of ps buf] by (auto simp: gettoken_def Let_def split: if_splits)
  show "ps \<le> q" by (rule q(2))
  have stop: "\<not> (?q < length buf \<and> at buf ?q \<in> set whitespace)" by (rule skipws_stop)
  have mv: "?q < skipword buf ?q" if "at buf ?q \<noteq> CHR 0x00" "at buf ?q \<notin> set ''|();&<''" "at buf ?q \<noteq> CHR ''>''"
    using that stop at_nonnull [OF that(1)] by (intro skipword_moves) (auto simp: symbols_def)
  show "q \<le> eq" "t \<noteq> CHR 0x00 \<Longrightarrow> q < eq"
    using assms mv by (auto simp: gettoken_def Let_def skipword_ge split: if_splits)
  show "eq \<le> ps'" using assms skipws_ge [of eq buf] by (auto simp: gettoken_def Let_def split: if_splits)
  assume le: "ps \<le> length buf"
  then have ql: "?q \<le> length buf" by (rule skipws_le)
  have "eq \<le> length buf"
    using assms ql skipword_le [OF ql] at_nonnull [of buf ?q] at_nonnull [of buf "Suc ?q"]
    by (auto simp: gettoken_def Let_def split: if_splits)
  then show "ps' \<le> length buf"
    using assms skipws_le [of eq buf] by (auto simp: gettoken_def Let_def split: if_splits)
qed

lemma peek_bounds:
  assumes "peek buf ps toks = (s, b)"
  shows "ps \<le> s" "ps \<le> length buf \<Longrightarrow> s \<le> length buf" "b \<Longrightarrow> s < length buf" "skipws buf s = s"
    "b \<Longrightarrow> at buf s \<in> set toks" "b \<Longrightarrow> at buf s \<noteq> CHR 0x00" "\<not> b \<Longrightarrow> at buf s = CHR 0x00 \<or> at buf s \<notin> set toks"
  using assms skipws_ge [of ps buf] skipws_le [of ps buf] at_nonnull
  by (auto simp: peek_def Let_def)

lemma gettoken_after_peek:
  assumes "peek buf ps toks = (s, True)" "gettoken buf s = (t, q, eq, ps')"
  shows "s < ps'" "t \<noteq> CHR 0x00"
proof -
  note pk = peek_bounds [OF assms(1)]
  show nn: "t \<noteq> CHR 0x00"
    using assms(2) pk(4,6) by (auto simp: gettoken_def Let_def split: if_splits)
  show "s < ps'" using gettoken_bounds [OF assms(2)] nn by linarith
qed

lemma redirs_progress:
  assumes "peek buf ps toks = (s, True)" "gettoken buf s = (tok, a, b, ps1)"
    "gettoken buf ps1 = (tok2, q, eq, ps2)"
  shows "length buf - ps2 < length buf - ps"
proof -
  have "ps < length buf" "ps \<le> s" using peek_bounds(1,3) [OF assms(1)] by simp_all
  moreover have "s < ps1" using gettoken_after_peek [OF assms(1,2)] by simp
  moreover have "ps1 \<le> ps2" using gettoken_bounds(1-3) [OF assms(3)] by linarith
  ultimately show ?thesis by linarith
qed

section \<open>The parser\<close>

text \<open>The redirections that follow a command.\<close>

type_synonym redir = "word \<times> omode \<times> nat"

function parseredirs :: "string \<Rightarrow> nat \<Rightarrow> redir list \<Rightarrow> (redir list \<times> nat) presult" where
  "parseredirs buf ps rs =
     (case peek buf ps ''<>'' of (s, b) \<Rightarrow>
      if b then
        (case gettoken buf s of (tok, _, _, ps1) \<Rightarrow>
         case gettoken buf ps1 of (tok2, q, eq, ps2) \<Rightarrow>
         if tok2 \<noteq> CHR ''a'' then Inl (Syntax ''missing file for redirection'')
         else parseredirs buf ps2 (rs @
           (if tok = CHR ''<'' then [((q, eq), O_RDONLY, 0)]
            else if tok = CHR ''>'' then [((q, eq), O_WRONLY_CREATE_TRUNC, 1)]
            else if tok = CHR ''+'' then [((q, eq), O_WRONLY_CREATE, 1)]
            else [])))
      else Inr (rs, s))"
  by pat_completeness auto
termination
  by (relation "measure (\<lambda>(buf, ps, rs). length buf - ps)") (auto intro: redirs_progress [OF sym sym sym])

declare parseredirs.simps [simp del]

text \<open>
  The argument loop of \<open>parseexec\<close>. The redirections wrap the command that the loop is
  still filling, so they are collected and applied at the end.
\<close>

function parseargs ::
  "string \<Rightarrow> nat \<Rightarrow> word list \<Rightarrow> redir list \<Rightarrow> (word list \<times> redir list \<times> nat) presult" where
  "parseargs buf ps args rs =
     (case peek buf ps ''|)&;'' of (s, b) \<Rightarrow>
      if b then Inr (args, rs, s)
      else
        (case gettoken buf s of (tok, q, eq, ps1) \<Rightarrow>
         if tok = CHR 0x00 then Inr (args, rs, ps1)
         else if tok \<noteq> CHR ''a'' then Inl (Syntax ''syntax'')
         else if Suc (length args) \<ge> MAXARGS then Inl (Syntax ''too many args'')
         else pbind (parseredirs buf ps1 rs) (\<lambda>(rs1, ps2). parseargs buf ps2 (args @ [(q, eq)]) rs1)))"
  by pat_completeness auto
termination
  by (relation "measure (\<lambda>(buf, ps, args, rs). MAXARGS - length args)") auto

declare parseargs.simps [simp del]

definition wrap_redirs :: "word cmd \<Rightarrow> redir list \<Rightarrow> word cmd" where
  "wrap_redirs c rs = foldl (\<lambda>c (w, m, fd). REDIR c w m fd) c rs"

lemma backs_progress:
  assumes "peek buf ps toks = (s, True)" "gettoken buf s = (tok, a, b, ps1)"
  shows "length buf - ps1 < length buf - ps"
  using peek_bounds(1,3) [OF assms(1)] gettoken_after_peek [OF assms] by auto

text \<open>The loop of \<open>parseline\<close> over trailing ampersands.\<close>

function parsebacks :: "string \<Rightarrow> nat \<Rightarrow> word cmd \<Rightarrow> word cmd \<times> nat" where
  "parsebacks buf ps c =
     (case peek buf ps ''&'' of (s, b) \<Rightarrow>
      if b then (case gettoken buf s of (_, _, _, ps1) \<Rightarrow> parsebacks buf ps1 (BACK c))
      else (c, s))"
  by pat_completeness auto
termination
  by (relation "measure (\<lambda>(buf, ps, c). length buf - ps)") (auto intro: backs_progress [OF sym sym])

declare parsebacks.simps [simp del]

fun parseline :: "nat \<Rightarrow> string \<Rightarrow> nat \<Rightarrow> (word cmd \<times> nat) presult"
  and parsepipe :: "nat \<Rightarrow> string \<Rightarrow> nat \<Rightarrow> (word cmd \<times> nat) presult"
  and parseexec :: "nat \<Rightarrow> string \<Rightarrow> nat \<Rightarrow> (word cmd \<times> nat) presult"
  and parseblock :: "nat \<Rightarrow> string \<Rightarrow> nat \<Rightarrow> (word cmd \<times> nat) presult" where
  "parseline 0 buf ps = Inl OutOfFuel"
| "parseline (Suc f) buf ps =
     pbind (parsepipe f buf ps) (\<lambda>(c, ps1).
       case parsebacks buf ps1 c of (c1, ps2) \<Rightarrow>
       case peek buf ps2 '';'' of (s, b) \<Rightarrow>
       if b then
         (case gettoken buf s of (_, _, _, ps3) \<Rightarrow>
          pbind (parseline f buf ps3) (\<lambda>(c2, ps4). Inr (LIST c1 c2, ps4)))
       else Inr (c1, s))"
| "parsepipe 0 buf ps = Inl OutOfFuel"
| "parsepipe (Suc f) buf ps =
     pbind (parseexec f buf ps) (\<lambda>(c, ps1).
       case peek buf ps1 ''|'' of (s, b) \<Rightarrow>
       if b then
         (case gettoken buf s of (_, _, _, ps2) \<Rightarrow>
          pbind (parsepipe f buf ps2) (\<lambda>(c2, ps3). Inr (PIPE c c2, ps3)))
       else Inr (c, s))"
| "parseexec 0 buf ps = Inl OutOfFuel"
| "parseexec (Suc f) buf ps =
     (case peek buf ps ''('' of (s, b) \<Rightarrow>
      if b then parseblock f buf s
      else
        pbind (parseredirs buf s []) (\<lambda>(rs, ps1).
        pbind (parseargs buf ps1 [] rs) (\<lambda>(args, rs1, ps2).
        Inr (wrap_redirs (EXEC args) rs1, ps2))))"
| "parseblock 0 buf ps = Inl OutOfFuel"
| "parseblock (Suc f) buf ps =
     (case peek buf ps ''('' of (s, b) \<Rightarrow>
      if \<not> b then Inl (Syntax ''parseblock'')
      else
        (case gettoken buf s of (_, _, _, ps1) \<Rightarrow>
         pbind (parseline f buf ps1) (\<lambda>(c, ps2).
         case peek buf ps2 '')'' of (s2, b2) \<Rightarrow>
         if \<not> b2 then Inl (Syntax ''syntax - missing )'')
         else
           (case gettoken buf s2 of (_, _, _, ps3) \<Rightarrow>
            pbind (parseredirs buf ps3 []) (\<lambda>(rs, ps4). Inr (wrap_redirs c rs, ps4))))))"

text \<open>What \<open>nulterminate\<close> does to the buffer: a NUL at the end of every word.\<close>

fun ends :: "word cmd \<Rightarrow> nat list" where
  "ends (EXEC ws) = map snd ws"
| "ends (REDIR c w m fd) = ends c @ [snd w]"
| "ends (PIPE c d) = ends c @ ends d"
| "ends (LIST c d) = ends c @ ends d"
| "ends (BACK c) = ends c"

definition nulterminate :: "word cmd \<Rightarrow> string \<Rightarrow> string" where
  "nulterminate c buf = foldl (\<lambda>b e. b[e := CHR 0x00]) (buf @ [CHR 0x00]) (ends c)"

definition parse_fuel :: "string \<Rightarrow> nat" where
  "parse_fuel buf = 4 * length buf + 4"

text \<open>\<open>parsecmd\<close>: the command, and the buffer with its words terminated.\<close>

definition parsecmd :: "string \<Rightarrow> (word cmd \<times> string) presult" where
  "parsecmd buf =
     pbind (parseline (parse_fuel buf) buf 0) (\<lambda>(c, ps).
       case peek buf ps [] of (s, _) \<Rightarrow>
       if s \<noteq> length buf
       then Inl (Syntax (''leftovers: '' @ drop s buf @ [CHR 0x0A] @ ''syntax''))
       else Inr (c, nulterminate c buf))"

section \<open>Termination\<close>

lemma parseredirs_result:
  "parseredirs buf ps rs = r \<Longrightarrow> ps \<le> length buf \<Longrightarrow>
   r \<noteq> Inl OutOfFuel \<and> (\<forall>rs' ps'. r = Inr (rs', ps') \<longrightarrow> ps \<le> ps' \<and> ps' \<le> length buf)"
proof (induction buf ps rs arbitrary: r rule: parseredirs.induct)
  case (1 buf ps rs)
  obtain s b where pk: "peek buf ps ''<>'' = (s, b)" by fastforce
  note pb = peek_bounds [OF pk]
  show ?case
  proof (cases b)
    case False
    then show ?thesis using 1(2,3) pk pb by (subst (asm) parseredirs.simps) auto
  next
    case True
    obtain tok a0 b0 ps1 where g1: "gettoken buf s = (tok, a0, b0, ps1)" by (metis prod_cases4)
    obtain tok2 q eq ps2 where g2: "gettoken buf ps1 = (tok2, q, eq, ps2)" by (metis prod_cases4)
    have b1: "s \<le> ps1" "ps1 \<le> length buf"
      using gettoken_bounds [OF g1] pb(2) 1(3) by auto
    have b2: "ps1 \<le> ps2" "ps2 \<le> length buf" using gettoken_bounds [OF g2] b1(2) by auto
    show ?thesis
    proof (cases "tok2 = CHR ''a''")
      case False
      then show ?thesis using 1(2) pk True g1 g2 by (subst (asm) parseredirs.simps) auto
    next
      case a: True
      then have "r \<noteq> Inl OutOfFuel \<and> (\<forall>rs' ps'. r = Inr (rs', ps') \<longrightarrow> ps2 \<le> ps' \<and> ps' \<le> length buf)"
        using 1(1) [OF pk [symmetric] True g1 [symmetric] _ _ g2 [symmetric]] 1(2) b2(2) pk True g1 g2
        by (subst (asm) (2) parseredirs.simps) simp
      then show ?thesis using pb(1) b1 b2 by fastforce
    qed
  qed
qed

text \<open>A result that did not run out of fuel, and how far it advanced.\<close>

definition good :: "string \<Rightarrow> nat \<Rightarrow> ('a \<times> nat) presult \<Rightarrow> bool" where
  "good buf ps r \<longleftrightarrow> r \<noteq> Inl OutOfFuel \<and> (\<forall>a ps'. r = Inr (a, ps') \<longrightarrow> ps \<le> ps' \<and> ps' \<le> length buf)"

lemma good_Inr [simp]: "good buf ps (Inr (a, ps')) \<longleftrightarrow> ps \<le> ps' \<and> ps' \<le> length buf"
  by (auto simp: good_def)

lemma good_Syntax [simp]: "good buf ps (Inl (Syntax m))"
  by (simp add: good_def)

lemma good_le: "good buf ps r \<Longrightarrow> ps0 \<le> ps \<Longrightarrow> good buf ps0 r"
  by (fastforce simp: good_def)

lemma good_pbind:
  assumes "good buf ps r" "\<And>a ps'. ps \<le> ps' \<Longrightarrow> ps' \<le> length buf \<Longrightarrow> good buf ps (f (a, ps'))"
  shows "good buf ps (pbind r f)"
proof (cases r)
  case (Inl e)
  then show ?thesis using assms(1) by (simp add: good_def)
next
  case (Inr x)
  obtain a ps' where "x = (a, ps')" by fastforce
  then show ?thesis using assms(1) assms(2) [of ps' a] Inr by simp
qed

lemma good_parseredirs: "ps \<le> length buf \<Longrightarrow> good buf ps (parseredirs buf ps rs)"
  using parseredirs_result [OF refl, of ps buf rs] unfolding good_def by blast

lemma good_gettoken:
  assumes "s \<le> length buf"
    "\<And>t q eq ps. gettoken buf s = (t, q, eq, ps) \<Longrightarrow> s \<le> ps \<Longrightarrow> ps \<le> length buf \<Longrightarrow> good buf s (f t q eq ps)"
  shows "good buf s (case gettoken buf s of (t, q, eq, ps) \<Rightarrow> f t q eq ps)"
proof -
  obtain t q eq ps where g: "gettoken buf s = (t, q, eq, ps)" by (metis prod_cases4)
  show ?thesis using gettoken_bounds [OF g] assms(1) assms(2) [OF g] g by simp
qed

lemma parseargs_result:
  "ps \<le> length buf \<Longrightarrow>
   good buf ps (map_sum (\<lambda>e. e) (\<lambda>(a, r, p). ((a, r), p)) (parseargs buf ps args rs))"
proof (induction buf ps args rs rule: parseargs.induct)
  case (1 buf ps args rs)
  obtain s b where pk: "peek buf ps ''|)&;'' = (s, b)" by fastforce
  note pb = peek_bounds [OF pk]
  obtain tok q eq ps1 where g: "gettoken buf s = (tok, q, eq, ps1)" by (metis prod_cases4)
  have b1: "ps \<le> ps1" "ps1 \<le> length buf" using gettoken_bounds [OF g] pb(1,2) "1.prems" by auto
  show ?case
  proof (cases "\<not> b \<and> tok = CHR ''a'' \<and> Suc (length args) < MAXARGS")
    case False
    then show ?thesis using pk g pb(1,2) b1 "1.prems" by (subst parseargs.simps) auto
  next
    case True
    show ?thesis
    proof (cases "parseredirs buf ps1 rs")
      case (Inl e)
      then show ?thesis using True pk g good_parseredirs [OF b1(2), of rs]
        by (subst parseargs.simps) (auto simp: good_def)
    next
      case (Inr x)
      obtain rs1 ps2 where x: "x = (rs1, ps2)" by fastforce
      have b2: "ps1 \<le> ps2" "ps2 \<le> length buf"
        using good_parseredirs [OF b1(2), of rs] Inr x by (auto simp: good_def)
      have "good buf ps2 (map_sum (\<lambda>e. e) (\<lambda>(a, r, p). ((a, r), p)) (parseargs buf ps2 (args @ [(q, eq)]) rs1))"
        using "1.IH" [OF pk [symmetric] _ g [symmetric] refl refl _ _ _ Inr x [symmetric] b2(2)] True by auto
      then have "good buf ps (map_sum (\<lambda>e. e) (\<lambda>(a, r, p). ((a, r), p)) (parseargs buf ps2 (args @ [(q, eq)]) rs1))"
        using b1(1) b2(1) by (auto intro: good_le)
      then show ?thesis using True pk g Inr x by (subst parseargs.simps) simp
    qed
  qed
qed

lemma parsebacks_result:
  "parsebacks buf ps c = (c', ps') \<Longrightarrow> ps \<le> length buf \<Longrightarrow> ps \<le> ps' \<and> ps' \<le> length buf"
proof (induction buf ps c rule: parsebacks.induct)
  case (1 buf ps c)
  obtain s b where pk: "peek buf ps ''&'' = (s, b)" by fastforce
  note pb = peek_bounds [OF pk]
  obtain tok q eq ps1 where g: "gettoken buf s = (tok, q, eq, ps1)" by (metis prod_cases4)
  have b1: "ps \<le> ps1" "ps1 \<le> length buf" using gettoken_bounds [OF g] pb(1,2) "1.prems" by auto
  show ?case
  proof (cases b)
    case True
    have "parsebacks buf ps1 (BACK c) = (c', ps')"
      using "1.prems"(1) True pk g by (subst (asm) parsebacks.simps) simp
    with "1.IH" [OF pk [symmetric] True g [symmetric] refl refl] b1 show ?thesis by auto
  next
    case False
    then show ?thesis using "1.prems" pk pb by (subst (asm) parsebacks.simps) auto
  qed
qed

lemma parse_good:
  "ps \<le> length buf \<Longrightarrow> 4 * (length buf - ps) + 4 \<le> f \<Longrightarrow> good buf ps (parseline f buf ps)"
  "ps \<le> length buf \<Longrightarrow> 4 * (length buf - ps) + 3 \<le> f \<Longrightarrow> good buf ps (parsepipe f buf ps)"
  "ps \<le> length buf \<Longrightarrow> 4 * (length buf - ps) + 2 \<le> f \<Longrightarrow> good buf ps (parseexec f buf ps)"
  "ps \<le> length buf \<Longrightarrow> 4 * (length buf - ps) + 1 \<le> f \<Longrightarrow> good buf ps (parseblock f buf ps)"
proof (induction f arbitrary: ps)
  case (Suc f)
  have adv: "s < ps1 \<and> ps1 \<le> length buf \<and> ps0 \<le> s \<and> s < length buf"
    if "ps0 \<le> length buf" "peek buf ps0 toks = (s, True)" "gettoken buf s = (t, q, eq, ps1)" for ps0 toks s t q eq ps1
    using peek_bounds [OF that(2)] gettoken_after_peek [OF that(2,3)] gettoken_bounds(5) [OF that(3)] that(1)
    by auto
  {
    case 1
    show ?case
    proof (simp only: parseline.simps, rule good_pbind)
      show "good buf ps (parsepipe f buf ps)" using Suc.IH(2) [of ps] 1 by simp
    next
      fix c ps1 assume p1: "ps \<le> ps1" "ps1 \<le> length buf"
      obtain c1 ps2 where bk: "parsebacks buf ps1 c = (c1, ps2)" by fastforce
      have p2: "ps1 \<le> ps2" "ps2 \<le> length buf" using parsebacks_result [OF bk p1(2)] by simp_all
      obtain s b where pk: "peek buf ps2 '';'' = (s, b)" by fastforce
      obtain t q eq ps3 where g: "gettoken buf s = (t, q, eq, ps3)" by (metis prod_cases4)
      note pb = peek_bounds(1,2) [OF pk]
      have "good buf ps (pbind (parseline f buf ps3) (\<lambda>(c2, ps4). Inr (LIST c1 c2, ps4)))" if b
        using adv [OF p2(2), of "'';''" s t q eq ps3] pk g that p1 p2 1
        by (intro good_pbind good_le [OF Suc.IH(1)]) auto
      then show "good buf ps (case (c, ps1) of (c, ps1) \<Rightarrow>
          case parsebacks buf ps1 c of (c1, ps2) \<Rightarrow> case peek buf ps2 '';'' of (s, b) \<Rightarrow>
          if b then case gettoken buf s of (_, _, _, ps3) \<Rightarrow>
            pbind (parseline f buf ps3) (\<lambda>(c2, ps4). Inr (LIST c1 c2, ps4))
          else Inr (c1, s))"
        using bk pk g pb p1 p2 by auto
    qed
  next
    case 2
    show ?case
    proof (simp only: parsepipe.simps, rule good_pbind)
      show "good buf ps (parseexec f buf ps)" using Suc.IH(3) [of ps] 2 by simp
    next
      fix c ps1 assume p1: "ps \<le> ps1" "ps1 \<le> length buf"
      obtain s b where pk: "peek buf ps1 ''|'' = (s, b)" by fastforce
      obtain t q eq ps2 where g: "gettoken buf s = (t, q, eq, ps2)" by (metis prod_cases4)
      note pb = peek_bounds(1,2) [OF pk]
      have "good buf ps (pbind (parsepipe f buf ps2) (\<lambda>(c2, ps3). Inr (PIPE c c2, ps3)))" if b
        using adv [OF p1(2), of "''|''" s t q eq ps2] pk g that p1 2
        by (intro good_pbind good_le [OF Suc.IH(2)]) auto
      then show "good buf ps (case (c, ps1) of (c, ps1) \<Rightarrow> case peek buf ps1 ''|'' of (s, b) \<Rightarrow>
          if b then case gettoken buf s of (_, _, _, ps2) \<Rightarrow>
            pbind (parsepipe f buf ps2) (\<lambda>(c2, ps3). Inr (PIPE c c2, ps3))
          else Inr (c, s))"
        using pk g pb p1 by auto
    qed
  next
    case 3
    obtain s b where pk: "peek buf ps ''('' = (s, b)" by fastforce
    note pb = peek_bounds(1,2) [OF pk]
    show ?case
    proof (cases b)
      case True
      have "length buf - s \<le> length buf - ps" using pb by simp
      then have "good buf s (parseblock f buf s)" using pb 3 by (intro Suc.IH(4)) auto
      then show ?thesis using True pk pb by (auto intro: good_le)
    next
      case False
      have sl: "s \<le> length buf" using pb 3 by simp
      have "good buf s (pbind (parseredirs buf s []) (\<lambda>(rs, ps1).
          pbind (parseargs buf ps1 [] rs) (\<lambda>(args, rs1, ps2). Inr (wrap_redirs (EXEC args) rs1, ps2))))"
      proof (rule good_pbind [OF good_parseredirs [OF sl]])
        fix rs ps1 assume p1: "s \<le> ps1" "ps1 \<le> length buf"
        show "good buf s (case (rs, ps1) of (rs, ps1) \<Rightarrow>
            pbind (parseargs buf ps1 [] rs) (\<lambda>(args, rs1, ps2). Inr (wrap_redirs (EXEC args) rs1, ps2)))"
          using parseargs_result [OF p1(2), of "[]" rs] p1
          by (cases "parseargs buf ps1 [] rs") (auto simp: good_def)
      qed
      then show ?thesis using False pk pb by (auto intro: good_le)
    qed
  next
    case 4
    obtain s b where pk: "peek buf ps ''('' = (s, b)" by fastforce
    obtain t q eq ps1 where g: "gettoken buf s = (t, q, eq, ps1)" by (metis prod_cases4)
    show ?case
    proof (cases b)
      case False
      then show ?thesis using pk by simp
    next
      case True
      have a1: "s < ps1" "ps1 \<le> length buf" "ps \<le> s" "s < length buf"
        using adv [OF 4(1), of "''(''" s t q eq ps1] pk g True by auto
      have "good buf ps1 (pbind (parseline f buf ps1) (\<lambda>(c, ps2). case peek buf ps2 '')'' of (s2, b2) \<Rightarrow>
         if \<not> b2 then Inl (Syntax ''syntax - missing )'')
         else (case gettoken buf s2 of (_, _, _, ps3) \<Rightarrow>
            pbind (parseredirs buf ps3 []) (\<lambda>(rs, ps4). Inr (wrap_redirs c rs, ps4)))))"
      proof (rule good_pbind)
        show "good buf ps1 (parseline f buf ps1)" using Suc.IH(1) [of ps1] a1 4 by auto
      next
        fix c ps2 assume p2: "ps1 \<le> ps2" "ps2 \<le> length buf"
        obtain s2 b2 where pk2: "peek buf ps2 '')'' = (s2, b2)" by fastforce
        obtain t2 q2 eq2 ps3 where g2: "gettoken buf s2 = (t2, q2, eq2, ps3)" by (metis prod_cases4)
        have "good buf ps1 (pbind (parseredirs buf ps3 []) (\<lambda>(rs, ps4). Inr (wrap_redirs c rs, ps4)))" if b2
          using adv [OF p2(2), of "'')''" s2 t2 q2 eq2 ps3] pk2 g2 that p2
          by (intro good_pbind good_le [OF good_parseredirs]) auto
        then show "good buf ps1 (case (c, ps2) of (c, ps2) \<Rightarrow> case peek buf ps2 '')'' of (s2, b2) \<Rightarrow>
         if \<not> b2 then Inl (Syntax ''syntax - missing )'')
         else (case gettoken buf s2 of (_, _, _, ps3) \<Rightarrow>
            pbind (parseredirs buf ps3 []) (\<lambda>(rs, ps4). Inr (wrap_redirs c rs, ps4))))"
          using pk2 g2 by auto
      qed
      then have "good buf ps (pbind (parseline f buf ps1) (\<lambda>(c, ps2). case peek buf ps2 '')'' of (s2, b2) \<Rightarrow>
         if \<not> b2 then Inl (Syntax ''syntax - missing )'')
         else (case gettoken buf s2 of (_, _, _, ps3) \<Rightarrow>
            pbind (parseredirs buf ps3 []) (\<lambda>(rs, ps4). Inr (wrap_redirs c rs, ps4)))))"
        by (rule good_le) (use a1 in simp)
      then show ?thesis using True pk g by simp
    qed
  }
qed simp_all

lemma parsecmd_fuel: "parsecmd buf \<noteq> Inl OutOfFuel"
proof -
  have "good buf 0 (parseline (parse_fuel buf) buf 0)"
    by (rule parse_good(1)) (simp_all add: parse_fuel_def)
  then show ?thesis
    by (auto simp: parsecmd_def pbind_Inl good_def split: prod.splits if_splits)
qed

text \<open>
  C22. \<open>parsecmd\<close> (sh.c) terminates on every line: the nesting of its recursive calls is
  bounded by four times the length of the line, so it returns a command or reports a
  syntax error.
\<close>

theorem parsecmd_terminates: "parsecmd buf \<noteq> Inl OutOfFuel"
  by (rule parsecmd_fuel)

end
