(* ===== verification/Sh.thy ===== *)
theory Sh
  imports ShParse
begin

text \<open>
  The shell beyond its parser, user/sh.c: that \<open>nulterminate\<close> cuts the line into exactly
  the words that were parsed, and \<open>runcmd\<close> as the tree of system calls it makes, with
  the file descriptors of every program it starts.
\<close>

section \<open>The words of a parsed command\<close>

definition is_word :: "string \<Rightarrow> word \<Rightarrow> bool" where
  "is_word buf w \<longleftrightarrow> fst w < snd w \<and> snd w \<le> length buf
     \<and> (\<forall>i. fst w \<le> i \<and> i < snd w \<longrightarrow> at buf i \<notin> set whitespace \<union> set symbols)
     \<and> (snd w = length buf \<or> at buf (snd w) \<in> set whitespace \<union> set symbols)"

lemma skipword_chars:
  "\<forall>i. s \<le> i \<and> i < skipword buf s \<longrightarrow> at buf i \<notin> set whitespace \<union> set symbols"
proof (induction buf s rule: skipword.induct)
  case (1 buf s)
  show ?case
  proof (cases "s < length buf \<and> at buf s \<notin> set whitespace \<and> at buf s \<notin> set symbols")
    case True
    then have eq: "skipword buf s = skipword buf (Suc s)" by (subst skipword.simps) simp
    have "s \<le> i \<longleftrightarrow> i = s \<or> Suc s \<le> i" for i by auto
    then show ?thesis using 1 True unfolding eq by auto
  next
    case False
    then have "skipword buf s = s" by (subst skipword.simps) auto
    then show ?thesis by auto
  qed
qed

lemma skipword_stop:
  "s \<le> length buf \<Longrightarrow>
   skipword buf s = length buf \<or> at buf (skipword buf s) \<in> set whitespace \<union> set symbols"
proof (induction buf s rule: skipword.induct)
  case (1 buf s)
  show ?case
  proof (cases "s < length buf \<and> at buf s \<notin> set whitespace \<and> at buf s \<notin> set symbols")
    case True
    then have "skipword buf s = skipword buf (Suc s)" by (subst skipword.simps) simp
    then show ?thesis using 1 True by simp
  next
    case False
    then have "skipword buf s = s" by (subst skipword.simps) auto
    then show ?thesis using False 1 by auto
  qed
qed

lemma gettoken_word:
  assumes "gettoken buf ps = (CHR ''a'', q, eq, ps')"
  shows "is_word buf (q, eq)"
proof -
  let ?q = "skipws buf ps"
  have q: "q = ?q" "eq = skipword buf ?q" "at buf ?q \<noteq> CHR 0x00"
    using assms by (auto simp: gettoken_def Let_def split: if_splits)
  have "q < eq" using gettoken_bounds(4) [OF assms] by simp
  moreover have "?q \<le> length buf" using at_nonnull [OF q(3)] by simp
  ultimately show ?thesis
    using skipword_chars [of ?q buf] skipword_stop [of ?q buf] skipword_le [of ?q buf] q
    by (auto simp: is_word_def)
qed

text \<open>Redirections are of descriptor 0 or 1.\<close>

primrec std_redirs :: "'w cmd \<Rightarrow> bool" where
  "std_redirs (EXEC argv) \<longleftrightarrow> True"
| "std_redirs (REDIR c f m fd) \<longleftrightarrow> fd < 2 \<and> std_redirs c"
| "std_redirs (PIPE l r) \<longleftrightarrow> std_redirs l \<and> std_redirs r"
| "std_redirs (LIST l r) \<longleftrightarrow> std_redirs l \<and> std_redirs r"
| "std_redirs (BACK c) \<longleftrightarrow> std_redirs c"

definition good_redir :: "string \<Rightarrow> redir \<Rightarrow> bool" where
  "good_redir buf r \<longleftrightarrow> is_word buf (fst r) \<and> snd (snd r) < 2"

definition good_cmd :: "string \<Rightarrow> word cmd \<Rightarrow> bool" where
  "good_cmd buf c \<longleftrightarrow> (\<forall>w \<in> set_cmd c. is_word buf w) \<and> std_redirs c"

lemma parseredirs_words:
  "parseredirs buf ps rs = Inr (rs', ps') \<Longrightarrow> (\<forall>r \<in> set rs. good_redir buf r) \<Longrightarrow>
   (\<forall>r \<in> set rs'. good_redir buf r)"
proof (induction buf ps rs rule: parseredirs.induct)
  case (1 buf ps rs)
  obtain s b where pk: "peek buf ps ''<>'' = (s, b)" by fastforce
  obtain tok a0 b0 ps1 where g1: "gettoken buf s = (tok, a0, b0, ps1)" by (metis prod_cases4)
  obtain tok2 q eq ps2 where g2: "gettoken buf ps1 = (tok2, q, eq, ps2)" by (metis prod_cases4)
  show ?case
  proof (cases "b \<and> tok2 = CHR ''a''")
    case True
    then have w: "is_word buf (q, eq)" using g2 gettoken_word by simp
    define new where "new = (if tok = CHR ''<'' then [((q, eq), O_RDONLY, 0)]
            else if tok = CHR ''>'' then [((q, eq), O_WRONLY_CREATE_TRUNC, 1)]
            else if tok = CHR ''+'' then [((q, eq), O_WRONLY_CREATE, 1 :: nat)] else [])"
    have "parseredirs buf ps2 (rs @ new) = Inr (rs', ps')"
      using "1.prems"(1) True pk g1 g2 by (subst (asm) parseredirs.simps) (simp add: new_def)
    moreover have "\<forall>r \<in> set (rs @ new). good_redir buf r"
      using "1.prems"(2) w by (auto simp: new_def good_redir_def)
    ultimately show ?thesis
      using "1.IH" [OF pk [symmetric] _ g1 [symmetric] refl refl g2 [symmetric] refl refl] True
      by (simp add: new_def)
  next
    case False
    then show ?thesis using "1.prems" pk g1 g2 by (subst (asm) parseredirs.simps) (auto split: if_splits)
  qed
qed

lemma parseargs_words:
  "parseargs buf ps args rs = Inr (args', rs', ps') \<Longrightarrow>
   (\<forall>w \<in> set args. is_word buf w) \<Longrightarrow> (\<forall>r \<in> set rs. good_redir buf r) \<Longrightarrow>
   (\<forall>w \<in> set args'. is_word buf w) \<and> (\<forall>r \<in> set rs'. good_redir buf r) \<and> length args' < MAXARGS \<or> length args \<ge> MAXARGS"
proof (induction buf ps args rs rule: parseargs.induct)
  case (1 buf ps args rs)
  obtain s b where pk: "peek buf ps ''|)&;'' = (s, b)" by fastforce
  obtain tok q eq ps1 where g: "gettoken buf s = (tok, q, eq, ps1)" by (metis prod_cases4)
  show ?case
  proof (cases "\<not> b \<and> tok = CHR ''a'' \<and> Suc (length args) < MAXARGS")
    case False
    then show ?thesis using "1.prems" pk g by (subst (asm) parseargs.simps) (auto split: if_splits)
  next
    case True
    then obtain rs1 ps2 where r: "parseredirs buf ps1 rs = Inr (rs1, ps2)"
      "parseargs buf ps2 (args @ [(q, eq)]) rs1 = Inr (args', rs', ps')"
      using "1.prems"(1) pk g by (subst (asm) parseargs.simps) auto
    have "is_word buf (q, eq)" using True g gettoken_word by simp
    then have "\<forall>w \<in> set (args @ [(q, eq)]). is_word buf w" using "1.prems"(2) by simp
    then show ?thesis
      using "1.IH" [OF pk [symmetric] _ g [symmetric] refl refl _ _ _ r(1) refl r(2)]
        parseredirs_words [OF r(1) "1.prems"(3)] True by auto
  qed
qed

lemma good_wrap_redirs:
  "good_cmd buf (wrap_redirs c rs) \<longleftrightarrow> good_cmd buf c \<and> (\<forall>r \<in> set rs. good_redir buf r)"
  by (induction rs arbitrary: c) (auto simp: wrap_redirs_def good_cmd_def good_redir_def)

lemma good_EXEC [simp]: "good_cmd buf (EXEC ws) \<longleftrightarrow> (\<forall>w \<in> set ws. is_word buf w)"
  by (simp add: good_cmd_def)

lemma parsebacks_words: "parsebacks buf ps c = (c', ps') \<Longrightarrow> good_cmd buf c' = good_cmd buf c"
proof (induction buf ps c rule: parsebacks.induct)
  case (1 buf ps c)
  obtain s b where pk: "peek buf ps ''&'' = (s, b)" by fastforce
  obtain tok q eq ps1 where g: "gettoken buf s = (tok, q, eq, ps1)" by (metis prod_cases4)
  show ?case
  proof (cases b)
    case True
    have "parsebacks buf ps1 (BACK c) = (c', ps')"
      using "1.prems" True pk g by (subst (asm) parsebacks.simps) simp
    with "1.IH" [OF pk [symmetric] True g [symmetric] refl refl] show ?thesis by (simp add: good_cmd_def)
  next
    case False
    then show ?thesis using "1.prems" pk by (subst (asm) parsebacks.simps) auto
  qed
qed

lemma parse_words:
  "parseline f buf ps = Inr (c, ps') \<Longrightarrow> good_cmd buf c"
  "parsepipe f buf ps = Inr (c, ps') \<Longrightarrow> good_cmd buf c"
  "parseexec f buf ps = Inr (c, ps') \<Longrightarrow> good_cmd buf c"
  "parseblock f buf ps = Inr (c, ps') \<Longrightarrow> good_cmd buf c"
proof (induction f arbitrary: ps c ps')
  case (Suc f)
  {
    case 1
    then obtain c0 ps1 where p: "parsepipe f buf ps = Inr (c0, ps1)" by auto
    obtain c1 ps2 where bk: "parsebacks buf ps1 c0 = (c1, ps2)" by fastforce
    obtain s b where pk: "peek buf ps2 '';'' = (s, b)" by fastforce
    obtain t q eq ps3 where g: "gettoken buf s = (t, q, eq, ps3)" by (metis prod_cases4)
    have "good_cmd buf c1" using Suc.IH(2) [OF p] parsebacks_words [OF bk] by simp
    then show ?case using 1 p bk pk g Suc.IH(1) [of ps3] by (auto simp: good_cmd_def split: if_splits)
  next
    case 2
    then obtain c0 ps1 where p: "parseexec f buf ps = Inr (c0, ps1)" by auto
    obtain s b where pk: "peek buf ps1 ''|'' = (s, b)" by fastforce
    obtain t q eq ps2 where g: "gettoken buf s = (t, q, eq, ps2)" by (metis prod_cases4)
    show ?case using 2 p pk g Suc.IH(3) [OF p] Suc.IH(2) [of ps2] by (auto simp: good_cmd_def split: if_splits)
  next
    case 3
    obtain s b where pk: "peek buf ps ''('' = (s, b)" by fastforce
    show ?case
    proof (cases b)
      case True
      then show ?thesis using 3 pk Suc.IH(4) by simp
    next
      case False
      then obtain rs ps1 args rs1 ps2 where p: "parseredirs buf s [] = Inr (rs, ps1)"
        "parseargs buf ps1 [] rs = Inr (args, rs1, ps2)" "c = wrap_redirs (EXEC args) rs1"
        using 3 pk by auto
      show ?thesis
        using parseargs_words [OF p(2)] parseredirs_words [OF p(1)] p(3)
        by (auto simp: good_wrap_redirs)
    qed
  next
    case 4
    obtain s b where pk: "peek buf ps ''('' = (s, b)" by fastforce
    obtain t q eq ps1 where g: "gettoken buf s = (t, q, eq, ps1)" by (metis prod_cases4)
    obtain c0 ps2 where l: "parseline f buf ps1 = Inr (c0, ps2)" using 4 pk g by (auto split: if_splits)
    obtain s2 b2 where pk2: "peek buf ps2 '')'' = (s2, b2)" by fastforce
    obtain t2 q2 eq2 ps3 where g2: "gettoken buf s2 = (t2, q2, eq2, ps3)" by (metis prod_cases4)
    obtain rs ps4 where p: "parseline f buf ps1 = Inr (c0, ps2)"
      "parseredirs buf ps3 [] = Inr (rs, ps4)" "c = wrap_redirs c0 rs"
      using 4 pk g l pk2 g2 by (auto split: if_splits)
    show ?case
      using Suc.IH(1) [OF p(1)] parseredirs_words [OF p(2)] p(3) by (auto simp: good_wrap_redirs)
  }
qed simp_all

section \<open>Termination of the words\<close>

definition cstr_at :: "string \<Rightarrow> nat \<Rightarrow> string" where
  "cstr_at b q = takeWhile (\<lambda>c. c \<noteq> CHR 0x00) (drop q b)"

lemma set_ends: "set (ends c) = snd ` set_cmd c"
  by (induction c) auto

lemma foldl_nul:
  "i < length b \<Longrightarrow> foldl (\<lambda>b e. b[e := CHR 0x00]) b es ! i = (if i \<in> set es then CHR 0x00 else b ! i)"
  "length (foldl (\<lambda>b e. b[e := CHR 0x00]) b es) = length b"
  by (induction es arbitrary: b) (auto simp: nth_list_update)

lemma word_string:
  assumes nul: "CHR 0x00 \<notin> set buf" and ws: "\<forall>w \<in> set_cmd c. is_word buf w" and w: "(q, e) \<in> set_cmd c"
  shows "cstr_at (nulterminate c buf) q = take (e - q) (drop q buf)"
proof -
  let ?b = "nulterminate c buf"
  have wd: "is_word buf (q, e)" using ws w by blast
  then have qe: "q < e" "e \<le> length buf" by (auto simp: is_word_def)
  have len: "length ?b = Suc (length buf)" by (simp add: nulterminate_def foldl_nul)
  have be: "?b ! e = CHR 0x00"
    using w qe by (auto simp: nulterminate_def foldl_nul set_ends nth_append image_iff)
  have bi: "?b ! i = buf ! i \<and> buf ! i \<noteq> CHR 0x00" if i: "q \<le> i" "i < e" for i
  proof -
    have "i \<notin> set (ends c)"
    proof
      assume "i \<in> set (ends c)"
      then obtain q' where "(q', i) \<in> set_cmd c" by (auto simp: set_ends)
      then have "i = length buf \<or> at buf i \<in> set whitespace \<union> set symbols"
        using ws by (auto simp: is_word_def)
      moreover have "at buf i \<notin> set whitespace \<union> set symbols" using wd i by (simp add: is_word_def)
      ultimately show False using i qe by simp
    qed
    moreover have "buf ! i \<noteq> CHR 0x00" using i qe nul by (metis less_le_trans nth_mem)
    ultimately show ?thesis using i qe nul by (auto simp: nulterminate_def foldl_nul nth_append)
  qed
  have "drop q ?b = take (e - q) (drop q ?b) @ CHR 0x00 # drop (Suc e) ?b"
    using qe len be by (metis Cons_nth_drop_Suc append_take_drop_id drop_drop le_add_diff_inverse2
        less_Suc_eq_le less_imp_le_nat)
  moreover have "take (e - q) (drop q ?b) = take (e - q) (drop q buf)"
    using bi qe len by (intro nth_equalityI) auto
  moreover have "CHR 0x00 \<notin> set (take (e - q) (drop q buf))"
    using nul by (meson in_set_dropD in_set_takeD)
  ultimately show ?thesis by (simp add: cstr_at_def takeWhile_append)
qed

text \<open>
  C23. The words of a parsed line (\<open>parsecmd\<close> and \<open>nulterminate\<close>, sh.c): after the NULs are
  written every argument and file name is exactly the text between its start and end
  in the line; no NUL cuts another word.
\<close>

theorem nulterminate_keeps_words:
  assumes "parsecmd buf = Inr (c, b)" "CHR 0x00 \<notin> set buf"
  shows "map_cmd (\<lambda>w. cstr_at b (fst w)) c = map_cmd (\<lambda>w. take (snd w - fst w) (drop (fst w) buf)) c"
proof -
  obtain ps where p: "parseline (parse_fuel buf) buf 0 = Inr (c, ps)" "b = nulterminate c buf"
    using assms(1) by (auto simp: parsecmd_def case_prod_beta split: if_splits)
  show ?thesis
    using word_string [OF assms(2) good_cmd_def [THEN iffD1, OF parse_words(1) [OF p(1)], THEN conjunct1]] p(2) by (intro cmd.map_cong0) auto
qed

theorem nulterminate_keeps_words_witness:
  "map_cmd (\<lambda>w. cstr_at (''ls'' @ [CHR 0x00] @ ''>f'' @ [CHR 0x00]) (fst w)) (REDIR (EXEC [(0, 2 :: nat)]) (4, 5) O_WRONLY_CREATE_TRUNC 1)
    = map_cmd (\<lambda>w. take (snd w - fst w) (drop (fst w) ''ls >f'')) (REDIR (EXEC [(0, 2)]) (4, 5) O_WRONLY_CREATE_TRUNC 1)"
proof (rule nulterminate_keeps_words)
  show "parsecmd ''ls >f'' = Inr (REDIR (EXEC [(0, 2)]) (4, 5) O_WRONLY_CREATE_TRUNC 1, ''ls'' @ [CHR 0x00] @ ''>f'' @ [CHR 0x00])"
    by code_simp
qed simp

section \<open>Running commands\<close>

text \<open>
  The system calls a process makes, with a branch for every result it tests: \<open>SExec\<close>
  continues only when \<open>exec\<close> fails, \<open>SOpen\<close>, \<open>SPipe\<close> and \<open>SChdir\<close> have a branch for success
  (given the new descriptors) and one for failure, \<open>SFork\<close> one for the child, one for the parent and one for failure.
  \<open>SFault\<close> is an access to an unmapped page, for which the kernel kills the process; \<open>SUndef\<close>
  is an operation whose behaviour C leaves undefined, and \<open>SUninit\<close> goes on with two variables that were
  never assigned. \<open>SMore\<close> stands for the iterations of a loop beyond those that the tree has.
\<close>

datatype prog =
    SExit int
  | SExec "string list" prog
  | SClose nat prog
  | SOpen string omode "nat \<Rightarrow> prog" prog
  | SDup nat prog
  | SPipe "nat \<Rightarrow> nat \<Rightarrow> prog" prog
  | SFork prog prog prog
  | SWait prog
  | SWrite nat string prog
  | SChdir string prog prog
  | SUninit "nat \<Rightarrow> nat \<Rightarrow> prog"
  | SFault
  | SUndef
  | SMore

definition sh_panic :: "string \<Rightarrow> prog" where
  "sh_panic s = SWrite 2 (s @ [CHR 0x0A]) (SExit 1)"

definition fork1 :: "prog \<Rightarrow> prog \<Rightarrow> prog" where
  "fork1 child parent = SFork child parent (sh_panic ''fork'')"

primrec runcmd :: "string cmd \<Rightarrow> prog" where
  "runcmd (EXEC argv) =
     (if argv = [] then SExit 1
      else SExec argv (SWrite 2 (''exec '' @ hd argv @ '' failed'' @ [CHR 0x0A]) (SExit 0)))"
| "runcmd (REDIR c f m fd) =
     SClose fd (SOpen f m (\<lambda>_. runcmd c)
       (SWrite 2 (''open '' @ f @ '' failed'' @ [CHR 0x0A]) (SExit 1)))"
| "runcmd (LIST l r) = fork1 (runcmd l) (SWait (runcmd r))"
| "runcmd (PIPE l r) =
     SPipe (\<lambda>p0 p1.
       fork1 (SClose 1 (SDup p1 (SClose p0 (SClose p1 (runcmd l)))))
         (fork1 (SClose 0 (SDup p0 (SClose p0 (SClose p1 (runcmd r)))))
           (SClose p0 (SClose p1 (SWait (SWait (SExit 0)))))))
       (sh_panic ''pipe'')"
| "runcmd (BACK c) = fork1 (runcmd c) (SExit 0)"

text \<open>
  Descriptor tables, and the programs that a tree can start with the table each of them
  starts with. \<open>exec\<close>, \<open>fork\<close> and \<open>chdir\<close> may succeed or fail. \<open>open\<close> and \<open>pipe\<close> fail when no descriptor is
  free, and else only when the set \<open>F\<close> has them: the files whose \<open>open\<close> may fail, and whether
  \<open>pipe\<close> may. Unassigned variables may have any values (the calls that get them fail on values
  that are no descriptors, as they do on 16). Undefined behaviour may start anything, and so may \<open>SMore\<close>:
  a theorem about all that a tree starts shows that its loops do not need more iterations.
\<close>

datatype obj = OFile string omode | PipeR nat | PipeW nat

type_synonym fdt = "nat \<Rightarrow> obj option"

datatype failure = FOpen string | FPipe

definition fdalloc :: "fdt \<Rightarrow> nat option" where
  "fdalloc t = first_idx (\<lambda>i. t i = None) 16"

inductive starts :: "failure set \<Rightarrow> prog \<Rightarrow> fdt \<Rightarrow> string list \<times> fdt \<Rightarrow> bool" for F where
  exec_ok: "starts F (SExec argv k) t (argv, t)"
| exec_fail: "starts F k t e \<Longrightarrow> starts F (SExec argv k) t e"
| close: "starts F k (t(fd := None)) e \<Longrightarrow> starts F (SClose fd k) t e"
| open_ok: "fdalloc t = Some fd \<Longrightarrow> starts F (k fd) (t(fd \<mapsto> OFile f m)) e \<Longrightarrow> starts F (SOpen f m k k') t e"
| open_fail: "FOpen f \<in> F \<or> fdalloc t = None \<Longrightarrow> starts F k' t e \<Longrightarrow> starts F (SOpen f m k k') t e"
| dup_ok: "t fd = Some ob \<Longrightarrow> fdalloc t = Some i \<Longrightarrow> starts F k (t(i \<mapsto> ob)) e \<Longrightarrow> starts F (SDup fd k) t e"
| dup_fail: "t fd = None \<or> fdalloc t = None \<Longrightarrow> starts F k t e \<Longrightarrow> starts F (SDup fd k) t e"
| pipe_ok: "fdalloc t = Some i \<Longrightarrow> fdalloc (t(i \<mapsto> PipeR n)) = Some j \<Longrightarrow>
    starts F (k i j) (t(i \<mapsto> PipeR n, j \<mapsto> PipeW n)) e \<Longrightarrow> starts F (SPipe k k') t e"
| pipe_fail: "FPipe \<in> F \<or> fdalloc t = None \<or> fdalloc t = Some i \<and> fdalloc (t(i \<mapsto> PipeR n)) = None \<Longrightarrow>
    starts F k' t e \<Longrightarrow> starts F (SPipe k k') t e"
| fork_child: "starts F k t e \<Longrightarrow> starts F (SFork k k1 k2) t e"
| fork_parent: "starts F k1 t e \<Longrightarrow> starts F (SFork k k1 k2) t e"
| fork_fail: "starts F k2 t e \<Longrightarrow> starts F (SFork k k1 k2) t e"
| wait: "starts F k t e \<Longrightarrow> starts F (SWait k) t e"
| print: "starts F k t e \<Longrightarrow> starts F (SWrite fd s k) t e"
| chdir_ok: "starts F k t e \<Longrightarrow> starts F (SChdir f k k') t e"
| chdir_fail: "starts F k' t e \<Longrightarrow> starts F (SChdir f k k') t e"
| uninit: "starts F (k i j) t e \<Longrightarrow> starts F (SUninit k) t e"
| undef: "starts F SUndef t e"
| more: "starts F SMore t e"

inductive_cases starts_exitE [elim!]: "starts F (SExit n) t e"
inductive_cases starts_faultE [elim!]: "starts F SFault t e"
inductive_cases starts_execE: "starts F (SExec argv k) t e"
inductive_cases starts_closeE [elim!]: "starts F (SClose fd k) t e"
inductive_cases starts_openE: "starts F (SOpen f m k k') t e"
inductive_cases starts_dupE: "starts F (SDup fd k) t e"
inductive_cases starts_pipeE: "starts F (SPipe k k') t e"
inductive_cases starts_forkE: "starts F (SFork k k1 k2) t e"
inductive_cases starts_waitE [elim!]: "starts F (SWait k) t e"
inductive_cases starts_printE [elim!]: "starts F (SWrite fd s k) t e"
inductive_cases starts_chdirE [elim!]: "starts F (SChdir f k k') t e"
inductive_cases starts_uninitE [elim!]: "starts F (SUninit k) t e"

lemma not_starts_panic: "\<not> starts F (sh_panic s) t e"
  by (auto simp: sh_panic_def)

lemma fdalloc_lowest:
  assumes "t i = None" "i < 16" "\<And>j. j < i \<Longrightarrow> t j \<noteq> None"
  shows "fdalloc t = Some i"
  using assms by (auto simp: fdalloc_def first_idx_Some)

lemma fdallocD:
  "fdalloc t = Some i \<Longrightarrow> t i = None \<and> i < 16 \<and> (\<forall>j. t j = None \<longrightarrow> i \<le> j)"
  "fdalloc t = None \<Longrightarrow> i < 16 \<Longrightarrow> t i \<noteq> None"
  by (auto simp: fdalloc_def first_idx_Some first_idx_None) (metis not_le option.distinct(1))

lemma starts_fork1E:
  assumes "starts F (fork1 k k1) t e"
  obtains "starts F k t e" | "starts F k1 t e"
  using assms by (auto simp: fork1_def not_starts_panic elim: starts_forkE)

text \<open>
  The tables of the shells: descriptors below 3 only, and all of them when \<open>x\<close>.
\<close>

definition std_fds :: "bool \<Rightarrow> fdt \<Rightarrow> bool" where
  "std_fds x t \<longleftrightarrow> dom t \<subseteq> {..<3} \<and> (x \<longrightarrow> {..<3} \<subseteq> dom t)"

lemma std_fds_upd: "std_fds x t \<Longrightarrow> i < 3 \<Longrightarrow> std_fds x (t(i \<mapsto> ob))"
  by (auto simp: std_fds_def)

lemma std_fds_free: "std_fds x t \<Longrightarrow> 3 \<le> i \<Longrightarrow> t i = None"
  by (auto simp: std_fds_def)

text \<open>
  A child of a pipeline: standard descriptor \<open>s\<close> replaced by \<open>pe\<close>, one of the two descriptors \<open>i\<close> and \<open>j\<close>.
\<close>

lemma starts_pipe_child:
  assumes d: "dom u \<subseteq> {..<3} \<union> {i, j}" and s: "s < 2"
    and x: "x \<Longrightarrow> {..<3} \<subseteq> dom u \<and> 3 \<le> i \<and> 3 \<le> j \<and> 3 \<le> pe \<and> u pe \<noteq> None"
    and st: "starts F (SClose s (SDup pe (SClose i (SClose j k)))) u e"
  shows "\<exists>t. std_fds x t \<and> starts F k t e"
proof -
  let ?t = "u(s := None)"
  from st consider ob l where "?t pe = Some ob" "fdalloc ?t = Some l" "starts F k ((?t(l \<mapsto> ob))(i := None, j := None)) e"
    | "?t pe = None \<or> fdalloc ?t = None" "starts F k (?t(i := None, j := None)) e"
    by (auto elim!: starts_dupE)
  then show ?thesis
  proof cases
    case 1
    note l = fdallocD(1) [OF 1(2)]
    have ls: "l \<le> s" using l by simp
    have "l = s" if x
    proof (rule ccontr)
      assume "l \<noteq> s"
      then have "u l = None" "l < 3" using l ls s by (auto split: if_splits)
      then show False using x [OF that] by auto
    qed
    then have "std_fds x ((?t(l \<mapsto> ob))(i := None, j := None))"
      unfolding std_fds_def using d x s ls by (auto split: if_splits)
    then show ?thesis using 1(3) by blast
  next
    case 2
    have "\<not> x"
    proof
      assume x
      then have "fdalloc ?t = None" using 2(1) x s by (auto split: if_splits)
      then show False using fdallocD(2) [of ?t s] s by simp
    qed
    then have "std_fds x (?t(i := None, j := None))" using d by (auto simp: std_fds_def split: if_splits)
    then show ?thesis using 2(2) by blast
  qed
qed

text \<open>What \<open>pipe\<close> gives: the two lowest free descriptors.\<close>

lemma std_fds_pipe:
  assumes "std_fds x t" "fdalloc t = Some i" "fdalloc (t(i \<mapsto> PipeR n)) = Some j"
  shows "dom (t(i \<mapsto> PipeR n, j \<mapsto> PipeW n)) \<subseteq> {..<3} \<union> {i, j}" "i \<noteq> j"
    "x \<Longrightarrow> {..<3} \<subseteq> dom (t(i \<mapsto> PipeR n, j \<mapsto> PipeW n)) \<and> 3 \<le> i \<and> 3 \<le> j"
proof -
  note i = fdallocD(1) [OF assms(2)] and j = fdallocD(1) [OF assms(3)]
  show "dom (t(i \<mapsto> PipeR n, j \<mapsto> PipeW n)) \<subseteq> {..<3} \<union> {i, j}" using assms(1) by (auto simp: std_fds_def)
  show "i \<noteq> j" using j by auto
  assume x
  then have all: "t k \<noteq> None" if "k < 3" for k using assms(1) that by (auto simp: std_fds_def)
  then have "3 \<le> i" "3 \<le> j" using i j by (metis not_le, metis fun_upd_apply not_le option.distinct(1))
  then show "{..<3} \<subseteq> dom (t(i \<mapsto> PipeR n, j \<mapsto> PipeW n)) \<and> 3 \<le> i \<and> 3 \<le> j" using all by auto
qed

lemma runcmd_fds:
  "starts F (runcmd c) t e \<Longrightarrow> std_redirs c \<Longrightarrow> std_fds x t \<Longrightarrow> std_fds x (snd e)"
proof (induction c arbitrary: t)
  case (EXEC argv)
  then have "e = (argv, t)" by (auto split: if_splits elim!: starts_execE)
  then show ?case using EXEC.prems(3) by simp
next
  case (REDIR c f m fd)
  have fd: "fd < 2" "std_redirs c" using REDIR.prems(2) by simp_all
  obtain i where i: "fdalloc (t(fd := None)) = Some i" "starts F (runcmd c) ((t(fd := None))(i \<mapsto> OFile f m)) e"
    using REDIR.prems(1) by (auto elim!: starts_openE)
  note l = fdallocD(1) [OF i(1)]
  have le: "i \<le> fd" using l by simp
  have "i = fd" if x
  proof (rule ccontr)
    assume "i \<noteq> fd"
    then have "t i = None" "i < 3" using l le fd by (auto split: if_splits)
    then show False using REDIR.prems(3) that by (auto simp: std_fds_def)
  qed
  then have "std_fds x ((t(fd := None))(i \<mapsto> OFile f m))"
    using REDIR.prems(3) fd le by (auto simp: std_fds_def)
  then show ?case using REDIR.IH i(2) fd(2) by blast
next
  case (PIPE l r)
  from PIPE.prems(1) obtain i n j where p: "fdalloc t = Some i" "fdalloc (t(i \<mapsto> PipeR n)) = Some j"
    "starts F (fork1 (SClose 1 (SDup j (SClose i (SClose j (runcmd l)))))
         (fork1 (SClose 0 (SDup i (SClose i (SClose j (runcmd r)))))
           (SClose i (SClose j (SWait (SWait (SExit 0))))))) (t(i \<mapsto> PipeR n, j \<mapsto> PipeW n)) e"
    by (auto simp: not_starts_panic elim!: starts_pipeE)
  note u = std_fds_pipe [OF PIPE.prems(3) p(1,2)]
  from p(3) consider
      "starts F (SClose 1 (SDup j (SClose i (SClose j (runcmd l))))) (t(i \<mapsto> PipeR n, j \<mapsto> PipeW n)) e"
    | "starts F (SClose 0 (SDup i (SClose i (SClose j (runcmd r))))) (t(i \<mapsto> PipeR n, j \<mapsto> PipeW n)) e"
    by (elim starts_fork1E) (assumption | auto)+
  then show ?case
  proof cases
    case 1
    have "\<exists>t. std_fds x t \<and> starts F (runcmd l) t e"
      by (rule starts_pipe_child [OF u(1) _ _ 1]) (use u(3) in auto)
    then show ?thesis using PIPE.IH(1) PIPE.prems(2) by auto
  next
    case 2
    have "\<exists>t. std_fds x t \<and> starts F (runcmd r) t e"
      by (rule starts_pipe_child [OF u(1) _ _ 2]) (use u(2,3) in auto)
    then show ?thesis using PIPE.IH(2) PIPE.prems(2) by auto
  qed
next
  case (LIST l r)
  then show ?case by (auto elim!: starts_fork1E)
next
  case (BACK c)
  then show ?case by (auto elim!: starts_fork1E)
qed

section \<open>The main loop\<close>

text \<open>\<open>gets\<close> of user/ulib.c: at most \<open>max - 1\<close> characters of the input, up to an end of line.\<close>

fun gets_loop :: "nat \<Rightarrow> string \<Rightarrow> string \<times> string" where
  "gets_loop n [] = ([], [])"
| "gets_loop n (c # inp) =
     (if n + 1 < 2 then ([], c # inp)
      else if c = CHR 0x0A \<or> c = CHR 0x0D then ([c], inp)
      else let (b, r) = gets_loop (n - 1) inp in (c # b, r))"

definition gets :: "nat \<Rightarrow> string \<Rightarrow> string \<times> string" where
  "gets nbuf inp = gets_loop (nbuf - 1) inp"

text \<open>\<open>getcmd\<close>: \<open>None\<close> at the end of the input.\<close>

definition getcmd :: "nat \<Rightarrow> string \<Rightarrow> (string \<times> string) option" where
  "getcmd nbuf inp =
     (let (b, r) = gets nbuf inp; buf = takeWhile (\<lambda>c. c \<noteq> CHR 0x00) b in
      if buf = [] then None else Some (buf, r))"

lemma gets_loop_split: "gets_loop n inp = (b, r) \<Longrightarrow> inp = b @ r"
  by (induction n inp arbitrary: b r rule: gets_loop.induct) (auto split: if_splits prod.splits)

lemma getcmd_shorter:
  assumes "getcmd nbuf inp = Some (buf, r)"
  shows "length r < length inp"
proof -
  obtain b where b: "gets_loop (nbuf - 1) inp = (b, r)" "b \<noteq> []"
    using assms by (cases "gets_loop (nbuf - 1) inp")
      (fastforce simp: getcmd_def gets_def Let_def split: if_splits)
  then show ?thesis using gets_loop_split [OF b(1)] by simp
qed

definition run_line :: "string \<Rightarrow> prog" where
  "run_line buf =
     (case parsecmd buf of
        Inl (Syntax msg) \<Rightarrow> sh_panic msg
      | Inl OutOfFuel \<Rightarrow> SMore
      | Inr (c, b) \<Rightarrow> runcmd (map_cmd (\<lambda>w. cstr_at b (fst w)) c))"

text \<open>The loop of \<open>main\<close>: the prompt, a line, and a child process that runs it.\<close>

function sh_loop :: "string \<Rightarrow> prog" where
  "sh_loop inp =
     SWrite 2 ''$ ''
      (case getcmd 100 inp of
         None \<Rightarrow> SExit 0
       | Some (buf, rest) \<Rightarrow>
           if take 3 buf = ''cd '' then
             (let dir = drop 3 (butlast buf) in
              SChdir dir (sh_loop rest)
                (SWrite 2 (''cannot cd '' @ dir @ [CHR 0x0A]) (sh_loop rest)))
           else fork1 (run_line buf) (SWait (sh_loop rest)))"
  by pat_completeness auto
termination
  by (relation "measure length") (auto intro: getcmd_shorter)

declare sh_loop.simps [simp del]

text \<open>
  The loop that opens the console until descriptors 0, 1 and 2 are taken, with at most \<open>n\<close> iterations. Every
  iteration but the last takes one of these descriptors, so 4 are enough.
\<close>

primrec open_console :: "nat \<Rightarrow> prog \<Rightarrow> prog" where
  "open_console 0 k = SMore"
| "open_console (Suc n) k =
     SOpen ''console'' O_RDWR
       (\<lambda>fd. if fd \<ge> 3 then SClose fd k else open_console n k)
       k"

definition sh_main :: "string \<Rightarrow> prog" where
  "sh_main inp = open_console 4 (sh_loop inp)"

lemma open_console_fds:
  "starts F (open_console n k) t e \<Longrightarrow> std_fds x t \<Longrightarrow> 3 - card (dom t) < n
   \<Longrightarrow> \<exists>t'. starts F k t' e \<and> std_fds (x \<or> FOpen ''console'' \<notin> F) t'"
proof (induction n arbitrary: t)
  case (Suc n)
  have fin: "finite (dom t)" using Suc.prems(2) by (auto simp: std_fds_def intro: finite_subset)
  have "t 3 = None" using Suc.prems(2) by (rule std_fds_free) simp
  then have some: "fdalloc t \<noteq> None" using fdallocD(2) [of t 3] by auto
  from Suc.prems(1) consider
      fd where "fdalloc t = Some fd"
        "starts F (if fd \<ge> 3 then SClose fd k else open_console n k) (t(fd \<mapsto> OFile ''console'' O_RDWR)) e"
    | "FOpen ''console'' \<in> F" "starts F k t e"
    using some by (auto elim!: starts_openE split: if_splits)
  then show ?case
  proof cases
    case 1
    note fd = fdallocD(1) [OF 1(1)]
    show ?thesis
    proof (cases "3 \<le> fd")
      case True
      then have "{..<3} \<subseteq> dom t" using fd by (auto simp: dom_def)
      then have "std_fds True t" using Suc.prems(2) by (simp add: std_fds_def)
      moreover have "(t(fd \<mapsto> OFile ''console'' O_RDWR))(fd := None) = t" using fd by (auto simp: fun_eq_iff)
      ultimately show ?thesis using 1(2) True by (auto simp: std_fds_def)
    next
      case False
      define u where "u = t(fd \<mapsto> OFile ''console'' O_RDWR)"
      have "std_fds x u" unfolding u_def using Suc.prems(2) False by (intro std_fds_upd) simp_all
      moreover have "card (dom u) = Suc (card (dom t))" using fd fin by (simp add: u_def domIff)
      moreover have "card (dom t) < 3"
      proof -
        have "dom t \<subseteq> {..<3} - {fd}" using Suc.prems(2) fd by (auto simp: std_fds_def)
        then have "card (dom t) \<le> card ({..<3} - {fd})" by (intro card_mono) auto
        then show ?thesis using False by simp
      qed
      moreover have "starts F (open_console n k) u e" using 1(2) False by (simp add: u_def)
      ultimately show ?thesis using Suc.prems(3) by (intro Suc.IH [of u]) simp_all
    qed
  next
    case 2
    then show ?thesis using Suc.prems(2) by auto
  qed
qed simp

lemma map_std_redirs: "std_redirs (map_cmd f c) = std_redirs c"
  by (induction c) auto

lemma run_line_fds:
  assumes "starts F (run_line buf) t e" "std_fds x t"
  shows "std_fds x (snd e)"
proof (cases "parsecmd buf")
  case (Inl a)
  then have "a \<noteq> OutOfFuel" using parsecmd_fuel [of buf] by auto
  then show ?thesis using assms Inl by (cases a) (auto simp: run_line_def not_starts_panic)
next
  case (Inr r)
  obtain c b where r: "r = (c, b)" by fastforce
  obtain ps where p: "parseline (parse_fuel buf) buf 0 = Inr (c, ps)"
    using Inr r by (auto simp: parsecmd_def case_prod_beta split: if_splits)
  show ?thesis
    using assms Inr r parse_words(1) [OF p]
    by (intro runcmd_fds [where t = t]) (auto simp: run_line_def map_std_redirs good_cmd_def)
qed

lemma sh_loop_fds:
  "starts F (sh_loop inp) t e \<Longrightarrow> std_fds x t \<Longrightarrow> std_fds x (snd e)"
proof (induction inp rule: sh_loop.induct)
  case (1 inp)
  from "1.prems"(1) have st: "starts F (SWrite 2 ''$ ''
      (case getcmd 100 inp of
         None \<Rightarrow> SExit 0
       | Some (buf, rest) \<Rightarrow>
           if take 3 buf = ''cd '' then
             (let dir = drop 3 (butlast buf) in
              SChdir dir (sh_loop rest)
                (SWrite 2 (''cannot cd '' @ dir @ [CHR 0x0A]) (sh_loop rest)))
           else fork1 (run_line buf) (SWait (sh_loop rest)))) t e"
    by (subst (asm) sh_loop.simps)
  show ?case
  proof (cases "getcmd 100 inp")
    case None
    then show ?thesis using st by auto
  next
    case (Some a)
    obtain buf rest where a: "a = (buf, rest)" by fastforce
    show ?thesis
    proof (cases "take 3 buf = ''cd ''")
      case True
      then show ?thesis
        using st Some a "1.IH"(1) [OF Some a [symmetric] True refl] "1.prems"(2) by (auto simp: Let_def)
    next
      case False
      then have "starts F (fork1 (run_line buf) (SWait (sh_loop rest))) t e"
        using st Some a by auto
      then show ?thesis
      proof (rule starts_fork1E)
        assume "starts F (run_line buf) t e"
        then show ?thesis using "1.prems"(2) by (rule run_line_fds)
      qed (use "1.IH"(3) [OF Some a [symmetric] False] "1.prems"(2) in auto)
    qed
  qed
qed

text \<open>
  C24. Descriptors (\<open>main\<close> and \<open>runcmd\<close>, sh.c). The shell is started with a table that has no descriptor above 2.
  Whatever lines it reads, however they nest pipes, lists, background commands and redirections,
  and whichever of its system calls fail, no program it starts has a descriptor above 2 open: no pipe end and no file leaks. When
  the shell was started with 0, 1 and 2 open, or when \<open>open("console")\<close> does not fail, every
  program has all three of them.
\<close>

theorem sh_no_fd_leak:
  assumes "dom t \<subseteq> {..<3}" "starts F (sh_main inp) t (argv, t')"
  shows "dom t' \<subseteq> {..<3} \<and> (dom t = {..<3} \<or> FOpen ''console'' \<notin> F \<longrightarrow> dom t' = {..<3})"
proof -
  let ?x = "dom t = {..<3} \<or> FOpen ''console'' \<notin> F"
  have "std_fds (dom t = {..<3}) t" using assms(1) by (auto simp: std_fds_def)
  moreover have "3 - card (dom t) < 4" by simp
  ultimately obtain t1 where "starts F (sh_loop inp) t1 (argv, t')" "std_fds ?x t1"
    using open_console_fds [OF assms(2) [unfolded sh_main_def]] by blast
  then have "std_fds ?x t'" using sh_loop_fds by fastforce
  then show ?thesis by (auto simp: std_fds_def)
qed

theorem sh_no_fd_leak_witness:
  "dom ([0 \<mapsto> OFile ''console'' O_RDWR, 1 \<mapsto> PipeW 0, 2 \<mapsto> OFile ''console'' O_RDWR] :: fdt) = {..<3}"
proof -
  let ?c = "OFile ''console'' O_RDWR"
  let ?t = "[0 \<mapsto> ?c, 1 \<mapsto> ?c, 2 \<mapsto> ?c] :: fdt"
  let ?e = "([''ls''], [0 \<mapsto> ?c, 1 \<mapsto> PipeW 0, 2 \<mapsto> ?c])"
  have d: "dom ?t = {..<3}" by auto
  have a: "fdalloc ?t = Some 3" "fdalloc (?t(3 \<mapsto> PipeR 0)) = Some 4"
    "fdalloc (?t(3 \<mapsto> PipeR 0, 4 \<mapsto> PipeW 0, 1 := None)) = Some 1"
    by (rule fdalloc_lowest; auto simp: less_Suc_eq numeral_eq_Suc)+
  have e: "?t(3 \<mapsto> PipeR 0, 4 \<mapsto> PipeW 0, 1 := None, 1 \<mapsto> PipeW 0, 3 := None, 4 := None)
     = [0 \<mapsto> ?c, 1 \<mapsto> PipeW 0, 2 \<mapsto> ?c]" by (auto simp: fun_eq_iff)
  have r: "starts UNIV (runcmd (PIPE (EXEC [''ls'']) (EXEC [''wc'']))) ?t ?e"
    unfolding runcmd.simps fork1_def
    by (rule pipe_ok [where n = 0, OF a(1,2)], rule fork_child, rule close, rule dup_ok [OF _ a(3)], simp,
        rule close, rule close, unfold e, simp, rule exec_ok)
  have g: "getcmd 100 (''ls|wc'' @ [CHR 0x0A]) = Some (''ls|wc'' @ [CHR 0x0A], [])" by code_simp
  have l: "map_sum id (\<lambda>(c, b). map_cmd (\<lambda>w. cstr_at b (fst w)) c) (parsecmd (''ls|wc'' @ [CHR 0x0A]))
    = Inr (PIPE (EXEC [''ls'']) (EXEC [''wc'']))" by code_simp
  then have l: "run_line (''ls|wc'' @ [CHR 0x0A]) = runcmd (PIPE (EXEC [''ls'']) (EXEC [''wc'']))"
    by (cases "parsecmd (''ls|wc'' @ [CHR 0x0A])") (auto simp: run_line_def)
  have "starts UNIV (sh_loop (''ls|wc'' @ [CHR 0x0A])) ?t ?e"
    using r by (subst sh_loop.simps, unfold g option.case prod.case l fork1_def) (auto simp: fork1_def intro!: print fork_child)
  then have "starts UNIV (sh_main (''ls|wc'' @ [CHR 0x0A])) ?t ?e"
    unfolding sh_main_def numeral_eq_Suc pred_numeral_simps open_console.simps by (intro open_fail) simp_all
  from sh_no_fd_leak [OF _ this] d show ?thesis by simp
qed

end
