(* ===== verification/Ysh.thy ===== *)
theory Ysh
  imports Sh
begin

text \<open>
  The course shell, user/ysh.c. \<open>yruncmd cmd k\<close> is \<open>runcmd\<close> on the C string \<open>cmd\<close>, followed by what
  the caller does with its return value; a forked process that comes back from \<open>runcmd\<close> goes on with
  the same caller. Where the code writes a terminator into the line, the model passes the parts.
  The input is what the process reads from its standard input.
\<close>

section \<open>Commands\<close>

definition skip_spaces :: "string \<Rightarrow> string" where
  "skip_spaces = dropWhile (\<lambda>c. c = CHR '' '')"

definition trim :: "string \<Rightarrow> string" where
  "trim cmd = rev (skip_spaces (rev (skip_spaces cmd)))"

definition before_char :: "char \<Rightarrow> string \<Rightarrow> string" where
  "before_char x = takeWhile (\<lambda>c. c \<noteq> x)"

definition after_char :: "char \<Rightarrow> string \<Rightarrow> string" where
  "after_char x cmd = tl (dropWhile (\<lambda>c. c \<noteq> x) cmd)"

lemma length_trim: "length (trim cmd) \<le> length cmd"
  unfolding trim_def skip_spaces_def length_rev
  by (metis length_dropWhile_le length_rev order_trans)

lemma parts_shorter:
  assumes "x \<in> set cmd"
  shows "length (before_char x cmd) < length cmd" "length (after_char x cmd) < length cmd"
proof -
  obtain d where d: "dropWhile (\<lambda>c. c \<noteq> x) cmd = x # d"
    using assms by (metis (mono_tags, lifting) dropWhile_eq_Nil_conv hd_dropWhile list.collapse)
  have "length cmd = length (before_char x cmd) + length (x # d)"
    unfolding before_char_def d [symmetric] by (metis length_append takeWhile_dropWhile_id)
  then show "length (before_char x cmd) < length cmd" "length (after_char x cmd) < length cmd"
    by (simp_all add: after_char_def d)
qed

text \<open>The loop that cuts a command at every space.\<close>

function split_args :: "string \<Rightarrow> string list" where
  "split_args cmd =
     (if CHR '' '' \<in> set cmd
      then before_char (CHR '' '') cmd # split_args (after_char (CHR '' '') cmd)
      else [cmd])"
  by pat_completeness auto
termination
  by (relation "measure length") (auto intro: parts_shorter)

declare split_args.simps [simp del]

text \<open>
  \<open>runcmd\<close>. A command of spaces only is empty after trimming; \<open>strlen\<close> returns a \<open>uint\<close>,
  so the index \<open>strlen(cmd) - 1\<close> is 2^32 - 1 then and the access faults. \<open>argv\<close> has room for 15 words and the
  null pointer; more words are written past its end. \<open>ypipe left right\<close> is the child that runs a pipeline:
  it does not look at the result of \<open>pipe\<close>, and goes on with an uninitialised \<open>fd\<close> when it fails.
\<close>

definition ypipe :: "prog \<Rightarrow> prog \<Rightarrow> prog" where
  "ypipe left right =
     (let run = (\<lambda>fd0 fd1.
        let child = SClose 0 (SDup fd0 (SClose fd0 (SClose fd1 right))) in
        SFork
          (SClose 1 (SDup fd1 (SClose fd0 (SClose fd1 left))))
          child child)
      in SPipe run (SUninit run))"

function yruncmd :: "string \<Rightarrow> (bool \<Rightarrow> prog) \<Rightarrow> prog" where
  "yruncmd cmd0 k =
     (if cmd0 = [] then k True
      else let cmd = trim cmd0 in
      if cmd = ''exit'' then k False
      else if take 3 cmd = ''cd '' then
        SChdir (drop 3 cmd) (k True) (SWrite 2 (''Cannot cd '' @ drop 3 cmd @ [CHR 0x0A]) (k True))
      else if cmd = [] then SFault
      else if last cmd = CHR ''&'' then
        SFork (yruncmd (butlast cmd) (\<lambda>_. k True)) (k True) (k True)
      else if CHR '';'' \<in> set cmd then
        (let parent = SWait (yruncmd (after_char (CHR '';'') cmd) (\<lambda>_. k True)) in
         SFork (yruncmd (before_char (CHR '';'') cmd) (\<lambda>_. SExit 0)) parent parent)
      else if CHR ''|'' \<in> set cmd then
        SFork
          (ypipe (yruncmd (before_char (CHR ''|'') cmd) (\<lambda>_. SExit 0)) (yruncmd (after_char (CHR ''|'') cmd) (\<lambda>_. SExit 0)))
          (SWait (k True)) (SWait (k True))
      else
        (let argv = split_args cmd in
         if length argv \<ge> 16 then SUndef
         else SFork (SExec argv (SWait (k True))) (SWait (k True)) (SWait (k True))))"
  by pat_completeness auto
termination
proof (relation "measure (\<lambda>(cmd, k). length cmd)", simp, goal_cases)
  case (1 cmd0 k x)
  then have "length (butlast x) < length x" "length x \<le> length cmd0" using length_trim by simp_all
  then show ?case by simp
next
  case (2 cmd0 k x)
  then show ?case using parts_shorter(2) [of "CHR '';''" x] length_trim [of cmd0] by simp
next
  case (3 cmd0 k x)
  then show ?case using parts_shorter(1) [of "CHR '';''" x] length_trim [of cmd0] by simp
next
  case (4 cmd0 k x)
  then show ?case using parts_shorter(1) [of "CHR ''|''" x] length_trim [of cmd0] by simp
next
  case (5 cmd0 k x)
  then show ?case using parts_shorter(2) [of "CHR ''|''" x] length_trim [of cmd0] by simp
qed

declare yruncmd.simps [simp del]

section \<open>The main loop\<close>

text \<open>
  \<open>readcmd\<close> after its prompt: the line without its last character, \<open>None\<close> when \<open>gets\<close> has read nothing, where
  \<open>cmd[strlen(cmd)-1] = 0\<close> writes to an unmapped address.
\<close>

definition readcmd :: "string \<Rightarrow> (string \<times> string) option" where
  "readcmd inp =
     (let (b, r) = gets 128 inp; cmd = takeWhile (\<lambda>c. c \<noteq> CHR 0x00) b in
      if cmd = [] then None else Some (butlast cmd, r))"

lemma readcmd_shorter:
  assumes "readcmd inp = Some (cmd, r)"
  shows "length r < length inp"
proof -
  have "getcmd 128 inp = Some (takeWhile (\<lambda>c. c \<noteq> CHR 0x00) (fst (gets 128 inp)), r)"
    using assms by (auto simp: readcmd_def getcmd_def Let_def case_prod_beta split: if_splits)
  then show ?thesis by (rule getcmd_shorter)
qed

function ysh_loop :: "string \<Rightarrow> prog" where
  "ysh_loop inp =
     SWrite 1 ''$ ''
      (case readcmd inp of
         None \<Rightarrow> SFault
       | Some (cmd, rest) \<Rightarrow>
           yruncmd cmd (\<lambda>go. if go then ysh_loop rest
             else SWrite 1 (''EEE3535 Operating Systems: closing ysh'' @ [CHR 0x0A]) (SExit 0)))"
  by pat_completeness auto
termination
  by (relation "measure length") (auto intro: readcmd_shorter)

declare ysh_loop.simps [simp del]

definition ysh_main :: "string \<Rightarrow> prog" where
  "ysh_main inp =
     open_console 4 (SWrite 1 (''EEE3535 Operating Systems: starting ysh'' @ [CHR 0x0A]) (ysh_loop inp))"

section \<open>Descriptors\<close>

text \<open>The ways in which a process of a tree can end, other than by \<open>exec\<close>.\<close>

primrec leaves :: "prog \<Rightarrow> prog set" where
  "leaves (SExit n) = {SExit n}"
| "leaves (SExec argv k) = leaves k"
| "leaves (SClose fd k) = leaves k"
| "leaves (SOpen f m k k') = (\<Union>fd. leaves (k fd)) \<union> leaves k'"
| "leaves (SDup fd k) = leaves k"
| "leaves (SPipe k k') = (\<Union>i j. leaves (k i j)) \<union> leaves k'"
| "leaves (SFork k k1 k2) = leaves k \<union> leaves k1 \<union> leaves k2"
| "leaves (SWait k) = leaves k"
| "leaves (SWrite fd x k) = leaves k"
| "leaves (SChdir f k k') = leaves k \<union> leaves k'"
| "leaves (SUninit k) = (\<Union>i j. leaves (k i j))"
| "leaves SFault = {SFault}"
| "leaves SUndef = {SUndef}"
| "leaves SMore = {SMore}"

lemma leaves_ypipe: "leaves (ypipe l r) = leaves l \<union> leaves r"
  by (auto simp: ypipe_def Let_def)

lemma starts_fork: "starts F (SFork k k1 k2) t e \<longleftrightarrow> starts F k t e \<or> starts F k1 t e \<or> starts F k2 t e"
  by (auto elim: starts_forkE intro: fork_child fork_parent fork_fail)

lemma starts_wait: "starts F (SWait k) t e \<longleftrightarrow> starts F k t e"
  by (auto intro: wait)

lemma starts_exec: "starts F (SExec argv k) t e \<longleftrightarrow> e = (argv, t) \<or> starts F k t e"
  by (auto elim: starts_execE intro: exec_ok exec_fail)

lemma starts_chdir: "starts F (SChdir f k k') t e \<longleftrightarrow> starts F k t e \<or> starts F k' t e"
  by (auto intro: chdir_ok chdir_fail)

lemma starts_print: "starts F (SWrite fd x k) t e \<longleftrightarrow> starts F k t e"
  by (auto intro: print)

lemma starts_end: "\<not> starts F (SExit n) t e" "\<not> starts F SFault t e"
  by auto

lemmas starts_simps = starts_fork starts_wait starts_exec starts_chdir starts_print starts_end

text \<open>
  Both sides of a pipeline run with the standard descriptors only, also when \<open>pipe\<close> has failed; they
  have all of them when it cannot fail.
\<close>

lemma starts_ypipe:
  assumes st: "starts F (ypipe l r) t e" and t: "std_fds x t" and x: "x \<Longrightarrow> FPipe \<notin> F"
  shows "\<exists>t'. std_fds x t' \<and> (starts F l t' e \<or> starts F r t' e)"
proof -
  define run where "run = (\<lambda>fd0 fd1. SFork (SClose 1 (SDup fd1 (SClose fd0 (SClose fd1 l))))
     (SClose 0 (SDup fd0 (SClose fd0 (SClose fd1 r)))) (SClose 0 (SDup fd0 (SClose fd0 (SClose fd1 r)))))"
  have sides: "\<exists>t'. std_fds x t' \<and> (starts F l t' e \<or> starts F r t' e)"
    if "starts F (run i j) u e" "dom u \<subseteq> {..<3} \<union> {i, j}"
      "x \<Longrightarrow> {..<3} \<subseteq> dom u \<and> 3 \<le> i \<and> 3 \<le> j \<and> u i \<noteq> None \<and> u j \<noteq> None" for u i j
  proof -
    from that(1) consider "starts F (SClose 1 (SDup j (SClose i (SClose j l)))) u e"
      | "starts F (SClose 0 (SDup i (SClose i (SClose j r)))) u e"
      unfolding run_def by (elim starts_forkE) auto
    then show ?thesis
    proof cases
      case 1
      have "\<exists>t. std_fds x t \<and> starts F l t e" by (rule starts_pipe_child [OF that(2) _ _ 1]) (use that(3) in auto)
      then show ?thesis by blast
    next
      case 2
      have "\<exists>t. std_fds x t \<and> starts F r t e" by (rule starts_pipe_child [OF that(2) _ _ 2]) (use that(3) in auto)
      then show ?thesis by blast
    qed
  qed
  from st have "starts F (SPipe run (SUninit run)) t e" by (simp add: ypipe_def run_def Let_def)
  then consider
      i n j where "fdalloc t = Some i" "fdalloc (t(i \<mapsto> PipeR n)) = Some j"
        "starts F (run i j) (t(i \<mapsto> PipeR n, j \<mapsto> PipeW n)) e"
    | i n i' j' where "FPipe \<in> F \<or> fdalloc t = None \<or> fdalloc t = Some i \<and> fdalloc (t(i \<mapsto> PipeR n)) = None"
        "starts F (run i' j') t e"
    by (elim starts_pipeE starts_uninitE) blast+
  then show ?thesis
  proof cases
    case 1
    note u = std_fds_pipe [OF t 1(1,2)]
    show ?thesis by (rule sides [OF 1(3) u(1)]) (use u(2,3) in auto)
  next
    case 2
    have "\<not> x"
    proof
      assume x
      have "t 3 = None" "t 4 = None" by (rule std_fds_free [OF t], simp)+
      then have "fdalloc t \<noteq> None" using fdallocD(2) [of t 3] by auto
      then have "fdalloc t = Some i" "fdalloc (t(i \<mapsto> PipeR n)) = None" using 2(1) x [OF \<open>x\<close>] by auto
      then have "i \<noteq> 3 \<Longrightarrow> False" "i = 3 \<Longrightarrow> False"
        using fdallocD(2) [of "t(i \<mapsto> PipeR n)" 3] fdallocD(2) [of "t(i \<mapsto> PipeR n)" 4] \<open>t 3 = None\<close> \<open>t 4 = None\<close> by auto
      then show False by blast
    qed
    then show ?thesis using t by (intro sides [OF 2(2)]) (auto simp: std_fds_def)
  qed
qed

lemma yruncmd_fds:
  assumes "starts F (yruncmd cmd k) t e" "std_fds x t" "SUndef \<notin> leaves (yruncmd cmd k)"
    and "\<And>b t. starts F (k b) t e \<Longrightarrow> std_fds x t \<Longrightarrow> SUndef \<notin> leaves (k b) \<Longrightarrow> std_fds x (snd e)"
    and "x \<Longrightarrow> FPipe \<notin> F"
  shows "std_fds x (snd e)"
  using assms(1-4)
proof (induction cmd k arbitrary: t rule: yruncmd.induct)
  case (1 cmd0 k)
  let ?c = "trim cmd0"
  note IH = "1.IH" [OF _ refl]
  note k = "1.prems"(4) [OF _ "1.prems"(2)]
  have st: "starts F (yruncmd cmd0 k) t e" and nu: "SUndef \<notin> leaves (yruncmd cmd0 k)" by (fact "1.prems")+
  consider (triv) "cmd0 = [] \<or> ?c = ''exit'' \<or> take 3 ?c = ''cd '' \<or> ?c = []"
    | (bg) "cmd0 \<noteq> []" "?c \<noteq> ''exit''" "take 3 ?c \<noteq> ''cd ''" "?c \<noteq> []" "last ?c = CHR ''&''"
    | (lst) "cmd0 \<noteq> []" "?c \<noteq> ''exit''" "take 3 ?c \<noteq> ''cd ''" "?c \<noteq> []" "last ?c \<noteq> CHR ''&''" "CHR '';'' \<in> set ?c"
    | (pip) "cmd0 \<noteq> []" "?c \<noteq> ''exit''" "take 3 ?c \<noteq> ''cd ''" "?c \<noteq> []" "last ?c \<noteq> CHR ''&''" "CHR '';'' \<notin> set ?c"
        "CHR ''|'' \<in> set ?c"
    | (sim) "cmd0 \<noteq> []" "?c \<noteq> ''exit''" "take 3 ?c \<noteq> ''cd ''" "?c \<noteq> []" "last ?c \<noteq> CHR ''&''" "CHR '';'' \<notin> set ?c"
        "CHR ''|'' \<notin> set ?c"
    by blast
  then show ?case
  proof cases
    case triv
    then have "yruncmd cmd0 k \<in> {k True, k False, SFault,
        SChdir (drop 3 ?c) (k True) (SWrite 2 (''Cannot cd '' @ drop 3 ?c @ [CHR 0x0A]) (k True))}"
      by (elim disjE; subst yruncmd.simps; simp add: Let_def)
    then consider b where "yruncmd cmd0 k = k b" | "yruncmd cmd0 k = SFault"
      | "yruncmd cmd0 k = SChdir (drop 3 ?c) (k True) (SWrite 2 (''Cannot cd '' @ drop 3 ?c @ [CHR 0x0A]) (k True))"
      by blast
    then show ?thesis using st nu k by cases (auto simp: starts_simps)
  next
    case bg
    then have eq: "yruncmd cmd0 k = SFork (yruncmd (butlast ?c) (\<lambda>_. k True)) (k True) (k True)"
      by (subst yruncmd.simps) (simp add: Let_def)
    with st consider "starts F (yruncmd (butlast ?c) (\<lambda>_. k True)) t e" | "starts F (k True) t e"
      by (auto simp: starts_simps)
    then show ?thesis
    proof cases
      case 1
      then show ?thesis by (rule IH(1) [OF bg _ "1.prems"(2)]) (use nu eq "1.prems"(4) in auto)
    qed (use k nu eq in auto)
  next
    case lst
    then have eq: "yruncmd cmd0 k = SFork (yruncmd (before_char (CHR '';'') ?c) (\<lambda>_. SExit 0))
        (SWait (yruncmd (after_char (CHR '';'') ?c) (\<lambda>_. k True))) (SWait (yruncmd (after_char (CHR '';'') ?c) (\<lambda>_. k True)))"
      by (subst yruncmd.simps) (simp add: Let_def)
    with st consider "starts F (yruncmd (after_char (CHR '';'') ?c) (\<lambda>_. k True)) t e"
      | "starts F (yruncmd (before_char (CHR '';'') ?c) (\<lambda>_. SExit 0)) t e"
      by (auto simp: starts_simps)
    then show ?thesis
    proof cases
      case 1
      then show ?thesis by (rule IH(2) [OF lst _ "1.prems"(2)]) (use nu eq "1.prems"(4) in auto)
    next
      case 2
      then show ?thesis by (rule IH(3) [OF lst refl _ "1.prems"(2)]) (use nu eq in \<open>auto simp: starts_end\<close>)
    qed
  next
    case pip
    then have eq: "yruncmd cmd0 k = SFork (ypipe (yruncmd (before_char (CHR ''|'') ?c) (\<lambda>_. SExit 0))
        (yruncmd (after_char (CHR ''|'') ?c) (\<lambda>_. SExit 0))) (SWait (k True)) (SWait (k True))"
      by (subst yruncmd.simps) (simp add: Let_def)
    with st consider "starts F (ypipe (yruncmd (before_char (CHR ''|'') ?c) (\<lambda>_. SExit 0))
        (yruncmd (after_char (CHR ''|'') ?c) (\<lambda>_. SExit 0))) t e" | "starts F (k True) t e"
      by (auto simp: starts_simps)
    then show ?thesis
    proof cases
      case 1
      then obtain t' where t': "std_fds x t'" "starts F (yruncmd (before_char (CHR ''|'') ?c) (\<lambda>_. SExit 0)) t' e
          \<or> starts F (yruncmd (after_char (CHR ''|'') ?c) (\<lambda>_. SExit 0)) t' e"
        using starts_ypipe [OF 1 "1.prems"(2) assms(5)] by blast
      from t'(2) show ?thesis
      proof
        assume "starts F (yruncmd (before_char (CHR ''|'') ?c) (\<lambda>_. SExit 0)) t' e"
        then show ?thesis by (rule IH(4) [OF pip _ t'(1)]) (use nu eq in \<open>auto simp: leaves_ypipe starts_end\<close>)
      next
        assume "starts F (yruncmd (after_char (CHR ''|'') ?c) (\<lambda>_. SExit 0)) t' e"
        then show ?thesis by (rule IH(5) [OF pip _ t'(1)]) (use nu eq in \<open>auto simp: leaves_ypipe starts_end\<close>)
      qed
    qed (use k nu eq in auto)
  next
    case sim
    then have "yruncmd cmd0 k = SUndef \<or>
        yruncmd cmd0 k = SFork (SExec (split_args ?c) (SWait (k True))) (SWait (k True)) (SWait (k True))"
      by (subst (1 2) yruncmd.simps) (simp add: Let_def)
    then have eq: "yruncmd cmd0 k = SFork (SExec (split_args ?c) (SWait (k True))) (SWait (k True)) (SWait (k True))"
      using nu by auto
    with st have "e = (split_args ?c, t) \<or> starts F (k True) t e" by (auto simp: starts_simps)
    then show ?thesis using k nu eq "1.prems"(2) by (elim disjE) simp_all
  qed
qed

lemma ysh_loop_fds:
  "starts F (ysh_loop inp) t e \<Longrightarrow> std_fds x t \<Longrightarrow> SUndef \<notin> leaves (ysh_loop inp) \<Longrightarrow> (x \<Longrightarrow> FPipe \<notin> F)
   \<Longrightarrow> std_fds x (snd e)"
proof (induction inp arbitrary: t rule: ysh_loop.induct)
  case (1 inp)
  show ?case
  proof (cases "readcmd inp")
    case None
    then show ?thesis using "1.prems"(1) by (subst (asm) ysh_loop.simps) (simp add: starts_simps)
  next
    case (Some a)
    obtain cmd rest where a: "a = (cmd, rest)" by fastforce
    let ?k = "\<lambda>go. if go then ysh_loop rest
             else SWrite 1 (''EEE3535 Operating Systems: closing ysh'' @ [CHR 0x0A]) (SExit 0)"
    have st: "starts F (yruncmd cmd ?k) t e"
      using "1.prems"(1) Some a by (subst (asm) ysh_loop.simps) (simp add: starts_simps)
    have nu: "SUndef \<notin> leaves (yruncmd cmd ?k)"
      using "1.prems"(3) Some a by (subst (asm) ysh_loop.simps) simp
    show ?thesis
    proof (rule yruncmd_fds [OF st "1.prems"(2) nu _ "1.prems"(4)])
      fix b t
      assume "starts F (?k b) t e" "std_fds x t" "SUndef \<notin> leaves (?k b)"
      then show "std_fds x (snd e)"
        using "1.IH" [OF Some a [symmetric]] "1.prems"(4) by (auto simp: starts_simps split: if_splits)
    qed
  qed
qed

section \<open>Pipelines\<close>

text \<open>
  The stages of a pipeline: words without the special characters that are not the built-in
  commands, at most 15 of them.
\<close>

definition plain_stage :: "string \<Rightarrow> bool" where
  "plain_stage a \<longleftrightarrow> trim a \<noteq> [] \<and> CHR ''|'' \<notin> set a \<and> CHR '';'' \<notin> set a \<and> CHR ''&'' \<notin> set a
     \<and> trim a \<noteq> ''exit'' \<and> take 3 (trim a @ '' '') \<noteq> ''cd '' \<and> length (split_args (trim a)) < 16"

fun join_stages :: "string list \<Rightarrow> string" where
  "join_stages [] = []"
| "join_stages [a] = a"
| "join_stages (a # as) = a @ CHR ''|'' # join_stages as"

text \<open>
  The run of a tree in which every call succeeds: the programs it starts with their tables, and a number that is
  larger than that of every pipe made so far, starting from \<open>n\<close>. Pipes are numbered in the order in which they are made;
  of a \<open>fork\<close> the child runs first.
\<close>

primrec run_ok :: "prog \<Rightarrow> fdt \<Rightarrow> nat \<Rightarrow> (string list \<times> fdt) list \<times> nat" where
  "run_ok (SExit c) t n = ([], n)"
| "run_ok (SExec argv k) t n = ([(argv, t)], n)"
| "run_ok (SClose fd k) t n = run_ok k (t(fd := None)) n"
| "run_ok (SOpen f m k k') t n =
     (case fdalloc t of None \<Rightarrow> run_ok k' t n | Some fd \<Rightarrow> run_ok (k fd) (t(fd \<mapsto> OFile f m)) n)"
| "run_ok (SDup fd k) t n =
     (case (t fd, fdalloc t) of (Some ob, Some i) \<Rightarrow> run_ok k (t(i \<mapsto> ob)) n | _ \<Rightarrow> run_ok k t n)"
| "run_ok (SPipe k k') t n =
     (case fdalloc t of
        None \<Rightarrow> run_ok k' t n
      | Some i \<Rightarrow>
          (case fdalloc (t(i \<mapsto> PipeR n)) of
             None \<Rightarrow> run_ok k' t n
           | Some j \<Rightarrow> run_ok (k i j) (t(i \<mapsto> PipeR n, j \<mapsto> PipeW n)) (Suc n)))"
| "run_ok (SFork k k1 k2) t n =
     (let (es, m) = run_ok k t n; (es', m') = run_ok k1 t m in (es @ es', m'))"
| "run_ok (SWait k) t n = run_ok k t n"
| "run_ok (SWrite fd x k) t n = run_ok k t n"
| "run_ok (SChdir f k k') t n = run_ok k t n"
| "run_ok (SUninit k) t n = ([], n)"
| "run_ok SFault t n = ([], n)"
| "run_ok SUndef t n = ([], n)"
| "run_ok SMore t n = ([], n)"

text \<open>
  What a pipeline should start: pipe \<open>n\<close> takes the standard output of the first stage to the standard input of the
  second one, pipe \<open>n + 1\<close> that of the second to the third, and so on; the other descriptors are as they were.
\<close>

fun wire :: "string list \<Rightarrow> fdt \<Rightarrow> nat \<Rightarrow> (string list \<times> fdt) list" where
  "wire [] t n = []"
| "wire [a] t n = [(split_args (trim a), t)]"
| "wire (a # as) t n = (split_args (trim a), t(1 \<mapsto> PipeW n)) # wire as (t(0 \<mapsto> PipeR n)) (Suc n)"

text \<open>A child of a pipeline, with descriptor \<open>i\<close> moved to one end of the pipe.\<close>

lemma run_ok_pipe_end:
  assumes d: "dom t = {..<3}" and i: "i < 2" and pe: "pe = 3 \<and> ob = PipeR n \<or> pe = 4 \<and> ob = PipeW n"
  shows "run_ok (SClose i (SDup pe (SClose 3 (SClose 4 k)))) (t(3 \<mapsto> PipeR n, 4 \<mapsto> PipeW n)) m
    = run_ok k (t(i \<mapsto> ob)) m"
proof -
  let ?t = "(t(3 \<mapsto> PipeR n, 4 \<mapsto> PipeW n))(i := None)"
  have t: "t j = None \<longleftrightarrow> 3 \<le> j" for j by (metis d domIff lessThan_iff not_le)
  have fa: "fdalloc ?t = Some i" using t i by (intro fdalloc_lowest) auto
  have ob: "?t pe = Some ob" using i pe by auto
  have eq: "((?t(i \<mapsto> ob))(3 := None))(4 := None) = t(i \<mapsto> ob)"
    using t [of 3] t [of 4] i by (auto simp: fun_eq_iff)
  show ?thesis unfolding run_ok.simps fa ob prod.case option.case eq ..
qed

lemma run_ok_ypipe:
  assumes d: "dom t = {..<3}"
  shows "run_ok (ypipe l r) t n =
    (let (es, m) = run_ok l (t(1 \<mapsto> PipeW n)) (Suc n); (es', m') = run_ok r (t(0 \<mapsto> PipeR n)) m in (es @ es', m'))"
proof -
  have t: "t j = None \<longleftrightarrow> 3 \<le> j" for j by (metis d domIff lessThan_iff not_le)
  have a: "fdalloc t = Some 3" using t by (intro fdalloc_lowest) auto
  have b: "fdalloc (t(3 \<mapsto> PipeR n)) = Some 4"
    by (intro fdalloc_lowest) (auto simp: t simp del: not_None_eq)
  have 1: "run_ok (SClose 1 (SDup 4 (SClose 3 (SClose 4 l)))) (t(3 \<mapsto> PipeR n, 4 \<mapsto> PipeW n)) m = run_ok l (t(1 \<mapsto> PipeW n)) m"
    "run_ok (SClose 0 (SDup 3 (SClose 3 (SClose 4 r)))) (t(3 \<mapsto> PipeR n, 4 \<mapsto> PipeW n)) m = run_ok r (t(0 \<mapsto> PipeR n)) m" for m
    by (rule run_ok_pipe_end [OF d]; simp)+
  have fork: "run_ok (SFork k k1 k2) u m = (let (es, m) = run_ok k u m; (es', m') = run_ok k1 u m in (es @ es', m'))" for k k1 k2 u m
    by simp
  have pipe: "run_ok (SPipe k k') t n = run_ok (k 3 4) (t(3 \<mapsto> PipeR n, 4 \<mapsto> PipeW n)) (Suc n)" for k k'
    using a b by simp
  show ?thesis unfolding ypipe_def Let_def pipe unfolding fork 1 Let_def ..
qed

lemma skip_spaces_append:
  "skip_spaces a \<noteq> [] \<Longrightarrow> skip_spaces (a @ b) = skip_spaces a @ b"
  by (induction a) (auto simp: skip_spaces_def split: if_splits)

lemma trim_Nil_iff: "trim a = [] \<longleftrightarrow> set a \<subseteq> {CHR '' ''}"
proof -
  have "skip_spaces x = [] \<longleftrightarrow> set x \<subseteq> {CHR '' ''}" for x by (auto simp: skip_spaces_def dropWhile_eq_Nil_conv)
  moreover have "set (skip_spaces a) \<subseteq> {CHR '' ''} \<longleftrightarrow> set a \<subseteq> {CHR '' ''}"
    by (induction a) (auto simp: skip_spaces_def)
  ultimately show ?thesis by (simp add: trim_def)
qed

lemma skip_spaces_padded:
  assumes "set l \<subseteq> {CHR '' ''}" "m \<noteq> []" "hd m \<noteq> CHR '' ''"
  shows "skip_spaces (l @ m) = m"
proof -
  have "dropWhile (\<lambda>c. c = CHR '' '') (l @ m) = dropWhile (\<lambda>c. c = CHR '' '') m"
    using assms(1) by (intro dropWhile_append2) auto
  then show ?thesis using assms(2,3) by (cases m) (simp_all add: skip_spaces_def)
qed

lemma trim_padded:
  assumes "set l \<subseteq> {CHR '' ''}" "set r \<subseteq> {CHR '' ''}" "m \<noteq> []" "hd m \<noteq> CHR '' ''" "last m \<noteq> CHR '' ''"
  shows "trim (l @ m @ r) = m"
proof -
  have "skip_spaces (l @ m @ r) = m @ r" using assms by (intro skip_spaces_padded) simp_all
  moreover have "skip_spaces (rev r @ rev m) = rev m"
    using assms by (intro skip_spaces_padded) (simp_all add: hd_rev)
  ultimately show ?thesis by (simp add: trim_def)
qed

lemma trim_split:
  assumes "trim a \<noteq> []"
  obtains l r where "a = l @ trim a @ r" "set l \<subseteq> {CHR '' ''}" "set r \<subseteq> {CHR '' ''}"
    "hd (trim a) \<noteq> CHR '' ''" "last (trim a) \<noteq> CHR '' ''"
proof -
  let ?sp = "\<lambda>c. c = CHR '' ''"
  define b where "b = skip_spaces a"
  have a: "a = takeWhile ?sp a @ b" by (simp add: b_def skip_spaces_def)
  have rb: "rev b = takeWhile ?sp (rev b) @ rev (trim a)" by (simp add: b_def trim_def skip_spaces_def)
  then have b: "b = trim a @ rev (takeWhile ?sp (rev b))" by (metis rev_append rev_rev_ident)
  have "last (trim a) = hd (rev (trim a))" by (simp add: hd_rev assms)
  also have "\<dots> \<noteq> CHR '' ''"
    using hd_dropWhile [of ?sp "rev b"] assms by (simp add: b_def trim_def skip_spaces_def)
  finally have 1: "last (trim a) \<noteq> CHR '' ''" .
  have "b \<noteq> []" using b assms by auto
  then have "hd b \<noteq> CHR '' ''" using hd_dropWhile [of ?sp a] by (simp add: b_def skip_spaces_def)
  then have 2: "hd (trim a) \<noteq> CHR '' ''" using b assms by (metis hd_append2)
  show ?thesis
  proof (rule that [OF _ _ _ 2 1])
    show "a = takeWhile ?sp a @ trim a @ rev (takeWhile ?sp (rev b))" using a b by simp
  qed (auto dest: set_takeWhileD)
qed

lemma cut_char: "x \<notin> set u \<Longrightarrow> before_char x (u @ x # v) = u \<and> after_char x (u @ x # v) = v"
  by (induction u) (auto simp: before_char_def after_char_def)

text \<open>Cutting a trimmed pipeline at its first bar gives its first stage and the others, up to spaces.\<close>

lemma trim_pipeline:
  assumes "trim a \<noteq> []" "trim b \<noteq> []" "CHR ''|'' \<notin> set a"
  obtains r b' where "trim (a @ CHR ''|'' # b) = trim a @ r @ CHR ''|'' # b'" "trim (trim a @ r) = trim a" "trim b' = trim b"
    "before_char (CHR ''|'') (trim a @ r @ CHR ''|'' # b') = trim a @ r"
    "after_char (CHR ''|'') (trim a @ r @ CHR ''|'' # b') = b'"
    "set r \<subseteq> {CHR '' ''}" "last b' = last (trim b)" "b' \<noteq> []" "set (trim a @ r) \<subseteq> set a" "set b' \<subseteq> set b"
proof -
  obtain l r where a: "a = l @ trim a @ r" "set l \<subseteq> {CHR '' ''}" "set r \<subseteq> {CHR '' ''}"
    "hd (trim a) \<noteq> CHR '' ''" "last (trim a) \<noteq> CHR '' ''" using trim_split [OF assms(1)] .
  obtain l' r' where b: "b = l' @ trim b @ r'" "set l' \<subseteq> {CHR '' ''}" "set r' \<subseteq> {CHR '' ''}"
    "hd (trim b) \<noteq> CHR '' ''" "last (trim b) \<noteq> CHR '' ''" using trim_split [OF assms(2)] .
  let ?b = "l' @ trim b"
  have e: "a @ CHR ''|'' # b = l @ (trim a @ r @ CHR ''|'' # ?b) @ r'" by (subst a(1), subst b(1)) simp
  have 1: "trim (a @ CHR ''|'' # b) = trim a @ r @ CHR ''|'' # ?b"
    unfolding e by (rule trim_padded) (use a b assms in simp_all)
  have 2: "trim (trim a @ r) = trim a" "trim ?b = trim b"
    using trim_padded [of "[]" r "trim a"] trim_padded [of l' "[]" "trim b"] a b assms(1,2) by simp_all
  have 3: "set (trim a @ r) \<subseteq> set a" by (metis a(1) set_append Un_upper2)
  have 4: "set ?b \<subseteq> set b" by (metis b(1) append.assoc set_append Un_upper1)
  have n: "CHR ''|'' \<notin> set (trim a @ r)" using 3 assms(3) by blast
  have "before_char (CHR ''|'') ((trim a @ r) @ CHR ''|'' # ?b) = trim a @ r"
    "after_char (CHR ''|'') ((trim a @ r) @ CHR ''|'' # ?b) = ?b"
    using cut_char [OF n] by simp_all
  then show ?thesis using that [of r ?b] 1 2 3 4 a(3) assms(2) by simp
qed

lemma yruncmd_trim:
  assumes "trim c = trim d" "trim d \<noteq> []"
  shows "yruncmd c k = yruncmd d k"
proof -
  have "trim [] = []" by (simp add: trim_def skip_spaces_def)
  then have "c \<noteq> []" "d \<noteq> []" using assms by auto
  then show ?thesis using assms(1) by (subst (1 2) yruncmd.simps) (simp add: Let_def)
qed

lemma not_cd:
  assumes "take 3 (m @ '' '') \<noteq> ''cd ''" "set r \<subseteq> {CHR '' ''}"
  shows "take 3 (m @ r @ CHR ''|'' # b) \<noteq> ''cd ''"
proof
  assume e: "take 3 (m @ r @ CHR ''|'' # b) = ''cd ''"
  show False
  proof (cases "length m \<ge> 3")
    case True
    then show False using e assms(1) by simp
  next
    case False
    then consider "m = []" | x where "m = [x]" | x y where "m = [x, y]"
      by (cases m; cases "tl m"; cases "tl (tl m)") auto
    then show False
      using e assms by cases (cases r; cases "tl r"; cases "tl (tl r)"; auto simp: numeral_eq_Suc)+
  qed
qed

lemma set_trim: "trim a \<noteq> [] \<Longrightarrow> set (trim a) \<subseteq> set a"
  by (erule trim_split) (metis set_append Un_upper1 Un_upper2 order_trans)

lemma yruncmd_stage:
  assumes "plain_stage a"
  shows "yruncmd a k = SFork (SExec (split_args (trim a)) (SWait (k True))) (SWait (k True)) (SWait (k True))"
proof -
  have ne: "trim a \<noteq> []" "a \<noteq> []" using assms by (auto simp: plain_stage_def trim_def skip_spaces_def)
  have s: "set (trim a) \<subseteq> set a" by (rule set_trim [OF ne(1)])
  then have "last (trim a) \<in> set a" using last_in_set [OF ne(1)] by blast
  then have "CHR ''|'' \<notin> set (trim a)" "CHR '';'' \<notin> set (trim a)" "last (trim a) \<noteq> CHR ''&''"
    using s assms by (auto simp: plain_stage_def)
  moreover have "take 3 (trim a) \<noteq> ''cd ''"
  proof
    assume "take 3 (trim a) = ''cd ''"
    then have "take 3 (trim a @ '' '') = ''cd ''"
      by (metis append_take_drop_id length_take list.size(3,4) take_append take_all_iff nat_le_linear
          diff_is_0_eq take0 append_Nil2 min_def numeral_3_eq_3 One_nat_def add_Suc_right add_0_right)
    then show False using assms by (simp add: plain_stage_def)
  qed
  ultimately show ?thesis
    using assms ne by (subst yruncmd.simps) (auto simp: plain_stage_def Let_def)
qed

lemma join_stages_special:
  assumes "list_all plain_stage stages" "stages \<noteq> []"
  shows "trim (join_stages stages) \<noteq> []" "CHR '';'' \<notin> set (join_stages stages)" "CHR ''&'' \<notin> set (join_stages stages)"
  using assms by (induction stages rule: join_stages.induct) (auto simp: plain_stage_def trim_Nil_iff)

lemma yruncmd_pipeline:
  assumes stages: "list_all plain_stage (a # b # as)"
  shows "yruncmd (join_stages (a # b # as)) k =
    SFork (ypipe (yruncmd a (\<lambda>_. SExit 0)) (yruncmd (join_stages (b # as)) (\<lambda>_. SExit 0))) (SWait (k True)) (SWait (k True))"
proof -
  let ?rest = "join_stages (b # as)"
  have a: "plain_stage a" and rest: "list_all plain_stage (b # as)" using stages by simp_all
  have ta: "trim a \<noteq> []" "CHR ''|'' \<notin> set a" using a by (auto simp: plain_stage_def)
  note sp = join_stages_special [OF rest]
  obtain r b' where p: "trim (a @ CHR ''|'' # ?rest) = trim a @ r @ CHR ''|'' # b'"
    "trim (trim a @ r) = trim a" "trim b' = trim ?rest"
    "before_char (CHR ''|'') (trim a @ r @ CHR ''|'' # b') = trim a @ r"
    "after_char (CHR ''|'') (trim a @ r @ CHR ''|'' # b') = b'"
    "set r \<subseteq> {CHR '' ''}" "last b' = last (trim ?rest)" "b' \<noteq> []" "set (trim a @ r) \<subseteq> set a" "set b' \<subseteq> set ?rest"
    using trim_pipeline [OF ta(1) sp(1) ta(2)] by blast
  let ?c = "trim a @ r @ CHR ''|'' # b'"
  have c: "?c \<noteq> ''exit''" "take 3 ?c \<noteq> ''cd ''" "?c \<noteq> []" "CHR ''|'' \<in> set ?c"
    using not_cd [of "trim a" r b'] a p(6) by (auto simp: plain_stage_def append_eq_Cons_conv Cons_eq_append_conv)
  have "last b' \<in> set ?rest" using last_in_set [OF p(8)] p(10) by blast
  then have d: "last ?c \<noteq> CHR ''&''" "CHR '';'' \<notin> set ?c"
    using p(8,9,10) sp(2,3) a by (auto simp: plain_stage_def)
  have l: "yruncmd (trim a @ r) k = yruncmd a k" "yruncmd b' k = yruncmd ?rest k" for k
    using yruncmd_trim [of "trim a @ r" a] yruncmd_trim [of b' ?rest] p(2,3) ta(1) sp(1) by simp_all
  show ?thesis
    using c d by (subst yruncmd.simps) (simp only: join_stages.simps p(1,4,5) l Let_def if_False if_True append_is_Nil_conv list.distinct simp_thms)
qed

lemma run_pipeline:
  "list_all plain_stage stages \<Longrightarrow> stages \<noteq> [] \<Longrightarrow> dom t = {..<3}
   \<Longrightarrow> run_ok (yruncmd (join_stages stages) k) t n
     = (let (es, m) = run_ok (k True) t (n + length stages - 1) in (wire stages t n @ es, m))"
proof (induction stages arbitrary: t k n rule: join_stages.induct)
  case (2 a)
  then show ?case by (simp add: yruncmd_stage case_prod_beta Let_def)
next
  case (3 a b as)
  have st: "plain_stage a" "list_all plain_stage (b # as)" using "3.prems"(1) by simp_all
  have d: "dom (t(0 \<mapsto> PipeR n)) = {..<3}" using "3.prems"(3) by auto
  have "run_ok (yruncmd (join_stages (b # as)) (\<lambda>_. SExit 0)) (t(0 \<mapsto> PipeR n)) (Suc n)
      = (wire (b # as) (t(0 \<mapsto> PipeR n)) (Suc n), Suc n + length as)"
    unfolding "3.IH" [OF st(2) list.distinct(2) d] by simp
  moreover have "run_ok (yruncmd a (\<lambda>_. SExit 0)) (t(1 \<mapsto> PipeW n)) (Suc n)
      = ([(split_args (trim a), t(1 \<mapsto> PipeW n))], Suc n)"
    using yruncmd_stage [OF st(1)] by simp
  ultimately have "run_ok (ypipe (yruncmd a (\<lambda>_. SExit 0)) (yruncmd (join_stages (b # as)) (\<lambda>_. SExit 0))) t n
      = (wire (a # b # as) t n, n + Suc (length as))"
    unfolding run_ok_ypipe [OF "3.prems"(3)] by simp
  then show ?case
    unfolding yruncmd_pipeline [OF "3.prems"(1)] by (simp add: case_prod_beta Let_def)
qed simp

section \<open>Faults\<close>

definition blank :: "string \<Rightarrow> bool" where
  "blank c \<longleftrightarrow> c \<noteq> [] \<and> set c \<subseteq> {CHR '' ''}"

lemma parts_not_blank:
  assumes "trim c \<noteq> []"
  shows "\<not> blank (butlast (trim c))" "\<not> blank (before_char x (trim c))"
    "x \<in> set (trim c) \<Longrightarrow> \<not> blank (after_char x (trim c))"
proof -
  let ?c = "trim c"
  obtain h: "hd ?c \<noteq> CHR '' ''" and l: "last ?c \<noteq> CHR '' ''" by (rule trim_split [OF assms])
  have pre: "\<not> blank u" if "?c = u @ v" for u v
    using that h by (cases u) (auto simp: blank_def)
  show "\<not> blank (butlast ?c)" using pre [of "butlast ?c" "[last ?c]"] assms by simp
  show "\<not> blank (before_char x ?c)"
    unfolding before_char_def by (rule pre) (rule takeWhile_dropWhile_id [symmetric])
  assume "x \<in> set ?c"
  then have ne: "dropWhile (\<lambda>c. c \<noteq> x) ?c \<noteq> []" by simp
  show "\<not> blank (after_char x ?c)"
  proof
    assume b: "blank (after_char x ?c)"
    then have "last (after_char x ?c) = CHR '' ''" unfolding blank_def using last_in_set by blast
    moreover have "last (after_char x ?c) = last (dropWhile (\<lambda>c. c \<noteq> x) ?c)"
      using b by (simp add: after_char_def blank_def last_tl)
    moreover have "\<dots> = last ?c" using ne by (metis last_appendR takeWhile_dropWhile_id)
    ultimately show False using l by simp
  qed
qed

lemma blank_trim: "c \<noteq> [] \<Longrightarrow> blank c \<longleftrightarrow> trim c = []"
  by (simp add: blank_def trim_Nil_iff)

text \<open>The simple commands of a line, trimmed.\<close>

function simple_cmds :: "string \<Rightarrow> string list" where
  "simple_cmds c0 =
     (let c = trim c0 in
      if c = [] \<or> c = ''exit'' \<or> take 3 c = ''cd '' then []
      else if last c = CHR ''&'' then simple_cmds (butlast c)
      else if CHR '';'' \<in> set c then simple_cmds (before_char (CHR '';'') c) @ simple_cmds (after_char (CHR '';'') c)
      else if CHR ''|'' \<in> set c then simple_cmds (before_char (CHR ''|'') c) @ simple_cmds (after_char (CHR ''|'') c)
      else [c])"
  by pat_completeness auto
termination
proof (relation "measure length", simp, goal_cases)
  case (1 c0 c)
  then have "length (butlast c) < length c" "length c \<le> length c0" using length_trim by simp_all
  then show ?case by simp
next
  case (2 c0 c)
  then show ?case using parts_shorter(1) [of "CHR '';''" c] length_trim [of c0] by simp
next
  case (3 c0 c)
  then show ?case using parts_shorter(2) [of "CHR '';''" c] length_trim [of c0] by simp
next
  case (4 c0 c)
  then show ?case using parts_shorter(1) [of "CHR ''|''" c] length_trim [of c0] by simp
next
  case (5 c0 c)
  then show ?case using parts_shorter(2) [of "CHR ''|''" c] length_trim [of c0] by simp
qed

declare simple_cmds.simps [simp del]

text \<open>
  How a command can go wrong: an access to an unmapped page, which no part of a longer command makes, or
  words past the end of \<open>argv\<close>.
\<close>

lemma yruncmd_crash:
  "\<not> blank c \<Longrightarrow> (\<And>b. leaves (k b) \<inter> {SFault, SUndef} = {}) \<Longrightarrow>
   SFault \<notin> leaves (yruncmd c k) \<and> (SUndef \<in> leaves (yruncmd c k) \<longleftrightarrow> (\<exists>a \<in> set (simple_cmds c). 16 \<le> length (split_args a)))"
proof (induction c k rule: yruncmd.induct)
  case (1 cmd0 k)
  let ?c = "trim cmd0"
  note IH = "1.IH" [OF _ refl]
  have k: "SFault \<notin> leaves (k b)" "SUndef \<notin> leaves (k b)" for b using "1.prems"(2) [of b] by auto
  show ?case
  proof (cases "cmd0 = [] \<or> ?c = ''exit'' \<or> take 3 ?c = ''cd ''")
    case True
    then have "simple_cmds cmd0 = []" by (subst simple_cmds.simps) (auto simp: trim_def skip_spaces_def)
    then show ?thesis using True k by (auto simp: yruncmd.simps [of cmd0 k] Let_def)
  next
    case False
    then have ne: "cmd0 \<noteq> []" "?c \<noteq> ''exit''" "take 3 ?c \<noteq> ''cd ''" "?c \<noteq> []"
      using "1.prems"(1) blank_trim by auto
    note nb = parts_not_blank [OF ne(4)]
    note eqs = yruncmd.simps [of cmd0 k] simple_cmds.simps [of cmd0] Let_def leaves_ypipe
    consider (bg) "last ?c = CHR ''&''" | (lst) "last ?c \<noteq> CHR ''&''" "CHR '';'' \<in> set ?c"
      | (pip) "last ?c \<noteq> CHR ''&''" "CHR '';'' \<notin> set ?c" "CHR ''|'' \<in> set ?c"
      | (sim) "last ?c \<noteq> CHR ''&''" "CHR '';'' \<notin> set ?c" "CHR ''|'' \<notin> set ?c" by blast
    then show ?thesis
    proof cases
      case bg
      then show ?thesis using IH(1) [OF ne bg nb(1)] ne k by (simp add: eqs)
    next
      case lst
      then show ?thesis using IH(2) [OF ne lst nb(3) [OF lst(2)]] IH(3) [OF ne lst refl nb(2)] ne k
        by (simp add: eqs bex_Un)
    next
      case pip
      then show ?thesis using IH(4) [OF ne pip nb(2)] IH(5) [OF ne pip nb(3) [OF pip(3)]] ne k
        by (simp add: eqs bex_Un)
    next
      case sim
      then show ?thesis using ne k by (simp add: eqs)
    qed
  qed
qed

section \<open>Properties\<close>

text \<open>
  C31. Descriptors of ysh (\<open>main\<close> and \<open>runcmd\<close>, ysh.c). ysh is started with a table that has no descriptor above 2 and reads
  commands of which none has more words than \<open>argv\<close> has room for. Whatever nesting of lists, pipelines and background
  commands they have, whichever of its system calls fail, and in every process that it forks, including those that
  come back into the command loop and those that go on after a failed \<open>pipe\<close>, no program it
  starts has a descriptor above 2 open. When \<open>pipe\<close> does not fail, and ysh was started with 0, 1 and 2 open or \<open>open("console")\<close>
  does not fail, every program has all three of them.
\<close>

theorem ysh_no_fd_leak:
  assumes "dom t \<subseteq> {..<3}" "SUndef \<notin> leaves (ysh_loop inp)" "starts F (ysh_main inp) t (argv, t')"
  shows "dom t' \<subseteq> {..<3} \<and>
    (FPipe \<notin> F \<and> (dom t = {..<3} \<or> FOpen ''console'' \<notin> F) \<longrightarrow> dom t' = {..<3})"
proof -
  let ?x = "FPipe \<notin> F \<and> (dom t = {..<3} \<or> FOpen ''console'' \<notin> F)"
  have "std_fds (dom t = {..<3}) t" using assms(1) by (auto simp: std_fds_def)
  moreover have "3 - card (dom t) < 4" by simp
  ultimately obtain t1 where "starts F (ysh_loop inp) t1 (argv, t')" "std_fds (dom t = {..<3} \<or> FOpen ''console'' \<notin> F) t1"
    using open_console_fds [OF assms(3) [unfolded ysh_main_def]] by (auto simp: starts_print)
  moreover from this(2) have "std_fds ?x t1" by (auto simp: std_fds_def)
  ultimately have "std_fds ?x (snd (argv, t'))" using assms(2) by (intro ysh_loop_fds) auto
  then show ?thesis by (auto simp: std_fds_def)
qed

text \<open>
  C5. Pipelines of ysh: for a line \<open>a | b | ... | z\<close> of plain commands with any spaces around them, run with the
  standard descriptors open and no failing call, \<open>runcmd\<close> starts exactly the stages, each once and with the words of its part as
  arguments. Each two adjacent stages get the two ends of the same new pipe, as the standard output of the first and the
  standard input of the second; no other descriptor differs from the shell's. Then the caller goes on with the shell's table.
\<close>

theorem ysh_pipeline_wiring:
  assumes "list_all plain_stage stages" "stages \<noteq> []" "dom t = {..<3}"
  shows "run_ok (yruncmd (join_stages stages) k) t n
     = (let (es, m) = run_ok (k True) t (n + length stages - 1) in (wire stages t n @ es, m))"
  by (rule run_pipeline [OF assms])

text \<open>
  C37. How \<open>runcmd\<close> (ysh.c) goes wrong, for a caller that does not. It accesses an unmapped page exactly for a command
  of spaces only, where \<open>strlen(cmd)\<close> is 0 and the index \<open>strlen(cmd) - 1\<close> wraps around to 2^32 - 1; no part of a list, pipeline or
  background command does this, though the parts may be empty. It
  overruns \<open>argv\<close>, with undefined behaviour, exactly when one of the simple commands has 16 words or more.
\<close>

theorem ysh_faults_exactly:
  assumes "\<And>b. leaves (k b) \<inter> {SFault, SUndef} = {}"
  shows "(SFault \<in> leaves (yruncmd c k) \<longleftrightarrow> blank c) \<and>
    (SUndef \<in> leaves (yruncmd c k) \<longleftrightarrow> (\<exists>a \<in> set (simple_cmds c). 16 \<le> length (split_args a)))"
proof (cases "blank c")
  case True
  then have "trim c = []" by (simp add: blank_def trim_Nil_iff)
  with True have "yruncmd c k = SFault" "simple_cmds c = []"
    by (subst yruncmd.simps simple_cmds.simps; simp add: blank_def Let_def)+
  then show ?thesis using True by simp
qed (use yruncmd_crash assms in blast)

theorem ysh_faults_exactly_witness:
  "SFault \<notin> leaves (yruncmd ''a ;b&'' (\<lambda>_. SExit 0)) \<and> SUndef \<notin> leaves (yruncmd ''a ;b&'' (\<lambda>_. SExit 0))"
proof -
  have "\<not> blank ''a ;b&''" "simple_cmds ''a ;b&'' = [''a'', ''b'']" "split_args ''a'' = [''a'']" "split_args ''b'' = [''b'']"
    by code_simp+
  then show ?thesis using ysh_faults_exactly [of "\<lambda>_. SExit 0" "''a ;b&''"] by simp
qed

definition std_fdt :: fdt where
  "std_fdt = [0 \<mapsto> OFile ''console'' O_RDWR, 1 \<mapsto> OFile ''console'' O_RDWR, 2 \<mapsto> OFile ''console'' O_RDWR]"

lemma dom_std_fdt: "dom std_fdt = {..<3}"
  by (auto simp: std_fdt_def)

theorem ysh_pipeline_wiring_witness:
  "run_ok (yruncmd (join_stages [''ls '', '' grep  c'', ''wc'']) (\<lambda>_. SExit 0)) std_fdt 5
    = ([([''ls''], std_fdt(1 \<mapsto> PipeW 5)), ([''grep'', [], ''c''], std_fdt(0 \<mapsto> PipeR 5, 1 \<mapsto> PipeW 6)),
        ([''wc''], std_fdt(0 \<mapsto> PipeR 5, 0 \<mapsto> PipeR 6))], 7)"
proof -
  have p: "list_all plain_stage [''ls '', '' grep  c'', ''wc'']" by code_simp
  have "split_args (trim ''ls '') = [''ls'']" "split_args (trim '' grep  c'') = [''grep'', [], ''c'']" "split_args (trim ''wc'') = [''wc'']"
    by code_simp+
  then show ?thesis using ysh_pipeline_wiring [OF p _ dom_std_fdt] by simp
qed

theorem ysh_no_fd_leak_witness:
  "dom (std_fdt(0 \<mapsto> PipeR 5)) = {..<3}"
proof -
  let ?l = "''ls |wc'' @ [CHR 0x0A]"
  have r: "readcmd ?l = Some (''ls |wc'', [])" "readcmd [] = None" by code_simp+
  have p: "list_all plain_stage [''ls '', ''wc'']" and j: "join_stages [''ls '', ''wc''] = ''ls |wc''" by code_simp+
  have w: "split_args (trim ''wc'') = [''wc'']" by code_simp
  have eq: "yruncmd ''ls |wc'' k = SFork (ypipe (yruncmd ''ls '' (\<lambda>_. SExit 0)) (yruncmd ''wc'' (\<lambda>_. SExit 0))) (SWait (k True)) (SWait (k True))" for k
    using yruncmd_pipeline [OF p, of k] unfolding j by simp
  have st: "yruncmd ''ls '' k = SFork (SExec (split_args (trim ''ls '')) (SWait (k True))) (SWait (k True)) (SWait (k True))"
    "yruncmd ''wc'' k = SFork (SExec (split_args (trim ''wc'')) (SWait (k True))) (SWait (k True)) (SWait (k True))" for k
    using p by (auto intro!: yruncmd_stage)
  have e: "ysh_loop [] = SWrite 1 ''$ '' SFault" by (subst ysh_loop.simps) (simp add: r(2))
  have nu: "SUndef \<notin> leaves (ysh_loop ?l)"
    by (subst ysh_loop.simps, unfold r(1)) (simp add: eq leaves_ypipe st e)
  have s: "std_fds True std_fdt" by (simp add: std_fds_def dom_std_fdt)
  have t: "std_fdt j = None \<longleftrightarrow> 3 \<le> j" for j by (metis dom_std_fdt domIff lessThan_iff not_le)
  have a: "fdalloc std_fdt = Some 3" "fdalloc (std_fdt(3 \<mapsto> PipeR 5)) = Some 4"
    "fdalloc (std_fdt(3 \<mapsto> PipeR 5, 4 \<mapsto> PipeW 5, 0 := None)) = Some 0"
    by (rule fdalloc_lowest; auto simp: t simp del: not_None_eq)+
  have u: "std_fdt(3 \<mapsto> PipeR 5, 4 \<mapsto> PipeW 5, 0 := None, 0 \<mapsto> PipeR 5, 3 := None, 4 := None) = std_fdt(0 \<mapsto> PipeR 5)"
    using t [of 3] t [of 4] by (auto simp: fun_eq_iff)
  have "starts {} (ypipe (yruncmd ''ls '' (\<lambda>_. SExit 0)) (yruncmd ''wc'' (\<lambda>_. SExit 0))) std_fdt ([''wc''], std_fdt(0 \<mapsto> PipeR 5))"
    unfolding ypipe_def Let_def
    by (rule pipe_ok [where n = 5, OF a(1,2)], rule fork_parent, rule close, rule dup_ok [OF _ a(3)], simp, rule close, rule close,
        unfold u st w, rule fork_child, rule exec_ok)
  then have "starts {} (ysh_loop ?l) std_fdt ([''wc''], std_fdt(0 \<mapsto> PipeR 5))"
    by (subst ysh_loop.simps, unfold r(1)) (simp add: eq starts_print starts_fork)
  then have "starts {} (SClose 3 (SWrite 1 (''EEE3535 Operating Systems: starting ysh'' @ [CHR 0x0A]) (ysh_loop ?l)))
      (std_fdt(3 \<mapsto> OFile ''console'' O_RDWR)) ([''wc''], std_fdt(0 \<mapsto> PipeR 5))"
    using t [of 3] by (intro close print) (simp add: fun_upd_idem)
  then have "starts {} (ysh_main ?l) std_fdt ([''wc''], std_fdt(0 \<mapsto> PipeR 5))"
    unfolding ysh_main_def numeral_eq_Suc pred_numeral_simps open_console.simps
    by (intro open_ok [OF a(1)]) (simp add: numeral_eq_Suc)
  from ysh_no_fd_leak [OF _ nu this] show ?thesis by (simp add: dom_std_fdt)
qed

end
