(* ===== verification/UserMem.thy ===== *)
theory UserMem
  imports Uvm
begin

text \<open>
  Copying between the kernel and user memory: what \<open>copyin\<close>, \<open>copyout\<close> and \<open>copyinstr\<close> of
  kernel/vm.c do in terms of the bytes that a user address stands for.
\<close>

section \<open>User bytes\<close>

definition user_byte :: "memory \<Rightarrow> uint64 \<Rightarrow> uint64 \<Rightarrow> uchar option" where
  "user_byte m pt va =
     (let pa = user_pa m pt va in if pa = 0 then None else Some (m (pa + (va - PGROUNDDOWN va))))"

lemma page_offset_chunk:
  assumes "i < chunk va n"
  shows "unat (va - PGROUNDDOWN va) + i < 4096" "i < n"
  using assms PGROUNDDOWN_diff [of va] by (auto simp: chunk_def Let_def split: if_splits)

lemma in_page_offset:
  assumes "unat (va - PGROUNDDOWN va) + i < 4096"
  shows "PGROUNDDOWN (va + of_nat i) = PGROUNDDOWN va"
proof -
  have "va + of_nat i = PGROUNDDOWN va + of_nat (unat (va - PGROUNDDOWN va) + i)" by simp
  then show ?thesis using PGROUNDDOWN_offset [OF page_aligned_PGROUNDDOWN assms, of va] by simp
qed

lemma user_byte_page:
  assumes "unat (va - PGROUNDDOWN va) + i < 4096" "user_pa m pt (PGROUNDDOWN va) \<noteq> 0"
  shows "user_byte m pt (va + of_nat i) = Some (m (user_pa m pt (PGROUNDDOWN va) + (va - PGROUNDDOWN va) + of_nat i))"
proof -
  have "user_pa m pt (va + of_nat i) = user_pa m pt (PGROUNDDOWN va)"
    using user_pa_page [of m pt "va + of_nat i"] in_page_offset [OF assms(1)] by simp
  then show ?thesis
    using assms in_page_offset [OF assms(1)] by (simp add: user_byte_def Let_def algebra_simps)
qed

lemma user_byte_None: "user_byte m pt va = None \<longleftrightarrow> user_pa m pt (PGROUNDDOWN va) = 0"
  using user_pa_page [of m pt va] by (simp add: user_byte_def Let_def)

lemma next_page:
  assumes "chunk va n < n"
  shows "PGROUNDDOWN va + PGSIZE = va + of_nat (chunk va n)"
proof -
  have c: "chunk va n = 4096 - unat (va - PGROUNDDOWN va)"
    using assms by (auto simp: chunk_def Let_def split: if_splits)
  have "of_nat (unat (va - PGROUNDDOWN va)) + of_nat (4096 - unat (va - PGROUNDDOWN va)) = (4096 :: uint64)"
    using PGROUNDDOWN_diff [of va] by (simp flip: of_nat_add)
  then have "(va - PGROUNDDOWN va) + of_nat (chunk va n) = 4096" unfolding c by simp
  then show ?thesis by (metis add.assoc diff_add_cancel add.commute)
qed

section \<open>Reading user memory\<close>

definition reads_user :: "memory \<Rightarrow> uint64 \<Rightarrow> uint64 \<Rightarrow> nat \<Rightarrow> nat \<Rightarrow> uchar list \<Rightarrow> bool" where
  "reads_user m pt va n k bs \<longleftrightarrow> k \<le> n \<and> length bs = k \<and>
     (\<forall>i<k. user_byte m pt (va + of_nat i) = Some (bs ! i)) \<and>
     (k < n \<longrightarrow> user_byte m pt (va + of_nat k) = None)"

lemma reads_user_append:
  assumes "length as = c" "\<And>i. i < c \<Longrightarrow> user_byte m pt (va + of_nat i) = Some (as ! i)"
    and "reads_user m pt (va + of_nat c) n k bs"
  shows "reads_user m pt va (c + n) (c + k) (as @ bs)"
proof -
  have "user_byte m pt (va + of_nat i) = Some ((as @ bs) ! i)" if i: "i < c + k" for i
  proof (cases "i < c")
    case True
    then show ?thesis using assms by (simp add: nth_append)
  next
    case False
    have e: "va + of_nat c + of_nat (i - c) = va + of_nat i"
      using False by (metis add.assoc le_add_diff_inverse not_less of_nat_add)
    have "\<forall>j<k. user_byte m pt (va + of_nat c + of_nat j) = Some (bs ! j)"
      using assms(3) by (simp add: reads_user_def)
    moreover have "i - c < k" using i False by simp
    ultimately have "user_byte m pt (va + of_nat c + of_nat (i - c)) = Some (bs ! (i - c))" by blast
    then show ?thesis using False assms(1) by (simp add: nth_append e)
  qed
  then show ?thesis using assms by (auto simp: reads_user_def add.assoc)
qed

lemma copyin_reads:
  "pt_wf (mem s) pt \<Longrightarrow>
   \<exists>k bs. copyin pt va n s = Ret (if k = n then 0 else -1, bs) s \<and> reads_user (mem s) pt va n k bs"
proof (induction pt va n s rule: copyin.induct)
  case (1 pt va n s)
  show ?case
  proof (cases "n = 0")
    case True
    then show ?thesis by (subst copyin.simps) (auto simp: reads_user_def)
  next
    case False
    let ?pa = "user_pa (mem s) pt (PGROUNDDOWN va)"
    have wa: "walkaddr pt (PGROUNDDOWN va) s = Ret ?pa s" using "1.prems" by (rule walkaddr_user_pa)
    show ?thesis
    proof (cases "?pa = 0")
      case True
      then have "reads_user (mem s) pt va n 0 []" by (auto simp: reads_user_def user_byte_None)
      then show ?thesis using False wa True by (intro exI [of _ 0] exI [of _ "[]"]) (subst copyin.simps, simp add: Let_def)
    next
      case pa: False
      let ?c = "chunk va n" let ?as = "load_bytes (mem s) (?pa + (va - PGROUNDDOWN va)) ?c"
      have as: "user_byte (mem s) pt (va + of_nat i) = Some (?as ! i)" if "i < ?c" for i
        using user_byte_page [OF page_offset_chunk(1) [OF that] pa] that by simp
      have le: "?c \<le> n" by (simp add: chunk_def Let_def)
      obtain k bs where ih: "copyin pt (PGROUNDDOWN va + PGSIZE) (n - ?c) s = Ret (if k = n - ?c then 0 else -1, bs) s"
        and r: "reads_user (mem s) pt (PGROUNDDOWN va + PGSIZE) (n - ?c) k bs"
        using "1.IH" [OF _ refl wa pa refl "1.prems"] False by auto
      have "reads_user (mem s) pt (va + of_nat ?c) (n - ?c) k bs"
      proof (cases "?c < n")
        case True
        then show ?thesis using r next_page [OF True] by simp
      next
        case f: False
        then have "n - ?c = 0" by simp
        then show ?thesis using r by (auto simp: reads_user_def)
      qed
      then have "reads_user (mem s) pt va n (?c + k) (?as @ bs)"
        using reads_user_append [OF _ as] le by (metis length_load_bytes le_add_diff_inverse)
      moreover have "copyin pt va n s = Ret (if ?c + k = n then 0 else -1, ?as @ bs) s"
        using False wa pa ih le by (subst copyin.simps) (auto simp: Let_def)
      ultimately show ?thesis by blast
    qed
  qed
qed

section \<open>Writing user memory\<close>

text \<open>
  A user map: a well-formed table in which no node page is a user page and no physical page
  stands for two user pages.
\<close>

definition user_map :: "memory \<Rightarrow> uint64 \<Rightarrow> bool" where
  "user_map m pt \<longleftrightarrow> pt_wf m pt \<and> (\<forall>va. user_pa m pt va \<notin> nodes m pt) \<and>
     (\<forall>va vb. user_pa m pt va \<noteq> 0 \<longrightarrow> user_pa m pt va = user_pa m pt vb \<longrightarrow> PGROUNDDOWN va = PGROUNDDOWN vb)"

definition writes_user :: "memory \<Rightarrow> uint64 \<Rightarrow> uint64 \<Rightarrow> nat \<Rightarrow> uchar list \<Rightarrow> memory \<Rightarrow> bool" where
  "writes_user m pt va k bs m' \<longleftrightarrow>
     (\<forall>vb. user_pa m' pt vb = user_pa m pt vb) \<and>
     (\<forall>vb. user_byte m' pt vb =
        (if unat (vb - va) < k then Some (bs ! unat (vb - va)) else user_byte m pt vb)) \<and>
     (\<forall>x. m' x \<noteq> m x \<longrightarrow> (\<exists>vb. unat (vb - va) < k \<and> user_pa m pt vb = PGROUNDDOWN x \<and> user_pa m pt vb \<noteq> 0))"

lemma page_aligned_user_pa: "page_aligned (user_pa m pt va)"
  by (simp add: user_pa_def Let_def) (simp add: page_aligned_unat)

lemma user_map_frame:
  assumes "user_map m pt" "\<And>x. PGROUNDDOWN x \<in> nodes m pt \<Longrightarrow> m' x = m x"
  shows "user_map m' pt" "user_pa m' pt va = user_pa m pt va" "nodes m' pt = nodes m pt"
proof -
  have wf: "pt_wf m pt" using assms(1) by (simp add: user_map_def)
  have w: "pt_wf m' pt" by (rule pt_frame(1) [OF wf assms(2)])
  show n: "nodes m' pt = nodes m pt" by (rule pt_frame(2) [OF wf assms(2)])
  have e: "pte_of m' pt va = pte_of m pt va" for va by (rule pt_frame(4) [OF wf assms(2)])
  show p: "user_pa m' pt va = user_pa m pt va" for va by (simp add: user_pa_def e)
  show "user_map m' pt" using assms(1) w unfolding user_map_def p n by blast
qed

text \<open>One pass of the loop of \<open>copyout\<close>: bytes stored within one page.\<close>

lemma store_user_page:
  assumes um: "user_map m pt" and pa: "pa = user_pa m pt (PGROUNDDOWN va)" "pa \<noteq> 0"
    and c: "unat (va - PGROUNDDOWN va) + length bs \<le> 4096"
    and m': "m' = store_bytes m (pa + (va - PGROUNDDOWN va)) bs"
  shows "user_map m' pt" "writes_user m pt va (length bs) bs m'" "nodes m' pt = nodes m pt"
proof -
  let ?off = "va - PGROUNDDOWN va"
  have pal: "page_aligned pa" unfolding pa(1) by (rule page_aligned_user_pa)
  have small: "length bs \<le> 4096" using c by simp
  have app: "m' x = (if unat (x - (pa + ?off)) < length bs then bs ! unat (x - (pa + ?off)) else m x)" for x
    unfolding m' using small by (simp add: store_bytes_apply)
  have inpa: "PGROUNDDOWN x = pa" if "unat (x - (pa + ?off)) < length bs" for x
  proof -
    have "x = pa + of_nat (unat ?off + unat (x - (pa + ?off)))" by simp
    then show ?thesis using PGROUNDDOWN_offset [OF pal, of "unat ?off + unat (x - (pa + ?off))"] that c by simp
  qed
  have nn: "pa \<notin> nodes m pt" using um pa(1) by (simp add: user_map_def)
  have fr: "m' x = m x" if "PGROUNDDOWN x \<in> nodes m pt" for x
    using that inpa [of x] nn by (auto simp: app)
  note uf = user_map_frame [OF um fr]
  show "user_map m' pt" by (rule uf(1))
  show "nodes m' pt = nodes m pt" by (rule uf(3))
  have here: "user_pa m pt vb = pa \<and> pa + (vb - PGROUNDDOWN vb) - (pa + ?off) = vb - va"
    if "unat (vb - va) < length bs" for vb
  proof -
    have "PGROUNDDOWN (va + of_nat (unat (vb - va))) = PGROUNDDOWN va"
      by (rule in_page_offset) (use that c in simp)
    then have "PGROUNDDOWN vb = PGROUNDDOWN va" by simp
    then show ?thesis using user_pa_page [of m pt vb] pa(1) by simp
  qed
  have other: "m' (user_pa m pt vb + (vb - PGROUNDDOWN vb)) = m (user_pa m pt vb + (vb - PGROUNDDOWN vb))"
    if "\<not> unat (vb - va) < length bs" "user_pa m pt vb \<noteq> 0" for vb
  proof (rule ccontr)
    let ?a = "user_pa m pt vb + (vb - PGROUNDDOWN vb)"
    assume "m' ?a \<noteq> m ?a"
    then have lt: "unat (?a - (pa + ?off)) < length bs" by (simp add: app split: if_splits)
    have "PGROUNDDOWN ?a = user_pa m pt vb"
      using PGROUNDDOWN_offset [OF page_aligned_user_pa [of m pt vb], of "unat (vb - PGROUNDDOWN vb)"]
        PGROUNDDOWN_diff [of vb] by simp
    then have e: "user_pa m pt vb = pa" using inpa [OF lt] by simp
    then have "PGROUNDDOWN vb = PGROUNDDOWN va"
      using um that(2) pa(1) user_pa_page [of m pt va] unfolding user_map_def by metis
    then show False using lt that(1) e by simp
  qed
  have "\<exists>vb. unat (vb - va) < length bs \<and> user_pa m pt vb = PGROUNDDOWN x \<and> user_pa m pt vb \<noteq> 0"
    if "m' x \<noteq> m x" for x
  proof -
    have lt: "unat (x - (pa + ?off)) < length bs" using that by (simp add: app split: if_splits)
    obtain vb where vb: "vb - va = x - (pa + ?off)" by (metis add_diff_cancel_left')
    have lv: "unat (vb - va) < length bs" unfolding vb by (rule lt)
    show ?thesis by (rule exI [of _ vb]) (use inpa [OF lt] conjunct1 [OF here [OF lv]] pa(2) lv in simp)
  qed
  moreover have "user_byte m' pt vb =
      (if unat (vb - va) < length bs then Some (bs ! unat (vb - va)) else user_byte m pt vb)" for vb
    using here [of vb] other [of vb] pa(2) by (simp add: user_byte_def Let_def uf(2) app)
  ultimately show "writes_user m pt va (length bs) bs m'" by (simp add: writes_user_def uf(2))
qed

lemma writes_user_0: "writes_user m pt va 0 bs m"
  unfolding writes_user_def by auto

lemma diff_append:
  fixes va :: uint64
  assumes "c + k < 2 ^ 64"
  shows "unat (vb - va) < c + k \<longleftrightarrow> unat (vb - va) < c \<or> unat (vb - (va + of_nat c)) < k"
    "\<not> unat (vb - va) < c \<Longrightarrow> unat (vb - va) < c + k \<Longrightarrow> unat (vb - (va + of_nat c)) = unat (vb - va) - c"
    "unat (vb - va) < c \<Longrightarrow> \<not> unat (vb - (va + of_nat c)) < k"
proof -
  define d where "d = vb - va"
  have dc: "vb - (va + of_nat c) = d - of_nat c" by (simp add: d_def)
  have u: "unat (of_nat c :: uint64) = c" using assms by (simp add: unat_of_nat take_bit_nat_eq_self_iff)
  have ge: "unat (d - of_nat c) = unat d - c" if "c \<le> unat d"
    using that u by (simp add: unat_sub word_le_nat_alt)
  have lt: "\<not> unat (d - of_nat c) < k" if "unat d < c"
  proof -
    have "unat (d - of_nat c) = unat d + 2 ^ 64 - c"
      using that u unat_sub_if' [of d "of_nat c"] by (simp add: not_le word_le_nat_alt word_less_nat_alt)
    then show ?thesis using assms by linarith
  qed
  show "unat (vb - va) < c + k \<longleftrightarrow> unat (vb - va) < c \<or> unat (vb - (va + of_nat c)) < k"
    unfolding dc unfolding d_def [symmetric] using ge lt by (cases "c \<le> unat d") auto
  show "\<not> unat (vb - va) < c \<Longrightarrow> unat (vb - va) < c + k \<Longrightarrow> unat (vb - (va + of_nat c)) = unat (vb - va) - c"
    unfolding dc unfolding d_def [symmetric] using ge by simp
  show "unat (vb - va) < c \<Longrightarrow> \<not> unat (vb - (va + of_nat c)) < k"
    unfolding dc unfolding d_def [symmetric] by (rule lt)
qed

lemma writes_user_append:
  assumes "writes_user m pt va c as m1" "writes_user m1 pt (va + of_nat c) k bs m2"
    "length as = c" "c + k < 2 ^ 64"
  shows "writes_user m pt va (c + k) (as @ bs) m2"
proof -
  note d = diff_append [OF assms(4)]
  have p: "user_pa m1 pt vb = user_pa m pt vb" "user_pa m2 pt vb = user_pa m pt vb" for vb
    using assms(1,2) by (simp_all add: writes_user_def)
  have b: "user_byte m1 pt vb = (if unat (vb - va) < c then Some (as ! unat (vb - va)) else user_byte m pt vb)"
    "user_byte m2 pt vb = (if unat (vb - (va + of_nat c)) < k then Some (bs ! unat (vb - (va + of_nat c)))
       else user_byte m1 pt vb)" for vb
    using assms(1,2) by (simp_all add: writes_user_def)
  show ?thesis unfolding writes_user_def
  proof (intro conjI allI impI)
    fix vb
    show "user_byte m2 pt vb =
      (if unat (vb - va) < c + k then Some ((as @ bs) ! unat (vb - va)) else user_byte m pt vb)"
    proof (cases "unat (vb - va) < c")
      case True
      then show ?thesis using d(3) [OF True] by (simp add: b nth_append assms(3))
    next
      case False
      then show ?thesis using d(1) [of vb va] d(2) [OF False] by (simp add: b nth_append assms(3))
    qed
  next
    fix x assume "m2 x \<noteq> m x"
    then consider "m2 x \<noteq> m1 x" | "m1 x \<noteq> m x" by metis
    then show "\<exists>vb. unat (vb - va) < c + k \<and> user_pa m pt vb = PGROUNDDOWN x \<and> user_pa m pt vb \<noteq> 0"
    proof cases
      case 1
      then obtain vb where "unat (vb - (va + of_nat c)) < k" "user_pa m1 pt vb = PGROUNDDOWN x" "user_pa m1 pt vb \<noteq> 0"
        using assms(2) by (auto simp: writes_user_def)
      then show ?thesis using d(1) p by auto
    next
      case 2
      then obtain vb where "unat (vb - va) < c" "user_pa m pt vb = PGROUNDDOWN x" "user_pa m pt vb \<noteq> 0"
        using assms(1) by (auto simp: writes_user_def)
      then show ?thesis by (intro exI [of _ vb]) simp
    qed
  qed (rule p)
qed

text \<open>What \<open>copyout\<close> leaves: the first \<open>k\<close> of the bytes are written, all of them or up to an unmapped page.\<close>

definition copyout_post :: "uint64 \<Rightarrow> uint64 \<Rightarrow> uchar list \<Rightarrow> memory \<Rightarrow> nat \<Rightarrow> memory \<Rightarrow> bool" where
  "copyout_post pt va bs m k m' \<longleftrightarrow> k \<le> length bs \<and> user_map m' pt \<and> nodes m' pt = nodes m pt
     \<and> writes_user m pt va k bs m' \<and> (k < length bs \<longrightarrow> user_byte m pt (va + of_nat k) = None)"

lemma copyout_post_step:
  assumes um: "user_map m pt" and pa: "pa = user_pa m pt (PGROUNDDOWN va)" "pa \<noteq> 0"
    and c: "c = chunk va (length bs)" and len: "length bs < 2 ^ 64"
    and m1: "m1 = store_bytes m (pa + (va - PGROUNDDOWN va)) (take c bs)"
    and post: "copyout_post pt (PGROUNDDOWN va + PGSIZE) (drop c bs) m1 k m2"
  shows "user_map m1 pt \<Longrightarrow> copyout_post pt va bs m (c + k) m2"
proof -
  have le: "c \<le> length bs" "length (take c bs) = c" by (simp_all add: c chunk_def Let_def)
  have off: "unat (va - PGROUNDDOWN va) + length (take c bs) \<le> 4096"
    using PGROUNDDOWN_diff [of va] by (auto simp: c chunk_def Let_def)
  have w1: "writes_user m pt va c (take c bs) m1" and n1: "nodes m1 pt = nodes m pt"
    using store_user_page(2,3) [OF um pa off m1] le by simp_all
  have k: "k \<le> length bs - c" using post by (simp add: copyout_post_def)
  have w2: "writes_user m1 pt (va + of_nat c) k (drop c bs) m2"
  proof (cases "c < length bs")
    case True
    then show ?thesis using post next_page [of va "length bs"] c by (simp add: copyout_post_def)
  next
    case False
    then have "k = 0" using k by simp
    then show ?thesis using post by (simp add: copyout_post_def writes_user_def)
  qed
  have "writes_user m pt va (c + k) (take c bs @ drop c bs) m2"
    by (rule writes_user_append [OF w1 w2]) (use le k len in simp_all)
  moreover have "user_byte m pt (va + of_nat (c + k)) = None" if "c + k < length bs"
  proof -
    have "user_byte m1 pt (va + of_nat c + of_nat k) = None"
      using that post next_page [of va "length bs"] c by (simp add: copyout_post_def)
    then show ?thesis using w1 by (auto simp: writes_user_def add.assoc split: if_splits)
  qed
  ultimately show ?thesis using post k le n1 by (auto simp: copyout_post_def)
qed

lemma copyout_writes:
  "user_map (mem s) pt \<Longrightarrow> length bs < 2 ^ 64 \<Longrightarrow>
   \<exists>k m'. copyout pt va bs s = Ret (if k = length bs then 0 else -1) (s\<lparr>mem := m'\<rparr>)
     \<and> copyout_post pt va bs (mem s) k m'"
proof (induction pt va bs s rule: copyout.induct)
  case (1 pt va bs s)
  have wf: "pt_wf (mem s) pt" using "1.prems"(1) by (simp add: user_map_def)
  let ?pa = "user_pa (mem s) pt (PGROUNDDOWN va)"
  have wa: "walkaddr pt (PGROUNDDOWN va) s = Ret ?pa s" using wf by (rule walkaddr_user_pa)
  show ?case
  proof (cases "bs = [] \<or> ?pa = 0")
    case True
    have "copyout_post pt va bs (mem s) 0 (mem s)"
      using True "1.prems"(1) by (auto simp: copyout_post_def writes_user_0 user_byte_None)
    moreover have "copyout pt va bs s = Ret (if 0 = length bs then 0 else -1) (s\<lparr>mem := mem s\<rparr>)"
      using True wa by (subst copyout.simps) (auto simp: Let_def)
    ultimately show ?thesis by blast
  next
    case False
    let ?c = "chunk va (length bs)"
    let ?m = "store_bytes (mem s) (?pa + (va - PGROUNDDOWN va)) (take ?c bs)"
    have ne: "0 < length bs" and pa: "?pa \<noteq> 0" using False by auto
    have off: "unat (va - PGROUNDDOWN va) + length (take ?c bs) \<le> 4096"
      using PGROUNDDOWN_diff [of va] by (auto simp: chunk_def Let_def)
    have um: "user_map ?m pt" by (rule store_user_page(1) [OF "1.prems"(1) refl pa off refl])
    have len: "length (drop ?c bs) < 2 ^ 64" using "1.prems"(2) less_imp_diff_less by simp
    obtain k m' where ih: "copyout pt (PGROUNDDOWN va + PGSIZE) (drop ?c bs) (s\<lparr>mem := ?m\<rparr>)
        = Ret (if k = length (drop ?c bs) then 0 else -1) (s\<lparr>mem := m'\<rparr>)"
      and post: "copyout_post pt (PGROUNDDOWN va + PGSIZE) (drop ?c bs) ?m k m'"
      using "1.IH" [OF ne refl wa pa refl _ len] um by auto
    have "copyout pt va bs s = Ret (if ?c + k = length bs then 0 else -1) (s\<lparr>mem := m'\<rparr>)"
    proof -
      have "?c \<le> length bs" by (simp add: chunk_def Let_def)
      then have "(k = length (drop ?c bs)) = (?c + k = length bs)" by auto
      then show ?thesis using ne wa pa ih by (subst copyout.simps) (simp add: Let_def)
    qed
    moreover have "copyout_post pt va bs (mem s) (?c + k) m'"
      by (rule copyout_post_step [OF "1.prems"(1) refl pa refl "1.prems"(2) refl post um])
    ultimately show ?thesis by blast
  qed
qed

section \<open>A table of two user pages\<close>

text \<open>The pages 0 and 1 of user memory at 0x80025000 and 0x80027000, for the witnesses.\<close>

definition demo_mem :: memory where
  "demo_mem =
     store64 (store64 (store64 (store64 (\<lambda>_. 0)
       (slot 0x80022000 0) (PA2PTE 0x80023000 OR PTE_V))
       (slot 0x80023000 0) (PA2PTE 0x80024000 OR PTE_V))
       (slot 0x80024000 0) (PA2PTE 0x80025000 OR 0x17))
       (slot 0x80024000 1) (PA2PTE 0x80027000 OR 0x17)"

lemma demo_aligned [simp]:
  "page_aligned 0x80022000" "page_aligned 0x80023000" "page_aligned 0x80024000"
  by (simp_all add: page_aligned_unat)

lemma demo_entries:
  assumes "i < 512"
  shows "load64 demo_mem (slot 0x80022000 i) = (if i = 0 then 0x20008C01 else 0)"
    "load64 demo_mem (slot 0x80023000 i) = (if i = 0 then 0x20009001 else 0)"
    "load64 demo_mem (slot 0x80024000 i) = (if i = 0 then 0x20009417 else if i = 1 then 0x20009C17 else 0)"
proof -
  have z: "load64 (\<lambda>_. 0) (slot q i) = 0" for q
    using le_word_zeros [of 8] by (simp add: load64_def load_bytes_def map_replicate_const)
  show "load64 demo_mem (slot 0x80022000 i) = (if i = 0 then 0x20008C01 else 0)"
    "load64 demo_mem (slot 0x80023000 i) = (if i = 0 then 0x20009001 else 0)"
    "load64 demo_mem (slot 0x80024000 i) = (if i = 0 then 0x20009417 else if i = 1 then 0x20009C17 else 0)"
    unfolding demo_mem_def using assms
    by (simp_all add: load64_store64_slot z PA2PTE_def del: slot_0)
qed

lemma demo_nodes:
  assumes "ipath is"
  shows "node_at demo_mem 0x80022000 is =
    (if is = [] then Some 0x80022000 else if is = [0] then Some 0x80023000
     else if is = [0, 0] then Some 0x80024000 else None)"
proof -
  consider "is = []" | i where "is = [i]" "i < 512" | i j where "is = [i, j]" "i < 512" "j < 512"
    using assms by (auto simp: ipath_def numeral_2_eq_2 le_Suc_eq length_Suc_conv)
  then show ?thesis
    by cases (simp_all add: demo_entries pte_valid_def PTE2PA_def del: slot_0)
qed

lemma demo_user_pa:
  "user_pa demo_mem 0x80022000 va =
    (if va < MAXVA \<and> vpath va = [0, 0] \<and> PX 0 va = 0 then 0x80025000
     else if va < MAXVA \<and> vpath va = [0, 0] \<and> PX 0 va = 1 then 0x80027000 else 0)"
proof -
  have "pte_of demo_mem 0x80022000 va =
    (if vpath va = [0, 0] then if PX 0 va = 0 then 0x20009417 else if PX 0 va = 1 then 0x20009C17 else 0 else 0)"
    using ipath_vpath(1) [of va] PX_bound [of 0 va]
    by (auto simp: pte_of_def pte_at_def demo_nodes demo_entries word_unat_eq_iff simp del: slot_0) (simp_all add: vpath_def)
  then show ?thesis by (simp add: user_pa_def PTE2PA_def)
qed

lemma demo_user_map: "user_map demo_mem 0x80022000"
proof -
  have n: "nodes demo_mem 0x80022000 = {0x80022000, 0x80023000, 0x80024000}" (is "_ = ?N")
  proof -
    have "x \<in> ?N" if "ipath is" "node_at demo_mem 0x80022000 is = Some x" for "is" x
      using that by (auto simp: demo_nodes split: if_splits)
    then have "nodes demo_mem 0x80022000 \<subseteq> ?N" unfolding nodes_def by blast
    moreover have "?N \<subseteq> nodes demo_mem 0x80022000"
      using nodesI [of "[0]" demo_mem] nodesI [of "[0, 0]" demo_mem] demo_nodes [of "[0]"] demo_nodes [of "[0, 0]"]
      by (simp add: ipath_def)
    ultimately show ?thesis by blast
  qed
  have "pt_wf demo_mem 0x80022000" unfolding pt_wf_def n by (auto simp: demo_nodes split: if_splits)
  moreover have "PGROUNDDOWN va = PGROUNDDOWN vb"
    if "user_pa demo_mem 0x80022000 va \<noteq> 0" "user_pa demo_mem 0x80022000 va = user_pa demo_mem 0x80022000 vb" for va vb
    using that vpath_inject [of va vb] by (auto simp: demo_user_pa split: if_splits)
  moreover have "user_pa demo_mem 0x80022000 va \<notin> nodes demo_mem 0x80022000" for va
    unfolding n by (simp add: demo_user_pa)
  ultimately show ?thesis unfolding user_map_def by blast
qed

section \<open>Properties\<close>

lemma copyin_of_bytes:
  assumes "pt_wf (mem s) pt" "\<And>i. i < length bs \<Longrightarrow> user_byte (mem s) pt (va + of_nat i) = Some (bs ! i)"
  shows "copyin pt va (length bs) s = Ret (0, bs) s"
proof -
  obtain k cs where c: "copyin pt va (length bs) s = Ret (if k = length bs then 0 else -1, cs) s"
    and r: "reads_user (mem s) pt va (length bs) k cs"
    using copyin_reads [OF assms(1)] by blast
  have "k = length bs"
    using r assms(2) [of k] by (cases "k < length bs") (simp_all add: reads_user_def)
  moreover from this have "cs = bs"
    using r assms(2) by (intro nth_equalityI) (auto simp: reads_user_def)
  ultimately show ?thesis using c by simp
qed

text \<open>
  C13. \<open>copyout\<close> followed by \<open>copyin\<close> (vm.c). On a page table whose user pages are distinct
  and are not nodes of the table, \<open>copyout\<close> never panics and returns 0 or -1. When it returns 0,
  \<open>copyin\<close> at the same address gives the written bytes back, also across page boundaries.
  When it returns -1 a byte of the range is not mapped for user code. In both cases no user byte
  outside the range and no memory outside the user pages of the range changes.
\<close>

theorem copyout_then_copyin:
  assumes "user_map (mem s) pt" "length bs < 2 ^ 64"
  shows "\<exists>r m'. copyout pt va bs s = Ret r (s\<lparr>mem := m'\<rparr>) \<and>
    (if \<forall>i<length bs. user_byte (mem s) pt (va + of_nat i) \<noteq> None
     then r = 0 \<and> copyin pt va (length bs) (s\<lparr>mem := m'\<rparr>) = Ret (0, bs) (s\<lparr>mem := m'\<rparr>)
     else r = -1) \<and>
    (\<forall>vb. length bs \<le> unat (vb - va) \<longrightarrow> user_byte m' pt vb = user_byte (mem s) pt vb) \<and>
    (\<forall>x. m' x \<noteq> mem s x \<longrightarrow>
      (\<exists>vb. unat (vb - va) < length bs \<and> user_pa (mem s) pt vb = PGROUNDDOWN x \<and> PGROUNDDOWN x \<noteq> 0))"
proof -
  obtain k m' where c: "copyout pt va bs s = Ret (if k = length bs then 0 else -1) (s\<lparr>mem := m'\<rparr>)"
    and p: "copyout_post pt va bs (mem s) k m'"
    using copyout_writes [OF assms] by blast
  have w: "writes_user (mem s) pt va k bs m'" and k: "k \<le> length bs" and wf: "pt_wf m' pt"
    using p by (simp_all add: copyout_post_def user_map_def)
  have u: "unat (of_nat i :: uint64) = i" if "i < length bs" for i
    using that assms(2) by (simp add: unat_of_nat take_bit_nat_eq_self_iff)
  have b: "user_byte m' pt (va + of_nat i) = (if i < k then Some (bs ! i) else user_byte (mem s) pt (va + of_nat i))"
    if "i < length bs" for i
    using w u [OF that] by (simp add: writes_user_def)
  have mapped: "(\<forall>i<length bs. user_byte (mem s) pt (va + of_nat i) \<noteq> None) = (k = length bs)"
  proof
    assume "\<forall>i<length bs. user_byte (mem s) pt (va + of_nat i) \<noteq> None"
    then have "\<not> k < length bs" using p by (auto simp: copyout_post_def)
    then show "k = length bs" using k by simp
  next
    have same: "user_byte m' pt vb = None \<longleftrightarrow> user_byte (mem s) pt vb = None" for vb
      using w unfolding writes_user_def user_byte_None by simp
    assume "k = length bs"
    then show "\<forall>i<length bs. user_byte (mem s) pt (va + of_nat i) \<noteq> None"
      using b same by (metis option.discI)
  qed
  have "copyin pt va (length bs) (s\<lparr>mem := m'\<rparr>) = Ret (0, bs) (s\<lparr>mem := m'\<rparr>)" if "k = length bs"
    using wf b that by (intro copyin_of_bytes) simp_all
  moreover have "user_byte m' pt vb = user_byte (mem s) pt vb" if "length bs \<le> unat (vb - va)" for vb
    using w k that by (simp add: writes_user_def)
  moreover have "\<exists>vb. unat (vb - va) < length bs \<and> user_pa (mem s) pt vb = PGROUNDDOWN x \<and> PGROUNDDOWN x \<noteq> 0"
    if "m' x \<noteq> mem s x" for x
    using w that k unfolding writes_user_def by (metis order_less_le_trans)
  ultimately show ?thesis using c unfolding mapped
    by (intro exI [of _ "if k = length bs then 0 else -1"] exI [of _ m']) simp
qed

definition demo_state :: kmem where
  "demo_state = \<lparr>mem = demo_mem, kout = [], freelist = 0, kend = 0x80022000\<rparr>"

theorem copyout_then_copyin_witness:
  "\<exists>m'. copyout 0x80022000 4094 [1, 2, 3, 4] demo_state = Ret 0 (demo_state\<lparr>mem := m'\<rparr>) \<and>
     copyin 0x80022000 4094 4 (demo_state\<lparr>mem := m'\<rparr>) = Ret (0, [1, 2, 3, 4]) (demo_state\<lparr>mem := m'\<rparr>)"
proof -
  let ?bs = "[1, 2, 3, 4] :: uchar list"
  have um: "user_map (mem demo_state) 0x80022000" using demo_user_map by (simp add: demo_state_def)
  have b: "user_byte (mem demo_state) 0x80022000 (4094 + of_nat i) \<noteq> None" if "i < 4" for i
  proof -
    have "i = 0 \<or> i = 1 \<or> i = 2 \<or> i = 3" using that by linarith
    then show ?thesis
      by (elim disjE) (simp_all add: demo_state_def user_byte_def demo_user_pa vpath_def PX_def PXSHIFT_def)
  qed
  have l: "length ?bs = 4" by simp
  have "length ?bs < 2 ^ 64" unfolding l by simp
  from copyout_then_copyin [OF um this, of 4094, unfolded l] b show ?thesis by auto
qed

end
