(* ===== verification/Bss.thy ===== *)
theory Bss
  imports File UserMem
begin

text \<open>
  The kernel's static data before any code has run: C initialises it with zeros (except
  \<open>nextpid\<close>, which starts at 1). Memory holds the table of two user pages of \<open>demo_mem\<close>, and the
  first process runs on it. The witnesses start from this state.
\<close>

definition proc0 :: proc where
  "proc0 = \<lparr>p_state = UNUSED, p_chan = None, p_killed = False, p_xstate = 0, p_pid = 0, p_parent = None,
     p_kstack = 0, p_sz = 0, p_pagetable = 0, p_trapframe = 0,
     p_context = \<lparr>ctx_ra = 0, ctx_sp = 0, ctx_s = (\<lambda>_. 0)\<rparr>, p_ofile = (\<lambda>_. None), p_cwd = None,
     p_name = replicate 16 0\<rparr>"

definition lock0 :: sleeplock where
  "lock0 = \<lparr>sl_locked = False, sl_pid = 0\<rparr>"

definition buf0 :: buf where
  "buf0 = \<lparr>b_valid = False, b_dev = 0, b_blockno = 0, b_lock = lock0, b_refcnt = 0, b_prev = 0, b_next = 0,
     b_data = replicate BSIZE 0\<rparr>"

definition inode0 :: inode where
  "inode0 = \<lparr>i_dev = 0, i_inum = 0, i_ref = 0, i_lock = lock0, i_valid = False,
     i_d = \<lparr>d_type = 0, d_major = 0, d_minor = 0, d_nlink = 0, d_size = 0, d_addrs = replicate 13 0\<rparr>\<rparr>"

definition file0 :: openfile where
  "file0 = \<lparr>f_type = FD_NONE, f_ref = 0, f_readable = False, f_writable = False, f_pipe = 0, f_ip = None,
     f_off = 0, f_major = 0\<rparr>"

definition pipe0 :: pipe where
  "pipe0 = \<lparr>pi_data = (\<lambda>_. 0), pi_nread = 0, pi_nwrite = 0, pi_readopen = False, pi_writeopen = False\<rparr>"

definition bss :: kfile where
  "bss = \<lparr>mem = demo_mem, kout = [], freelist = 0, kend = 0x80022000, kernel_pagetable = 0, satp = 0,
     proc_tab = (\<lambda>_. proc0)(0 := proc0\<lparr>p_state := RUNNING, p_pid := 1, p_pagetable := 0x80022000, p_sz := 8192\<rparr>),
     nextpid = 1, initproc = None, cpu_proc = Some 0, ticks = 0, trampoline = 0x80007000, forkret_pc = 0x80001000,
     uart_cfg = [], uart_tx_buf = (\<lambda>_. 0), uart_tx_w = 0, uart_tx_r = 0, lsr_tx = [], thr = [], rhr = [],
     cons_buf = (\<lambda>_. 0), cons_r = 0, cons_w = 0, cons_e = 0, devsw_read = (\<lambda>_. None), devsw_write = (\<lambda>_. None),
     vq_desc = (\<lambda>_. \<lparr>vd_addr = VNull, vd_len = 0, vd_flags = 0, vd_next = 0\<rparr>), vq_avail_ring = (\<lambda>_. 0),
     vq_avail_idx = 0, vq_used_ring = (\<lambda>_. 0), vq_used_idx = 0, vq_free = (\<lambda>_. False), vq_seen = 0,
     vq_info_b = (\<lambda>_. None), vq_status = (\<lambda>_. 0), vq_ops = (\<lambda>_. \<lparr>vr_type = 0, vr_reserved = 0, vr_sector = 0\<rparr>),
     buf_disk = (\<lambda>_. False), mmio_w = [],
     bcache = (\<lambda>_. buf0), disk = (\<lambda>_. replicate BSIZE 0), dwrites = [],
     log_start = 0, log_size = 0, log_outstanding = 0, log_committing = False, log_dev = 0,
     log_lh = \<lparr>lh_n = 0, lh_block = (\<lambda>_. 0)\<rparr>,
     sb = \<lparr>sb_magic = 0, sb_size = 0, sb_nblocks = 0, sb_ninodes = 0, sb_nlog = 0, sb_logstart = 0,
       sb_inodestart = 0, sb_bmapstart = 0\<rparr>,
     itable = (\<lambda>_. inode0), ftable = (\<lambda>_. file0), pipes = (\<lambda>_. pipe0)\<rparr>"

lemma bss_sel [simp]:
  "mem bss = demo_mem" "cpu_proc bss = Some 0" "pipes bss = (\<lambda>_. pipe0)" "ftable bss = (\<lambda>_. file0)"
  "itable bss = (\<lambda>_. inode0)" "bcache bss = (\<lambda>_. buf0)" "disk bss = (\<lambda>_. replicate BSIZE 0)" "dwrites bss = []"
  "proc_tab bss = (\<lambda>_. proc0)(0 := proc0\<lparr>p_state := RUNNING, p_pid := 1, p_pagetable := 0x80022000, p_sz := 8192\<rparr>)"
  "nextpid bss = 1" "kend bss = 0x80022000" "freelist bss = 0"
  by (simp_all add: bss_def)

end
