(* ===== verification/Ring.thy ===== *)
theory Ring
  imports Prelude
begin

text \<open>
  Ring buffers whose read and write indices are free-running machine words: the pipe, the
  console, the serial port and the rings of the disk driver all use this scheme. The
  contents of the ring are the elements from the read to the write index; the indices may
  wrap around because the size of the buffer divides the range of the index type.
\<close>

definition ring_q :: "nat \<Rightarrow> (nat \<Rightarrow> 'b) \<Rightarrow> 'w::len word \<Rightarrow> 'w word \<Rightarrow> 'b list" where
  "ring_q n b r w = map (\<lambda>i. b (unat (r + of_nat i) mod n)) [0..<unat (w - r)]"

lemma length_ring_q [simp]: "length (ring_q n b r w) = unat (w - r)"
  by (simp add: ring_q_def)

lemma ring_q_empty [simp]: "ring_q n b r r = []"
  by (simp add: ring_q_def)

lemma unat_succ_diff:
  fixes r w :: "'w::len word"
  assumes "unat (w - r) < n" "n < 2 ^ LENGTH('w)"
  shows "unat (w + 1 - r) = Suc (unat (w - r))"
proof -
  have "unat ((w - r) + 1) = (unat (w - r) + unat (1 :: 'w word)) mod 2 ^ LENGTH('w)"
    by (rule unat_word_ariths)
  then have "unat ((w - r) + 1) = Suc (unat (w - r))" using assms by simp
  moreover have "w + 1 - r = (w - r) + 1" by simp
  ultimately show ?thesis by (simp only:)
qed

lemma unat_diff_succ:
  fixes r w :: "'w::len word"
  assumes "r \<noteq> w"
  shows "Suc (unat (w - (r + 1))) = unat (w - r)"
proof -
  have "w - r \<noteq> 0" using assms by simp
  then have "unat (w - r - 1) = unat (w - r) - 1" by (rule unat_minus_one)
  moreover have "0 < unat (w - r)" using assms by (simp add: unat_gt_0)
  ultimately show ?thesis by (simp add: algebra_simps)
qed

locale ring_buffer =
  fixes n :: nat and ty :: "'w::len itself"
  assumes pos: "0 < n" and fits: "n dvd 2 ^ LENGTH('w)" and small: "n < 2 ^ LENGTH('w)"
begin

lemma slot_offset_mod: "unat (r + of_nat i :: 'w word) mod n = (unat r + i) mod n"
proof -
  have "unat (r + of_nat i) mod n = (unat r + i) mod 2 ^ LENGTH('w) mod n"
    by (simp add: unat_word_ariths unat_of_nat mod_add_right_eq)
  also have "\<dots> = (unat r + i) mod n" using fits by (simp add: mod_mod_cancel)
  finally show ?thesis .
qed

lemma ring_alt: "ring_q n b (r :: 'w word) w = map (\<lambda>i. b ((unat r + i) mod n)) [0..<unat (w - r)]"
  by (simp add: ring_q_def slot_offset_mod)

lemma slot_mod: "unat ((w :: 'w word) mod of_nat n) = unat w mod n"
  using small by (simp add: unat_mod unat_of_nat)

text \<open>Putting an element into a ring that is not full appends it to the contents.\<close>

lemma put:
  assumes "unat (w - r :: 'w word) < n"
  shows "ring_q n (b(unat w mod n := x)) r (w + 1) = ring_q n b r w @ [x]"
    and "unat (w + 1 - r) = Suc (unat (w - r))"
proof -
  have w: "unat w mod n = (unat r + unat (w - r)) mod n"
    using slot_offset_mod [of r "unat (w - r)"] by simp
  have ne: "(unat r + i) mod n \<noteq> unat w mod n" if "i < unat (w - r)" for i
  proof
    assume "(unat r + i) mod n = unat w mod n"
    then have "(unat r + i) mod n = (unat r + unat (w - r)) mod n" using w by simp
    then have "n dvd (unat r + unat (w - r)) - (unat r + i)"
      using mod_eq_dvd_iff_nat [of "unat r + i" "unat r + unat (w - r)" n] that by simp
    then have "n dvd unat (w - r) - i" by simp
    then have "n \<le> unat (w - r) - i" using that by (intro dvd_imp_le) auto
    then show False using assms by simp
  qed
  show l: "unat (w + 1 - r) = Suc (unat (w - r))" using assms small by (rule unat_succ_diff)
  show "ring_q n (b(unat w mod n := x)) r (w + 1) = ring_q n b r w @ [x]"
    using ne w by (simp add: ring_alt l)
qed

text \<open>Taking an element out of a ring that is not empty takes the first one.\<close>

lemma get:
  assumes "r \<noteq> (w :: 'w word)"
  shows "ring_q n b r w = b (unat r mod n) # ring_q n b (r + 1) w"
    and "Suc (unat (w - (r + 1))) = unat (w - r)"
proof -
  show l: "Suc (unat (w - (r + 1))) = unat (w - r)" using assms by (rule unat_diff_succ)
  have "[0..<unat (w - r)] = 0 # map Suc [0..<unat (w - (r + 1))]"
    using l by (metis map_Suc_upt upt_conv_Cons zero_less_Suc)
  moreover have "unat (r + 1 + of_nat i) mod n = unat (r + of_nat (Suc i)) mod n" for i
    by (simp add: add.assoc)
  ultimately show "ring_q n b r w = b (unat r mod n) # ring_q n b (r + 1) w"
    by (simp add: ring_q_def)
qed

text \<open>A ring is full exactly when the write index is one buffer ahead of the read index.\<close>

lemma full_iff: "w = r + of_nat n \<longleftrightarrow> unat (w - r :: 'w word) = n"
proof -
  have u: "unat (of_nat n :: 'w word) = n" using small by (simp add: unat_of_nat)
  have "w = r + of_nat n \<longleftrightarrow> w - r = of_nat n" by (auto simp: algebra_simps)
  also have "\<dots> \<longleftrightarrow> unat (w - r) = n" by (metis u word_eq_iff_unsigned)
  finally show ?thesis .
qed

text \<open>Removing the newest element.\<close>

lemma unput:
  assumes "r \<noteq> (w :: 'w word)"
  shows "ring_q n b r (w - 1) = butlast (ring_q n b r w)" and "Suc (unat (w - 1 - r)) = unat (w - r)"
proof -
  have "w - r \<noteq> 0" using assms by simp
  then have "unat (w - r - 1) = unat (w - r) - 1" by (rule unat_minus_one)
  moreover have "0 < unat (w - r)" using assms by (simp add: unat_gt_0)
  ultimately show l: "Suc (unat (w - 1 - r)) = unat (w - r)" by (simp add: algebra_simps)
  have "[0..<unat (w - r)] = [0..<unat (w - 1 - r)] @ [unat (w - 1 - r)]"
    by (simp flip: l)
  then show "ring_q n b r (w - 1) = butlast (ring_q n b r w)"
    by (simp add: ring_q_def butlast_append)
qed

end

interpretation ring512: ring_buffer 512 "TYPE(32)"
  by unfold_locales auto

interpretation ring128: ring_buffer 128 "TYPE(32)"
  by unfold_locales auto

interpretation ring32: ring_buffer 32 "TYPE(64)"
  by unfold_locales auto

interpretation ring8: ring_buffer 8 "TYPE(16)"
  by unfold_locales auto

end
