(* ===== verification/PipeFifo.thy ===== *)
theory PipeFifo
  imports Bss Ring
begin

text \<open>
  A pipe is a queue of at most 512 bytes. The ring with its two free-running 32-bit counters is
  abstracted to a list; \<open>pipewrite\<close> appends bytes of the writer's memory, \<open>piperead\<close>
  takes bytes from the front into the reader's memory, and every interleaving of the two, cut
  at the points where they sleep, keeps the bytes in order.
\<close>

section \<open>The queue\<close>

definition pipe_q :: "pipe \<Rightarrow> uchar list" where
  "pipe_q x = ring_q 512 (pi_data x) (pi_nread x) (pi_nwrite x)"

definition pipe_ok :: "pipe \<Rightarrow> bool" where
  "pipe_ok x \<longleftrightarrow> length (pipe_q x) \<le> 512"

lemma pipe_full: "pi_nwrite x = pi_nread x + 512 \<longleftrightarrow> length (pipe_q x) = 512"
  using ring512.full_iff [of "pi_nwrite x" "pi_nread x"] by (simp add: pipe_q_def)

lemma pipe_empty: "pi_nread x = pi_nwrite x \<longleftrightarrow> pipe_q x = []"
  unfolding pipe_q_def by (auto simp: ring_q_def unat_eq_zero)

lemma slot512: "unat ((w :: uint) mod 512) = unat w mod 512"
  using ring512.slot_mod [of w] by simp

lemma pipe_put:
  assumes "length (pipe_q x) < 512"
  shows "pipe_q (x\<lparr>pi_data := (pi_data x)(unat (pi_nwrite x mod 512) := b), pi_nwrite := pi_nwrite x + 1\<rparr>)
    = pipe_q x @ [b]"
  using assms ring512.put(1) [of "pi_nwrite x" "pi_nread x" "pi_data x" b]
  by (simp add: pipe_q_def slot512)

lemma pipe_get:
  assumes "pi_nread x \<noteq> pi_nwrite x"
  shows "pipe_q x = pi_data x (unat (pi_nread x mod 512)) # pipe_q (x\<lparr>pi_nread := pi_nread x + 1\<rparr>)"
  using ring512.get(1) [OF assms, of "pi_data x"] by (simp add: pipe_q_def slot512)

section \<open>Effects on the rest of the kernel state\<close>

lemma wakeup_frame [simp]:
  "pipes (wakeup c s) = pipes s" "mem (wakeup c s) = mem s" "cpu_proc (wakeup c s) = cpu_proc s"
  "p_pagetable (proc_tab (wakeup c s) p) = p_pagetable (proc_tab s p)"
  "p_killed (proc_tab (wakeup c s) p) = p_killed (proc_tab s p)"
  by (simp_all add: wakeup_def)

lemma upd_pipe_frame [simp]:
  "pipes (upd_pipe pi g s) = (pipes s)(pi := g (pipes s pi))" "mem (upd_pipe pi g s) = mem s"
  "cpu_proc (upd_pipe pi g s) = cpu_proc s" "proc_tab (upd_pipe pi g s) = proc_tab s"
  by (simp_all add: upd_pipe_def)

lemma upd_proc_frame [simp]:
  "pipes (upd_proc p g s) = pipes s" "mem (upd_proc p g s) = mem s" "cpu_proc (upd_proc p g s) = cpu_proc s"
  by (simp_all add: upd_proc_def)

lemma upd_proc_same:
  assumes "\<And>q. p_pagetable (g q) = p_pagetable q"
  shows "p_pagetable (proc_tab (upd_proc p g s) r) = p_pagetable (proc_tab s r)"
  using assms by (simp add: upd_proc_def)

text \<open>The page table of the running process.\<close>

definition cur_pt :: "'a kproc_scheme \<Rightarrow> uint64" where
  "cur_pt s = p_pagetable (proc_tab s (the (cpu_proc s)))"

definition cur_killed :: "'a kproc_scheme \<Rightarrow> bool" where
  "cur_killed s = p_killed (proc_tab s (the (cpu_proc s)))"

section \<open>Writing\<close>

text \<open>
  The outcome of a run of \<open>pipewrite\<close> that has \<open>k\<close> bytes to write, from offset \<open>i\<close>: it appends the
  bytes \<open>bs\<close> of the writer's memory and returns the count, or sleeps on a full pipe; it returns -1 exactly when
  there is something to write and the read end is closed or the writer is killed.
\<close>

definition pipewrite_post ::
  "uint64 \<Rightarrow> uint64 \<Rightarrow> nat \<Rightarrow> nat \<Rightarrow> 'a kfile_scheme \<Rightarrow> (int, 'a kfile_scheme) outcome \<Rightarrow> uchar list \<Rightarrow> 'a kfile_scheme \<Rightarrow> bool"
  where
  "pipewrite_post pi addr k i s out bs s' \<longleftrightarrow>
     pipe_q (pipes s' pi) = pipe_q (pipes s pi) @ bs \<and> length (pipe_q (pipes s' pi)) \<le> 512
     \<and> pi_nwrite (pipes s' pi) = pi_nwrite (pipes s pi) + of_nat (length bs)
     \<and> pi_readopen (pipes s' pi) = pi_readopen (pipes s pi) \<and> pi_writeopen (pipes s' pi) = pi_writeopen (pipes s pi)
     \<and> (\<forall>q. q \<noteq> pi \<longrightarrow> pipes s' q = pipes s q) \<and> mem s' = mem s \<and> length bs \<le> k
     \<and> (\<forall>t<length bs. user_byte (mem s) (cur_pt s) (addr + of_nat (i + t)) = Some (bs ! t))
     \<and> (if 0 < k \<and> (\<not> pi_readopen (pipes s pi) \<or> cur_killed s) then out = Ret (-1) s' \<and> bs = []
        else out = Ret (int (i + length bs)) s'
            \<and> (length bs < k \<longrightarrow> user_byte (mem s) (cur_pt s) (addr + of_nat (i + length bs)) = None)
          \<or> out = Sleep (ChPipeW pi) s' \<and> length bs < k \<and> length (pipe_q (pipes s' pi)) = 512)"

declare pipewrite_loop.simps [simp del] piperead_loop.simps [simp del]

lemma copyin_one:
  assumes "pt_wf (mem s) pt"
  shows "copyin pt va 1 s =
    (case user_byte (mem s) pt va of None \<Rightarrow> Ret (-1, []) s | Some b \<Rightarrow> Ret (0, [b]) s)"
proof -
  obtain k bs where "copyin pt va 1 s = Ret (if k = 1 then 0 else -1, bs) s" "reads_user (mem s) pt va 1 k bs"
    using copyin_reads [OF assms, of va 1] by (elim exE conjE)
  moreover have "k = 0 \<or> k = 1" using calculation(2) unfolding reads_user_def by linarith
  ultimately show ?thesis by (auto simp: reads_user_def length_Suc_conv)
qed

lemma pipewrite_post_Cons:
  assumes post: "pipewrite_post pi addr k (Suc i) s1 out bs s'"
    and q: "pipe_q (pipes s1 pi) = pipe_q (pipes s pi) @ [b]" and b: "user_byte (mem s) (cur_pt s) (addr + of_nat i) = Some b"
    and same: "mem s1 = mem s" "cur_pt s1 = cur_pt s" "cur_killed s1 = cur_killed s"
      "pi_readopen (pipes s1 pi) = pi_readopen (pipes s pi)" "pi_writeopen (pipes s1 pi) = pi_writeopen (pipes s pi)"
      "\<And>q. q \<noteq> pi \<Longrightarrow> pipes s1 q = pipes s q" "pi_nwrite (pipes s1 pi) = pi_nwrite (pipes s pi) + 1"
    and go: "pi_readopen (pipes s pi) \<and> \<not> cur_killed s"
  shows "pipewrite_post pi addr (Suc k) i s out (b # bs) s'"
proof -
  have "user_byte (mem s) (cur_pt s) (addr + of_nat (i + t)) = Some ((b # bs) ! t)" if "t < length (b # bs)" for t
    using that post b same by (cases t) (simp_all add: pipewrite_post_def)
  moreover have "int (Suc i + length bs) = int (i + length (b # bs))" "Suc i + length bs = i + length (b # bs)" by simp_all
  ultimately show ?thesis
    using post go same(6,7) unfolding pipewrite_post_def same(1-5) q by auto
qed

lemma pipewrite_loop_post:
  assumes "cpu_proc s = Some p" "pt_wf (mem s) (cur_pt s)" "pipe_ok (pipes s pi)"
    and "pi_readopen (pipes s pi) \<and> \<not> cur_killed s"
  shows "\<exists>bs s'. pipewrite_post pi addr k i s (pipewrite_loop pi addr k i s) bs s'"
  using assms
proof (induction k arbitrary: i s)
  case 0
  then show ?case
    by (intro exI [of _ "[]"] exI [of _ "wakeup (ChPipeR pi) s"]) (simp add: pipewrite_post_def pipe_ok_def pipewrite_loop.simps(1))
next
  case (Suc k)
  let ?x = "pipes s pi"
  have go: "pipewrite_loop pi addr (Suc k) i s =
     (if length (pipe_q ?x) = 512 then sleep (ChPipeW pi) (wakeup (ChPipeR pi) s)
      else case user_byte (mem s) (cur_pt s) (addr + of_nat i) of
        None \<Rightarrow> Ret (int i) (wakeup (ChPipeR pi) s)
      | Some b \<Rightarrow> pipewrite_loop pi addr k (Suc i) (upd_pipe pi (\<lambda>x.
         x\<lparr>pi_data := (pi_data x)(unat (pi_nwrite x mod 512) := b), pi_nwrite := pi_nwrite x + 1\<rparr>) s))"
    using Suc.prems copyin_one [of s "cur_pt s" "addr + of_nat i"]
    by (subst pipewrite_loop.simps)
      (auto simp: myproc_def cur_pt_def cur_killed_def killed_def pipe_full [symmetric] split: option.split)
  consider "length (pipe_q ?x) = 512" | "length (pipe_q ?x) < 512" "user_byte (mem s) (cur_pt s) (addr + of_nat i) = None"
    | b where "length (pipe_q ?x) < 512" "user_byte (mem s) (cur_pt s) (addr + of_nat i) = Some b"
    using Suc.prems(3) unfolding pipe_ok_def by fastforce
  then show ?case
  proof cases
    case 1
    then show ?thesis using Suc.prems(1,3,4)
      by (intro exI [of _ "[]"]) (simp add: go pipewrite_post_def pipe_ok_def sleep_def myproc_def)
  next
    case 2
    then show ?thesis using Suc.prems(3,4)
      by (intro exI [of _ "[]"] exI [of _ "wakeup (ChPipeR pi) s"])
        (simp add: go pipewrite_post_def pipe_ok_def)
  next
    case 3
    let ?s = "upd_pipe pi (\<lambda>x.
         x\<lparr>pi_data := (pi_data x)(unat (pi_nwrite x mod 512) := b), pi_nwrite := pi_nwrite x + 1\<rparr>) s"
    have q: "pipe_q (pipes ?s pi) = pipe_q ?x @ [b]" using pipe_put [OF 3(1)] by simp
    have c: "cur_pt ?s = cur_pt s" "cur_killed ?s = cur_killed s" by (simp_all add: cur_pt_def cur_killed_def)
    obtain bs s' where ih: "pipewrite_post pi addr k (Suc i) ?s (pipewrite_loop pi addr k (Suc i) ?s) bs s'"
      using Suc.IH [of ?s "Suc i"] Suc.prems 3(1) q c by (auto simp: pipe_ok_def)
    have e: "pipewrite_loop pi addr (Suc k) i s = pipewrite_loop pi addr k (Suc i) ?s" using 3 by (simp add: go)
    have "pipewrite_post pi addr (Suc k) i s (pipewrite_loop pi addr (Suc k) i s) (b # bs) s'"
      unfolding e using q c 3(2) Suc.prems(4) by (intro pipewrite_post_Cons [OF ih]) simp_all
    then show ?thesis by blast
  qed
qed

section \<open>Reading\<close>

text \<open>
  The outcome of the copying loop of \<open>piperead\<close>: the bytes \<open>cs\<close> leave the queue and \<open>j\<close> of them
  arrive in the reader's memory: all of them, unless \<open>copyout\<close> failed for the last one.
\<close>

definition piperead_post ::
  "uint64 \<Rightarrow> uint64 \<Rightarrow> nat \<Rightarrow> nat \<Rightarrow> 'a kfile_scheme \<Rightarrow> (int, 'a kfile_scheme) outcome \<Rightarrow> uchar list \<Rightarrow> nat \<Rightarrow> 'a kfile_scheme \<Rightarrow> bool"
  where
  "piperead_post pi addr k i s out cs j s' \<longleftrightarrow> out = Ret (int (i + j)) s' \<and> j \<le> k \<and>
     pipe_q (pipes s pi) = cs @ pipe_q (pipes s' pi) \<and> pi_nread (pipes s' pi) = pi_nread (pipes s pi) + of_nat (length cs)
     \<and> pi_readopen (pipes s' pi) = pi_readopen (pipes s pi) \<and> pi_writeopen (pipes s' pi) = pi_writeopen (pipes s pi)
     \<and> (\<forall>q. q \<noteq> pi \<longrightarrow> pipes s' q = pipes s q)
     \<and> writes_user (mem s) (cur_pt s) (addr + of_nat i) j cs (mem s') \<and> user_map (mem s') (cur_pt s)
     \<and> (length cs = j \<and> (j < k \<longrightarrow> pipe_q (pipes s' pi) = [])
        \<or> length cs = Suc j \<and> j < k \<and> user_byte (mem s) (cur_pt s) (addr + of_nat (i + j)) = None)"

lemma copyout_one:
  assumes "user_map (mem s) pt"
  shows "\<exists>m'. copyout pt va [b] s = Ret (if user_byte (mem s) pt va = None then -1 else 0) (s\<lparr>mem := m'\<rparr>)
     \<and> user_map m' pt \<and> writes_user (mem s) pt va (if user_byte (mem s) pt va = None then 0 else 1) [b] m'"
proof -
  have "length [b] < 2 ^ 64" by simp
  from copyout_writes [OF assms this, of va] obtain k m'
    where c: "copyout pt va [b] s = Ret (if k = length [b] then 0 else -1) (s\<lparr>mem := m'\<rparr>)"
      and p: "copyout_post pt va [b] (mem s) k m'" by (elim exE conjE)
  have "k = 0 \<or> k = 1" using p by (auto simp: copyout_post_def)
  moreover have "user_byte (mem s) pt va \<noteq> None" if "k = 1"
  proof -
    have "user_byte m' pt va = Some b" using p that by (simp add: copyout_post_def writes_user_def)
    moreover have "user_pa m' pt va = user_pa (mem s) pt va" using p by (simp add: copyout_post_def writes_user_def)
    ultimately show ?thesis by (auto simp: user_byte_def Let_def split: if_splits)
  qed
  ultimately show ?thesis using c p by (auto simp: copyout_post_def)
qed

lemma piperead_post_Cons:
  assumes post: "piperead_post pi addr k (Suc i) s1 out cs j s'" and k: "Suc k < 2 ^ 64"
    and q: "pipe_q (pipes s pi) = b # pipe_q (pipes s1 pi)" "pi_nread (pipes s1 pi) = pi_nread (pipes s pi) + 1"
    and w: "writes_user (mem s) (cur_pt s) (addr + of_nat i) 1 [b] (mem s1)"
    and same: "cur_pt s1 = cur_pt s"
      "pi_readopen (pipes s1 pi) = pi_readopen (pipes s pi)" "pi_writeopen (pipes s1 pi) = pi_writeopen (pipes s pi)"
      "\<And>q. q \<noteq> pi \<Longrightarrow> pipes s1 q = pipes s q"
  shows "piperead_post pi addr (Suc k) i s out (b # cs) (Suc j) s'"
proof -
  have j: "1 + j < 2 ^ 64" using post k by (simp add: piperead_post_def)
  have "writes_user (mem s1) (cur_pt s) (addr + of_nat i + of_nat 1) j cs (mem s')"
    using post same by (simp add: piperead_post_def add_ac)
  then have "writes_user (mem s) (cur_pt s) (addr + of_nat i) (Suc j) (b # cs) (mem s')"
    using writes_user_append [OF w _ _ j] by simp
  moreover have "user_byte (mem s1) (cur_pt s) va = None \<longleftrightarrow> user_byte (mem s) (cur_pt s) va = None" for va
    using w unfolding writes_user_def user_byte_None by simp
  moreover have "int (Suc i + j) = int (i + Suc j)" "Suc i + j = i + Suc j" by simp_all
  ultimately show ?thesis
    using post same(4) unfolding piperead_post_def same(1-3) q by auto
qed

lemma piperead_loop_post:
  assumes "cpu_proc s = Some p" "user_map (mem s) (cur_pt s)" "k < 2 ^ 64"
  shows "\<exists>cs j s'. piperead_post pi addr k i s (piperead_loop pi addr k i s) cs j s'"
  using assms
proof (induction k arbitrary: i s)
  case 0
  then show ?case
    by (intro exI [of _ "[]"] exI [of _ 0] exI [of _ "wakeup (ChPipeW pi) s"])
      (simp add: piperead_post_def writes_user_0 piperead_loop.simps(1))
next
  case (Suc k)
  let ?x = "pipes s pi"
  show ?case
  proof (cases "pipe_q ?x = []")
    case True
    then have "piperead_loop pi addr (Suc k) i s = Ret (int i) (wakeup (ChPipeW pi) s)"
      using Suc.prems(1) by (subst piperead_loop.simps) (simp add: myproc_def pipe_empty)
    then show ?thesis using True Suc.prems(2)
      by (intro exI [of _ "[]"] exI [of _ 0] exI [of _ "wakeup (ChPipeW pi) s"])
        (simp add: piperead_post_def writes_user_0)
  next
    case False
    let ?b = "pi_data ?x (unat (pi_nread ?x mod 512))"
    let ?s = "upd_pipe pi (\<lambda>x. x\<lparr>pi_nread := pi_nread x + 1\<rparr>) s"
    let ?none = "user_byte (mem s) (cur_pt s) (addr + of_nat i) = None"
    have q: "pipe_q ?x = ?b # pipe_q (pipes ?s pi)"
      using pipe_get [of ?x] False by (simp add: pipe_empty)
    obtain m' where c: "copyout (cur_pt s) (addr + of_nat i) [?b] ?s = Ret (if ?none then -1 else 0) (?s\<lparr>mem := m'\<rparr>)"
      and um: "user_map m' (cur_pt s)"
      and w: "writes_user (mem s) (cur_pt s) (addr + of_nat i) (if ?none then 0 else 1) [?b] m'"
      using copyout_one [of ?s "cur_pt s" "addr + of_nat i" ?b] Suc.prems(2) by auto
    let ?t = "?s\<lparr>mem := m'\<rparr>"
    have ct: "cur_pt ?t = cur_pt s" by (simp add: cur_pt_def)
    have go: "piperead_loop pi addr (Suc k) i s =
       (if ?none then Ret (int i) (wakeup (ChPipeW pi) ?t) else piperead_loop pi addr k (Suc i) ?t)"
      using Suc.prems(1) c False by (subst piperead_loop.simps) (simp add: myproc_def cur_pt_def pipe_empty)
    show ?thesis
    proof (cases ?none)
      case True
      then show ?thesis using go q w um
        by (intro exI [of _ "[?b]"] exI [of _ 0] exI [of _ "wakeup (ChPipeW pi) ?t"])
          (simp add: piperead_post_def)
    next
      case False
      obtain cs j s' where ih: "piperead_post pi addr k (Suc i) ?t (piperead_loop pi addr k (Suc i) ?t) cs j s'"
        using Suc.IH [of ?t "Suc i"] Suc.prems um ct by auto
      have "piperead_post pi addr (Suc k) i s (piperead_loop pi addr k (Suc i) ?t) (?b # cs) (Suc j) s'"
        by (rule piperead_post_Cons [OF ih Suc.prems(3)]) (use q w False ct in simp_all)
      then show ?thesis using go False by (intro exI [of _ "?b # cs"] exI [of _ "Suc j"] exI [of _ s']) simp
    qed
  qed
qed

section \<open>Interleaved runs\<close>

text \<open>The state in which a run returns or goes to sleep, and the bytes at a user address.\<close>

fun stops :: "('b, 's) outcome \<Rightarrow> 's option" where
  "stops (Ret r s) = Some s"
| "stops (Sleep c s) = Some s"
| "stops _ = None"

definition user_bytes :: "memory \<Rightarrow> uint64 \<Rightarrow> uint64 \<Rightarrow> nat \<Rightarrow> uchar list" where
  "user_bytes m pt va n = map (\<lambda>t. the (user_byte m pt (va + of_nat t))) [0..<n]"

fun returned :: "(int, 's) outcome \<Rightarrow> nat" where
  "returned (Ret r s) = nat r"
| "returned _ = 0"

lemma pipewrite_post_stops: "pipewrite_post pi addr k i s out bs s' \<Longrightarrow> stops out = Some s'"
  unfolding pipewrite_post_def by (elim conjE) (simp split: if_splits, elim disjE, simp_all)

text \<open>
  Runs of writers and readers of one pipe in any order, each up to its next sleep, with any
  change of the rest of the kernel in between. \<open>W\<close> is what the writers have written so far, read
  from their memories. \<open>R\<close> is what the readers have taken: first the bytes that arrived in their memory, marked \<open>True\<close>,
  then the bytes that left the ring but did not arrive, marked \<open>False\<close>. \<open>ok\<close> says that every reader had its whole
  destination mapped. A writer that was asleep goes on at its offset \<open>i\<close>.
\<close>

definition undelivered :: "pipe \<Rightarrow> pipe \<Rightarrow> nat \<Rightarrow> uchar list" where
  "undelivered x x' j = map (\<lambda>i. pi_data x (unat (pi_nread x + of_nat i) mod 512)) [j..<unat (pi_nread x' - pi_nread x)]"

definition taken :: "'a kfile_scheme \<Rightarrow> 'a kfile_scheme \<Rightarrow> uint64 \<Rightarrow> uint64 \<Rightarrow> nat \<Rightarrow> (bool \<times> uchar) list" where
  "taken s s' pi addr j = map (Pair True) (user_bytes (mem s') (cur_pt s) addr j) @ map (Pair False) (undelivered (pipes s pi) (pipes s' pi) j)"

inductive pipe_run :: "uint64 \<Rightarrow> 'a kfile_scheme \<Rightarrow> uchar list \<Rightarrow> (bool \<times> uchar) list \<Rightarrow> bool \<Rightarrow> bool" for pi where
  start: "pi_nread (pipes s pi) = 0 \<Longrightarrow> pi_nwrite (pipes s pi) = 0 \<Longrightarrow> pipe_run pi s [] [] True"
| writing: "pipe_run pi s W R ok \<Longrightarrow> cpu_proc s = Some p \<Longrightarrow> pt_wf (mem s) (cur_pt s)
    \<Longrightarrow> stops (pipewrite_loop pi addr k i s) = Some s'
    \<Longrightarrow> pipe_run pi s' (W @ user_bytes (mem s) (cur_pt s) (addr + of_nat i)
          (unat (pi_nwrite (pipes s' pi) - pi_nwrite (pipes s pi)))) R ok"
| reading: "pipe_run pi s W R ok \<Longrightarrow> cpu_proc s = Some p \<Longrightarrow> user_map (mem s) (cur_pt s) \<Longrightarrow> nat n < 2 ^ 64
    \<Longrightarrow> stops (piperead pi addr n s) = Some s'
    \<Longrightarrow> pipe_run pi s' W (R @ taken s s' pi addr (returned (piperead pi addr n s)))
          (ok \<and> list_all (\<lambda>t. user_byte (mem s) (cur_pt s) (addr + of_nat t) \<noteq> None) [0..<nat n])"
| other: "pipe_run pi s W R ok \<Longrightarrow> pi_data (pipes s' pi) = pi_data (pipes s pi)
    \<Longrightarrow> pi_nread (pipes s' pi) = pi_nread (pipes s pi) \<Longrightarrow> pi_nwrite (pipes s' pi) = pi_nwrite (pipes s pi)
    \<Longrightarrow> pipe_run pi s' W R ok"

lemma user_bytesI:
  "length bs = n \<Longrightarrow> (\<And>t. t < n \<Longrightarrow> user_byte m pt (va + of_nat t) = Some (bs ! t)) \<Longrightarrow> user_bytes m pt va n = bs"
  by (auto simp: user_bytes_def intro!: map_upt_nth_eqI)

lemma pipewrite_post_any:
  assumes "cpu_proc s = Some p" "pt_wf (mem s) (cur_pt s)" "pipe_ok (pipes s pi)"
  shows "\<exists>bs s'. pipewrite_post pi addr k i s (pipewrite_loop pi addr k i s) bs s'"
proof (cases "k = 0 \<or> pi_readopen (pipes s pi) \<and> \<not> cur_killed s")
  case True
  show ?thesis
  proof (cases "k = 0")
    case True
    then show ?thesis using assms(3)
      by (intro exI [of _ "[]"] exI [of _ "wakeup (ChPipeR pi) s"])
        (simp add: pipewrite_post_def pipe_ok_def pipewrite_loop.simps(1))
  qed (use pipewrite_loop_post [OF assms] True in blast)
next
  case False
  then obtain k' where "k = Suc k'" by (cases k) auto
  moreover from this have "pipewrite_loop pi addr k i s = Ret (-1) s"
    using False assms(1) by (simp add: pipewrite_loop.simps myproc_def killed_def cur_killed_def)
  ultimately show ?thesis using False assms(3)
    by (intro exI [of _ "[]"] exI [of _ s]) (simp add: pipewrite_post_def pipe_ok_def)
qed

lemma pipewrite_run:
  assumes "cpu_proc s = Some p" "pt_wf (mem s) (cur_pt s)" "pipe_ok (pipes s pi)"
    and "stops (pipewrite_loop pi addr k i s) = Some s'"
  shows "pipe_q (pipes s' pi) = pipe_q (pipes s pi) @ user_bytes (mem s) (cur_pt s) (addr + of_nat i)
          (unat (pi_nwrite (pipes s' pi) - pi_nwrite (pipes s pi))) \<and> pipe_ok (pipes s' pi)"
proof -
  obtain bs t where p: "pipewrite_post pi addr k i s (pipewrite_loop pi addr k i s) bs t"
    using pipewrite_post_any [OF assms(1-3)] by blast
  have t: "t = s'" using pipewrite_post_stops [OF p] assms(4) by simp
  have "length bs \<le> 512" using p by (auto simp: pipewrite_post_def)
  then have "unat (pi_nwrite (pipes s' pi) - pi_nwrite (pipes s pi)) = length bs"
    using p t by (simp add: pipewrite_post_def unat_of_nat take_bit_nat_eq_self_iff)
  moreover have "user_bytes (mem s) (cur_pt s) (addr + of_nat i) (length bs) = bs"
    using p by (intro user_bytesI) (simp_all add: pipewrite_post_def add.assoc)
  moreover have "pipe_ok (pipes s' pi)" using p t unfolding pipewrite_post_def pipe_ok_def by blast
  ultimately show ?thesis using p t by (simp add: pipewrite_post_def)
qed

text \<open>The outcomes of \<open>piperead\<close>.\<close>

definition piperead_cases ::
  "uint64 \<Rightarrow> uint64 \<Rightarrow> int \<Rightarrow> 'a kfile_scheme \<Rightarrow> (int, 'a kfile_scheme) outcome \<Rightarrow> bool" where
  "piperead_cases pi addr n s out \<longleftrightarrow>
     (if pipe_q (pipes s pi) = [] \<and> pi_writeopen (pipes s pi)
      then if cur_killed s then out = Ret (-1) s
        else (\<exists>s'. out = Sleep (ChPipeR pi) s' \<and> pipes s' = pipes s \<and> mem s' = mem s)
      else (\<exists>cs j s'. piperead_post pi addr (nat n) 0 s out cs j s'))"

lemma piperead_outcome:
  assumes "cpu_proc s = Some p" "user_map (mem s) (cur_pt s)" "nat n < 2 ^ 64"
  shows "piperead_cases pi addr n s (piperead pi addr n s)"
proof (cases "pipe_q (pipes s pi) = [] \<and> pi_writeopen (pipes s pi)")
  case True
  then show ?thesis using assms(1)
    by (simp add: piperead_cases_def piperead_def myproc_def pipe_empty killed_def cur_killed_def sleep_def)
next
  case False
  then have "piperead pi addr n s = piperead_loop pi addr (nat n) 0 s"
    using assms(1) by (auto simp: piperead_def myproc_def pipe_empty)
  then show ?thesis unfolding piperead_cases_def if_not_P [OF False]
    using piperead_loop_post [OF assms, of pi addr 0] by simp
qed

lemma undelivered_drop:
  assumes "pipe_q x = cs @ q" "pi_nread x' = pi_nread x + of_nat (length cs)" "j \<le> length cs"
  shows "undelivered x x' j = drop j cs"
proof -
  have l: "length cs \<le> unat (pi_nwrite x - pi_nread x)" using arg_cong [OF assms(1), of length] by (simp add: pipe_q_def)
  have m: "unat (pi_nwrite x - pi_nread x) < 2 ^ 32" using unsigned_less [of "pi_nwrite x - pi_nread x"] by simp
  have "unat (of_nat (length cs) :: uint) = length cs"
    using l m by (simp add: unat_of_nat take_bit_nat_eq_self)
  then have e: "undelivered x x' j = map (\<lambda>i. pi_data x (unat (pi_nread x + of_nat i) mod 512)) [j..<length cs]"
    by (simp add: undelivered_def assms(2))
  have "pi_data x (unat (pi_nread x + of_nat i) mod 512) = cs ! i" if "i < length cs" for i
  proof -
    have "pipe_q x ! i = pi_data x (unat (pi_nread x + of_nat i) mod 512)" using that l by (simp add: pipe_q_def ring_q_def)
    then show ?thesis using assms(1) that by (simp add: nth_append)
  qed
  then show ?thesis unfolding e by (intro nth_equalityI) (simp_all del: of_nat_add)
qed

lemma piperead_run:
  assumes "cpu_proc s = Some p" "user_map (mem s) (cur_pt s)" "nat n < 2 ^ 64" and "stops (piperead pi addr n s) = Some s'"
  defines "R \<equiv> taken s s' pi addr (returned (piperead pi addr n s))"
  shows "pipe_q (pipes s pi) = map snd R @ pipe_q (pipes s' pi)"
    "(\<And>t. t < nat n \<Longrightarrow> user_byte (mem s) (cur_pt s) (addr + of_nat t) \<noteq> None) \<Longrightarrow> list_all fst R"
proof -
  have "\<exists>cs j. pipe_q (pipes s pi) = cs @ pipe_q (pipes s' pi) \<and> R = map (Pair True) (take j cs) @ map (Pair False) (drop j cs)
    \<and> (length cs \<le> j \<or> j < nat n \<and> user_byte (mem s) (cur_pt s) (addr + of_nat j) = None)"
  proof (cases "pipe_q (pipes s pi) = [] \<and> pi_writeopen (pipes s pi)")
    case True
    then have "pipes s' = pipes s \<and> returned (piperead pi addr n s) = 0"
      using piperead_outcome [OF assms(1-3), of pi addr] assms(4) by (auto simp: piperead_cases_def split: if_splits)
    then show ?thesis using True
      by (intro exI [of _ "[]"] exI [of _ 0]) (simp add: R_def taken_def user_bytes_def undelivered_def)
  next
    case False
    then obtain cs j t where p: "piperead_post pi addr (nat n) 0 s (piperead pi addr n s) cs j t"
      using piperead_outcome [OF assms(1-3), of pi addr] unfolding piperead_cases_def by auto
    have t: "t = s'" and j: "returned (piperead pi addr n s) = j" using p assms(4) by (simp_all add: piperead_post_def)
    have q: "pipe_q (pipes s pi) = cs @ pipe_q (pipes s' pi)" using p t by (simp add: piperead_post_def)
    have lj: "j \<le> length cs" "length cs \<le> j \<or> j < nat n \<and> user_byte (mem s) (cur_pt s) (addr + of_nat j) = None"
      using p by (auto simp: piperead_post_def)
    have "user_byte (mem s') (cur_pt s) (addr + of_nat i) = Some (take j cs ! i)" if "i < j" for i
    proof -
      have "i < 2 ^ 64" using that p assms(3) by (simp add: piperead_post_def)
      then have "unat (of_nat i :: uint64) = i" by (simp add: unat_of_nat take_bit_nat_eq_self_iff)
      then show ?thesis using p t that by (simp add: piperead_post_def writes_user_def)
    qed
    then have "user_bytes (mem s') (cur_pt s) addr j = take j cs" using lj(1) by (intro user_bytesI) simp_all
    moreover have "undelivered (pipes s pi) (pipes s' pi) j = drop j cs"
      using p q lj(1) unfolding t by (intro undelivered_drop) (simp_all add: piperead_post_def)
    ultimately have "R = map (Pair True) (take j cs) @ map (Pair False) (drop j cs)" by (simp add: R_def taken_def j)
    then show ?thesis using q lj(2) by blast
  qed
  then obtain cs j where c: "pipe_q (pipes s pi) = cs @ pipe_q (pipes s' pi)" "R = map (Pair True) (take j cs) @ map (Pair False) (drop j cs)"
    "length cs \<le> j \<or> j < nat n \<and> user_byte (mem s) (cur_pt s) (addr + of_nat j) = None" by blast
  show "pipe_q (pipes s pi) = map snd R @ pipe_q (pipes s' pi)" using c(1,2) by (simp add: comp_def)
  show "list_all fst R" if "\<And>t. t < nat n \<Longrightarrow> user_byte (mem s) (cur_pt s) (addr + of_nat t) \<noteq> None"
    using c(2,3) that [of j] by (auto simp: list_all_iff)
qed

section \<open>Properties\<close>

text \<open>
  C2. A pipe is a first-in-first-out queue. In every interleaving of writers and readers that sleep and
  go on, the bytes the readers have taken followed by what is in the pipe are exactly what the
  writers have written, byte for byte and in order, also when the 32-bit counters wrap around;
  and the pipe never holds more than 512 bytes. A byte that was taken has arrived in the memory of its reader, unless
  some reader had a part of its destination not mapped; then the byte that \<open>copyout\<close> could not deliver is lost.
\<close>

theorem pipe_fifo:
  assumes "pipe_run pi s W R ok"
  shows "W = map snd R @ pipe_q (pipes s pi) \<and> length (pipe_q (pipes s pi)) \<le> 512 \<and> (ok \<longrightarrow> list_all fst R)"
  using assms
proof induction
  case (start s)
  then show ?case by (simp add: pipe_q_def)
next
  case (writing s W R ok p addr k i s')
  then have "pipe_ok (pipes s pi)" by (simp add: pipe_ok_def)
  from pipewrite_run [OF writing.hyps(2,3) this writing.hyps(4)] writing.IH
  show ?case unfolding pipe_ok_def by (metis append.assoc)
next
  case (reading s W R ok p n addr s')
  note r = piperead_run [OF reading.hyps(2-5)]
  have "list_all fst (taken s s' pi addr (returned (piperead pi addr n s)))"
    if "list_all (\<lambda>t. user_byte (mem s) (cur_pt s) (addr + of_nat t) \<noteq> None) [0..<nat n]"
    using that by (intro r(2)) (simp add: list_all_iff)
  then show ?case using reading.IH r(1) by auto
next
  case (other s W R ok s')
  then show ?case by (simp add: pipe_q_def)
qed

text \<open>
  C26. \<open>pipewrite\<close> (pipe.c) never panics. With something to write it returns -1 at once and changes nothing exactly when the read end is closed or the
  writer is killed; otherwise it appends a prefix of the writer's bytes to the queue and returns
  its length when all \<open>n\<close> bytes are written or the next byte is not mapped, or it sleeps with the
  queue full. No other pipe and no memory changes.
\<close>

theorem pipewrite_appends:
  assumes "cpu_proc s = Some p" "pt_wf (mem s) (cur_pt s)" "pipe_ok (pipes s pi)"
  shows "\<exists>bs s'. pipewrite_post pi addr (nat n) 0 s (pipewrite pi addr n s) bs s'"
  unfolding pipewrite_def by (rule pipewrite_post_any [OF assms])

text \<open>
  C27. \<open>piperead\<close> (pipe.c) never panics. On an empty pipe with an open write end it sleeps, or returns -1
  when the reader is killed. Otherwise it moves bytes from the front of the queue into the reader's memory
  and nowhere else, until \<open>n\<close> bytes are read or the queue is empty. When a byte of the
  destination is not mapped the count excludes it, but the byte has left the queue: it is lost.
\<close>

theorem piperead_takes:
  assumes "cpu_proc s = Some p" "user_map (mem s) (cur_pt s)" "nat n < 2 ^ 64"
  shows "piperead_cases pi addr n s (piperead pi addr n s)"
  by (rule piperead_outcome [OF assms])

lemma bss_cur [simp]: "cur_pt bss = 0x80022000" "cur_killed bss = False"
  by (simp_all add: cur_pt_def cur_killed_def proc0_def)

lemma demo_wf: "pt_wf demo_mem 0x80022000"
  using demo_user_map by (simp add: user_map_def)

text \<open>The kernel with an open pipe, and its run of a writer of three bytes and, after a switch, a reader of two.\<close>

definition open_pipe :: pipe where
  "open_pipe = pipe0\<lparr>pi_readopen := True, pi_writeopen := True\<rparr>"

definition demo_pipe :: kfile where
  "demo_pipe = bss\<lparr>pipes := \<lambda>_. open_pipe\<rparr>"

lemma demo_pipe_simps [simp]:
  "pipes demo_pipe = (\<lambda>_. open_pipe)" "mem demo_pipe = demo_mem" "cpu_proc demo_pipe = Some 0" "cur_pt demo_pipe = 0x80022000"
  "cur_killed demo_pipe = False" "pipe_q open_pipe = []" "pi_readopen open_pipe" "pi_nread open_pipe = 0" "pi_nwrite open_pipe = 0"
  by (simp_all add: demo_pipe_def cur_pt_def cur_killed_def open_pipe_def pipe_q_def pipe0_def proc0_def)

lemma demo_mapped: "t < 3 \<Longrightarrow> user_byte demo_mem 0x80022000 (0 + of_nat t) \<noteq> None"
proof -
  assume "t < 3"
  then have "t = 0 \<or> t = 1 \<or> t = 2" by linarith
  then show ?thesis by (elim disjE) (simp_all add: user_byte_def demo_user_pa vpath_def PX_def PXSHIFT_def)
qed

theorem pipe_fifo_witness:
  "\<exists>s1 s2 W R. stops (pipewrite_loop 0x80028000 0 3 0 demo_pipe) = Some s1
     \<and> stops (piperead 0x80028000 0 2 (demo_pipe\<lparr>pipes := pipes s1\<rparr>)) = Some s2 \<and> pipe_run 0x80028000 s2 W R True
     \<and> W = map snd R @ pipe_q (pipes s2 0x80028000) \<and> length W = 3 \<and> list_all fst R \<and> length R = 2"
proof -
  let ?pi = "0x80028000 :: uint64"
  have ok: "pipe_ok (pipes demo_pipe ?pi)" by (simp add: pipe_ok_def)
  obtain bs s1 where p1: "pipewrite_post ?pi 0 3 0 demo_pipe (pipewrite_loop ?pi 0 3 0 demo_pipe) bs s1"
    using pipewrite_post_any [of demo_pipe 0 ?pi 0 3 0] demo_wf ok by auto
  have st1: "stops (pipewrite_loop ?pi 0 3 0 demo_pipe) = Some s1" by (rule pipewrite_post_stops [OF p1])
  have q1: "pipe_q (pipes s1 ?pi) = bs" and b3: "length bs \<le> 3"
    and out: "length bs < 3 \<Longrightarrow> user_byte demo_mem 0x80022000 (0 + of_nat (length bs)) = None \<or> length bs = 512"
    using p1 by (auto simp: pipewrite_post_def)
  have bs: "length bs = 3" "pipe_q (pipes s1 ?pi) = bs" using out b3 demo_mapped [of "length bs"] q1 by force+
  let ?s = "demo_pipe\<lparr>pipes := pipes s1\<rparr>"
  have s: "cpu_proc ?s = Some 0" "mem ?s = demo_mem" "cur_pt ?s = 0x80022000" "pipes ?s = pipes s1" by (simp_all add: cur_pt_def demo_pipe_def proc0_def)
  have um: "user_map (mem ?s) (cur_pt ?s)" using demo_user_map s by simp
  have c: "piperead_cases ?pi 0 2 ?s (piperead ?pi 0 2 ?s)" by (rule piperead_outcome [OF s(1) um]) simp
  have ne: "\<not> (pipe_q (pipes ?s ?pi) = [] \<and> pi_writeopen (pipes ?s ?pi))" using bs s by auto
  obtain cs j s2 where p2: "piperead_post ?pi 0 (nat 2) 0 ?s (piperead ?pi 0 2 ?s) cs j s2"
    using c unfolding piperead_cases_def if_not_P [OF ne] by blast
  have st2: "stops (piperead ?pi 0 2 ?s) = Some s2" and j: "returned (piperead ?pi 0 2 ?s) = j" using p2 by (simp_all add: piperead_post_def)
  have q2: "bs = cs @ pipe_q (pipes s2 ?pi)" and j2: "j \<le> 2"
    and jc: "length cs = j \<and> (j < 2 \<longrightarrow> pipe_q (pipes s2 ?pi) = []) \<or> j < 2 \<and> user_byte demo_mem 0x80022000 (0 + of_nat j) = None"
    using p2 bs(2) s by (auto simp: piperead_post_def)
  have cs: "length cs = 2" using jc j2 demo_mapped [of j] arg_cong [OF q2, of length] bs(1) by (cases "j = 2") auto
  have "pipe_run ?pi demo_pipe [] [] True" by (rule pipe_run.start) simp_all
  from pipe_run.writing [OF this _ _ st1] demo_wf obtain W where "pipe_run ?pi s1 W [] True" by auto
  then have run: "pipe_run ?pi ?s W [] True" by (rule pipe_run.other) (simp_all add: s)
  have m: "list_all (\<lambda>t. user_byte (mem ?s) (cur_pt ?s) (0 + of_nat t) \<noteq> None) [0..<nat 2]"
    using demo_mapped s by (simp add: list_all_iff)
  define R where "R = taken ?s s2 ?pi 0 (returned (piperead ?pi 0 2 ?s))"
  have r: "pipe_run ?pi s2 W R True" using pipe_run.reading [OF run s(1) um _ st2] m unfolding R_def by simp
  have W: "W = bs" using pipe_fifo [OF run] bs(2) s(4) by simp
  have f: "W = map snd R @ pipe_q (pipes s2 ?pi)" "list_all fst R" using pipe_fifo [OF r] by simp_all
  have "length R = 2" using arg_cong [OF f(1), of length] arg_cong [OF q2, of length] W cs by simp
  then show ?thesis using st1 st2 r f W bs(1) by blast
qed

theorem pipewrite_appends_witness:
  "\<exists>bs s'. pipewrite_post 0x80028000 4094 (nat 600) 0 demo_pipe (pipewrite 0x80028000 4094 600 demo_pipe) bs s'"
  by (rule pipewrite_appends [of demo_pipe 0]) (simp_all add: demo_wf pipe_ok_def)

theorem piperead_takes_witness:
  "piperead_cases 0x80028000 4094 10 bss (piperead 0x80028000 4094 10 bss)"
  by (rule piperead_takes [of bss 0]) (simp_all add: demo_user_map)

end
