(* ===== verification/Spinlock.thy ===== *)
theory Spinlock
  imports Proc
begin

text \<open>
  Spin locks, kernel/spinlock.c, on several CPUs. \<open>acquire\<close> and \<open>release\<close> run one memory access
  or register update at a time, interleaved with the other CPUs in any order; \<open>lock_code\<close> is
  the next such step of a CPU. Memory is sequentially consistent: the fences of the code
  order what its accesses would not. \<open>owned\<close> is a ghost: the locks whose \<open>locked\<close>
  word the CPU has set and not yet cleared.
\<close>

section \<open>State\<close>

record spinlock =
  lk_locked :: uint
  lk_cpu :: "nat option"   \<comment> \<open>\<open>struct cpu *cpu\<close>\<close>

record cpu =
  c_noff :: int
  c_intena :: bool
  c_intr :: bool   \<comment> \<open>\<open>sstatus.SIE\<close>, read by \<open>intr_get\<close>\<close>

text \<open>Where a CPU is in the code of a lock operation.\<close>

datatype lockpc =
    Run                \<comment> \<open>outside of the lock operations\<close>
  | AcqOff nat         \<comment> \<open>before \<open>push_off()\<close>\<close>
  | AcqLocked nat      \<comment> \<open>\<open>holding\<close>: before reading \<open>lk->locked\<close>\<close>
  | AcqCpu nat         \<comment> \<open>\<open>holding\<close>: before reading \<open>lk->cpu\<close>\<close>
  | AcqSwap nat        \<comment> \<open>in the loop on \<open>__sync_lock_test_and_set\<close>\<close>
  | AcqSet nat         \<comment> \<open>before \<open>lk->cpu = mycpu()\<close>\<close>
  | RelLocked nat
  | RelCpu nat
  | RelClear nat       \<comment> \<open>before \<open>lk->cpu = 0\<close>\<close>
  | RelStore nat       \<comment> \<open>before \<open>__sync_lock_release\<close>\<close>
  | RelPop nat         \<comment> \<open>before \<open>pop_off()\<close>\<close>
  | Panicked string

record spin =
  locks :: "nat \<Rightarrow> spinlock"
  cpus :: "nat \<Rightarrow> cpu"
  pcs :: "nat \<Rightarrow> lockpc"
  owned :: "nat \<Rightarrow> nat set"

section \<open>Operations\<close>

definition initlock :: spinlock where
  "initlock = \<lparr>lk_locked = 0, lk_cpu = None\<rparr>"

definition holding :: "spinlock \<Rightarrow> nat \<Rightarrow> bool" where
  "holding lk c \<longleftrightarrow> lk_locked lk \<noteq> 0 \<and> lk_cpu lk = Some c"

definition push_off :: "cpu \<Rightarrow> cpu" where
  "push_off x =
     (let old = c_intr x; x = x\<lparr>c_intr := False\<rparr>;
          x = (if c_noff x = 0 then x\<lparr>c_intena := old\<rparr> else x)
      in x\<lparr>c_noff := c_noff x + 1\<rparr>)"

definition pop_off :: "cpu \<Rightarrow> string + cpu" where
  "pop_off x =
     (if c_intr x then Inl ''pop_off - interruptible''
      else if c_noff x < 1 then Inl ''pop_off''
      else
        let x = x\<lparr>c_noff := c_noff x - 1\<rparr>
        in Inr (if c_noff x = 0 \<and> c_intena x then x\<lparr>c_intr := True\<rparr> else x))"

definition set_pc :: "nat \<Rightarrow> lockpc \<Rightarrow> spin \<Rightarrow> spin" where
  "set_pc c p s = s\<lparr>pcs := (pcs s)(c := p)\<rparr>"

definition upd_lock :: "nat \<Rightarrow> (spinlock \<Rightarrow> spinlock) \<Rightarrow> spin \<Rightarrow> spin" where
  "upd_lock l f s = s\<lparr>locks := (locks s)(l := f (locks s l))\<rparr>"

text \<open>The next step of CPU \<open>c\<close> inside \<open>acquire\<close> or \<open>release\<close>.\<close>

definition lock_code :: "nat \<Rightarrow> spin \<Rightarrow> spin" where
  "lock_code c s =
     (case pcs s c of
        AcqOff l \<Rightarrow> set_pc c (AcqLocked l) (s\<lparr>cpus := (cpus s)(c := push_off (cpus s c))\<rparr>)
      | AcqLocked l \<Rightarrow> set_pc c (if lk_locked (locks s l) \<noteq> 0 then AcqCpu l else AcqSwap l) s
      | AcqCpu l \<Rightarrow> set_pc c (if lk_cpu (locks s l) = Some c then Panicked ''acquire'' else AcqSwap l) s
      | AcqSwap l \<Rightarrow>
          if lk_locked (locks s l) \<noteq> 0 then upd_lock l (\<lambda>x. x\<lparr>lk_locked := 1\<rparr>) s
          else set_pc c (AcqSet l) ((upd_lock l (\<lambda>x. x\<lparr>lk_locked := 1\<rparr>) s)\<lparr>owned := (owned s)(c := insert l (owned s c))\<rparr>)
      | AcqSet l \<Rightarrow> set_pc c Run (upd_lock l (\<lambda>x. x\<lparr>lk_cpu := Some c\<rparr>) s)
      | RelLocked l \<Rightarrow> set_pc c (if lk_locked (locks s l) \<noteq> 0 then RelCpu l else Panicked ''release'') s
      | RelCpu l \<Rightarrow> set_pc c (if lk_cpu (locks s l) = Some c then RelClear l else Panicked ''release'') s
      | RelClear l \<Rightarrow> set_pc c (RelStore l) (upd_lock l (\<lambda>x. x\<lparr>lk_cpu := None\<rparr>) s)
      | RelStore l \<Rightarrow>
          set_pc c (RelPop l) ((upd_lock l (\<lambda>x. x\<lparr>lk_locked := 0\<rparr>) s)\<lparr>owned := (owned s)(c := owned s c - {l})\<rparr>)
      | RelPop l \<Rightarrow>
          (case pop_off (cpus s c) of
             Inl msg \<Rightarrow> set_pc c (Panicked msg) s
           | Inr x \<Rightarrow> set_pc c Run (s\<lparr>cpus := (cpus s)(c := x)\<rparr>))
      | _ \<Rightarrow> s)"

text \<open>
  The checks of \<open>sched\<close> (proc.c) before it switches to the scheduler, on CPU \<open>c\<close> for a process
  whose lock is \<open>lk\<close> and whose state is \<open>st\<close>: the panic message, if any.
\<close>

definition sched_check :: "spinlock \<Rightarrow> nat \<Rightarrow> cpu \<Rightarrow> procstate \<Rightarrow> string option" where
  "sched_check lk c x st =
     (if \<not> holding lk c then Some ''sched p->lock''
      else if c_noff x \<noteq> 1 then Some ''sched locks''
      else if st = RUNNING then Some ''sched running''
      else if c_intr x then Some ''sched interruptible''
      else None)"

section \<open>Runs of the kernel\<close>

text \<open>
  All interleavings. Kernel code outside of the lock operations acquires locks it does not
  hold and releases locks it holds, turns interrupts on when its nesting depth is 0, as the
  scheduler does, and off at any time, as a trap does.
\<close>

inductive spin_step :: "spin \<Rightarrow> spin \<Rightarrow> bool" where
  acquire: "pcs s c = Run \<Longrightarrow> l \<notin> owned s c \<Longrightarrow> spin_step s (set_pc c (AcqOff l) s)"
| release: "pcs s c = Run \<Longrightarrow> l \<in> owned s c \<Longrightarrow> spin_step s (set_pc c (RelLocked l) s)"
| code: "pcs s c \<noteq> Run \<Longrightarrow> spin_step s (lock_code c s)"
| on: "pcs s c = Run \<Longrightarrow> c_noff (cpus s c) = 0
    \<Longrightarrow> spin_step s (s\<lparr>cpus := (cpus s)(c := (cpus s c)\<lparr>c_intr := True\<rparr>)\<rparr>)"
| off: "pcs s c = Run \<Longrightarrow> spin_step s (s\<lparr>cpus := (cpus s)(c := (cpus s c)\<lparr>c_intr := False\<rparr>)\<rparr>)"

definition spin_init :: spin where
  "spin_init = \<lparr>locks = (\<lambda>_. initlock), cpus = (\<lambda>_. \<lparr>c_noff = 0, c_intena = False, c_intr = False\<rparr>),
     pcs = (\<lambda>_. Run), owned = (\<lambda>_. {})\<rparr>"

inductive spin_reach :: "spin \<Rightarrow> bool" where
  init: "spin_reach spin_init"
| step: "spin_reach s \<Longrightarrow> spin_step s t \<Longrightarrow> spin_reach t"

section \<open>Invariant\<close>

text \<open>Whether the nesting depth counts a lock that is not in \<open>owned\<close>, and the lock of the operation.\<close>

fun pending :: "lockpc \<Rightarrow> int" where
  "pending (AcqLocked l) = 1"
| "pending (AcqCpu l) = 1"
| "pending (AcqSwap l) = 1"
| "pending (RelPop l) = 1"
| "pending _ = 0"

fun taking :: "lockpc \<Rightarrow> nat set" where
  "taking (AcqOff l) = {l}"
| "taking (AcqLocked l) = {l}"
| "taking (AcqCpu l) = {l}"
| "taking (AcqSwap l) = {l}"
| "taking _ = {}"

fun giving :: "lockpc \<Rightarrow> nat set" where
  "giving (AcqSet l) = {l}"
| "giving (RelLocked l) = {l}"
| "giving (RelCpu l) = {l}"
| "giving (RelClear l) = {l}"
| "giving (RelStore l) = {l}"
| "giving _ = {}"

fun unmarked :: "lockpc \<Rightarrow> nat set" where
  "unmarked (AcqSet l) = {l}"
| "unmarked (RelStore l) = {l}"
| "unmarked _ = {}"

fun is_panicked :: "lockpc \<Rightarrow> bool" where
  "is_panicked (Panicked m) = True"
| "is_panicked _ = False"

definition cpu_inv :: "spin \<Rightarrow> nat \<Rightarrow> bool" where
  "cpu_inv s c \<longleftrightarrow> finite (owned s c) \<and> c_noff (cpus s c) = int (card (owned s c)) + pending (pcs s c)
     \<and> (c_intr (cpus s c) \<longrightarrow> c_noff (cpus s c) = 0) \<and> \<not> is_panicked (pcs s c)
     \<and> taking (pcs s c) \<inter> owned s c = {} \<and> giving (pcs s c) \<subseteq> owned s c"

definition lock_inv :: "spin \<Rightarrow> nat \<Rightarrow> bool" where
  "lock_inv s l \<longleftrightarrow> (\<forall>c d. l \<in> owned s c \<longrightarrow> l \<in> owned s d \<longrightarrow> c = d)
     \<and> lk_locked (locks s l) = (if \<exists>c. l \<in> owned s c then 1 else 0)
     \<and> (\<forall>c. lk_cpu (locks s l) = Some c \<longleftrightarrow> l \<in> owned s c \<and> l \<notin> unmarked (pcs s c))"

definition spin_inv :: "spin \<Rightarrow> bool" where
  "spin_inv s \<longleftrightarrow> (\<forall>c. cpu_inv s c) \<and> (\<forall>l. lock_inv s l)"

lemma spin_inv_init: "spin_inv spin_init"
  by (simp add: spin_inv_def spin_init_def cpu_inv_def lock_inv_def initlock_def)

text \<open>A step of CPU \<open>c\<close> leaves the other CPUs alone and touches one lock at most.\<close>

lemma spin_inv_step:
  assumes "spin_inv s"
    and "\<And>d. d \<noteq> c \<Longrightarrow> owned t d = owned s d \<and> cpus t d = cpus s d \<and> pcs t d = pcs s d"
    and "\<And>k. k \<noteq> l \<Longrightarrow> locks t k = locks s k \<and> (k \<in> owned t c \<longleftrightarrow> k \<in> owned s c)
           \<and> (k \<in> unmarked (pcs t c) \<longleftrightarrow> k \<in> unmarked (pcs s c))"
    and "cpu_inv s c \<Longrightarrow> lock_inv s l \<Longrightarrow> cpu_inv t c" and "cpu_inv s c \<Longrightarrow> lock_inv s l \<Longrightarrow> lock_inv t l"
  shows "spin_inv t"
proof -
  have s: "cpu_inv s d" "lock_inv s k" for d k using assms(1) by (auto simp: spin_inv_def)
  have "cpu_inv t d" for d
  proof (cases "d = c")
    case False
    then show ?thesis using s(1) [of d] assms(2) [OF False] unfolding cpu_inv_def by auto
  qed (use assms(4) s in blast)
  moreover have "lock_inv t k" for k
  proof (cases "k = l")
    case False
    have "k \<in> owned t d \<longleftrightarrow> k \<in> owned s d" "k \<in> unmarked (pcs t d) \<longleftrightarrow> k \<in> unmarked (pcs s d)" for d
      using assms(2) [of d] assms(3) [OF False] by (cases "d = c"; simp)+
    then show ?thesis using s(2) [of k] assms(3) [OF False] by (simp add: lock_inv_def)
  qed (use assms(5) s in blast)
  ultimately show ?thesis by (simp add: spin_inv_def)
qed

lemma pop_off_ok:
  assumes "\<not> c_intr x" "1 \<le> c_noff x"
  shows "\<exists>y. pop_off x = Inr y \<and> c_noff y = c_noff x - 1 \<and> (c_intr y \<longrightarrow> c_noff y = 0)"
  using assms by (simp add: pop_off_def Let_def)

lemma push_off_ok: "c_noff (push_off x) = c_noff x + 1" "\<not> c_intr (push_off x)"
  by (simp_all add: push_off_def Let_def)

lemmas spin_defs = lock_code_def set_pc_def upd_lock_def cpu_inv_def lock_inv_def

lemma lock_code_inv:
  assumes "spin_inv s"
  shows "spin_inv (lock_code c s)"
proof (cases "pcs s c")
  case Run
  then show ?thesis using assms by (simp add: lock_code_def)
next
  case (Panicked m)
  then show ?thesis using assms by (simp add: lock_code_def)
next
  case (AcqOff l)
  show ?thesis by (rule spin_inv_step [OF assms, of c _ l]) (auto simp: AcqOff spin_defs push_off_ok)
next
  case (AcqLocked l)
  show ?thesis by (rule spin_inv_step [OF assms, of c _ l]) (auto simp: AcqLocked spin_defs)
next
  case (AcqCpu l)
  show ?thesis by (rule spin_inv_step [OF assms, of c _ l]) (auto simp: AcqCpu spin_defs)
next
  case (AcqSwap l)
  show ?thesis by (rule spin_inv_step [OF assms, of c _ l]) (auto simp: AcqSwap spin_defs split: if_splits)
next
  case (AcqSet l)
  show ?thesis by (rule spin_inv_step [OF assms, of c _ l]) (auto simp: AcqSet spin_defs)
next
  case (RelLocked l)
  show ?thesis by (rule spin_inv_step [OF assms, of c _ l]) (auto simp: RelLocked spin_defs)
next
  case (RelCpu l)
  show ?thesis by (rule spin_inv_step [OF assms, of c _ l]) (auto simp: RelCpu spin_defs)
next
  case (RelClear l)
  show ?thesis by (rule spin_inv_step [OF assms, of c _ l]) (auto simp: RelClear spin_defs)
next
  case (RelStore l)
  let ?t = "lock_code c s"
  have t: "owned ?t = (owned s)(c := owned s c - {l})" "cpus ?t = cpus s" "pcs ?t = (pcs s)(c := RelPop l)"
    "locks ?t = (locks s)(l := (locks s l)\<lparr>lk_locked := 0\<rparr>)"
    by (simp_all add: RelStore lock_code_def set_pc_def upd_lock_def)
  have own: "l \<in> owned s c" "finite (owned s c)" and noff: "c_noff (cpus s c) = int (card (owned s c))"
    and i: "c_intr (cpus s c) \<longrightarrow> c_noff (cpus s c) = 0"
    using assms RelStore by (auto simp: spin_inv_def cpu_inv_def dest: spec [of _ c])
  have l: "lock_inv s l" using assms by (simp add: spin_inv_def)
  have free: "l \<notin> owned ?t d" for d using l own(1) by (auto simp: t lock_inv_def)
  have card: "int (card (owned s c)) = int (card (owned s c - {l})) + 1"
    using card.remove [OF own(2,1)] by simp
  show ?thesis
  proof (rule spin_inv_step [OF assms, of c _ l])
    have "c_noff (cpus s c) = int (card (owned s c - {l})) + 1" unfolding noff by (rule card)
    then show "cpu_inv ?t c" unfolding cpu_inv_def t using own(2) i by auto
    have "lk_cpu (locks s l) = None"
    proof (rule ccontr)
      assume "lk_cpu (locks s l) \<noteq> None"
      then obtain d where "lk_cpu (locks s l) = Some d" by auto
      then have "l \<in> owned s d" "l \<notin> unmarked (pcs s d)" using l by (auto simp: lock_inv_def)
      moreover have "d = c" using l own(1) calculation(1) by (auto simp: lock_inv_def)
      ultimately show False using RelStore by simp
    qed
    then show "lock_inv ?t l" unfolding lock_inv_def using free by (simp add: t)
  qed (auto simp: t RelStore)
next
  case (RelPop l)
  have ci: "cpu_inv s c" using assms by (simp add: spin_inv_def)
  then have "\<not> c_intr (cpus s c)" "1 \<le> c_noff (cpus s c)" using RelPop by (auto simp: cpu_inv_def)
  then obtain y where y: "pop_off (cpus s c) = Inr y" "c_noff y = c_noff (cpus s c) - 1" "c_intr y \<longrightarrow> c_noff y = 0"
    using pop_off_ok by blast
  show ?thesis by (rule spin_inv_step [OF assms, of c _ l]) (use y in \<open>auto simp: RelPop spin_defs\<close>)
qed

lemma spin_step_inv: "spin_step s t \<Longrightarrow> spin_inv s \<Longrightarrow> spin_inv t"
proof (induction rule: spin_step.induct)
  case (acquire s c l)
  show ?case by (rule spin_inv_step [OF acquire.prems, of c _ l])
      (use acquire.hyps in \<open>auto simp: set_pc_def cpu_inv_def lock_inv_def\<close>)
next
  case (release s c l)
  show ?case by (rule spin_inv_step [OF release.prems, of c _ l])
      (use release.hyps in \<open>auto simp: set_pc_def cpu_inv_def lock_inv_def\<close>)
next
  case (code s c)
  then show ?case by (simp add: lock_code_inv)
next
  case (on s c)
  show ?case by (rule spin_inv_step [OF on.prems, of c _ 0])
      (use on.hyps in \<open>auto simp: cpu_inv_def lock_inv_def\<close>)
next
  case (off s c)
  show ?case by (rule spin_inv_step [OF off.prems, of c _ 0])
      (use off.hyps in \<open>auto simp: cpu_inv_def lock_inv_def\<close>)
qed

lemma spin_reach_inv: "spin_reach s \<Longrightarrow> spin_inv s"
  by (induction rule: spin_reach.induct) (auto intro: spin_inv_init spin_step_inv)

section \<open>Properties\<close>

text \<open>
  C4. Spin locks give mutual exclusion on any number of CPUs and in every interleaving of their
  steps: no two CPUs own a lock, its word is 1 exactly while a CPU owns it, interrupts are
  off on a CPU that owns a lock or is acquiring one, so that no interrupt handler can spin
  on a lock of its own CPU, and no panic of \<open>acquire\<close>, \<open>release\<close> or \<open>pop_off\<close> is reached.
\<close>

theorem spin_mutex:
  assumes "spin_reach s"
  shows "(l \<in> owned s c \<and> l \<in> owned s d \<longrightarrow> c = d)
     \<and> (lk_locked (locks s l) = 1 \<longleftrightarrow> (\<exists>e. l \<in> owned s e))
     \<and> (owned s c \<noteq> {} \<or> pcs s c = AcqSwap l \<longrightarrow> \<not> c_intr (cpus s c))
     \<and> (\<forall>msg. pcs s c \<noteq> Panicked msg)"
proof -
  have "cpu_inv s c" "lock_inv s l" using spin_reach_inv [OF assms] by (auto simp: spin_inv_def)
  then have c: "finite (owned s c)" "c_noff (cpus s c) = int (card (owned s c)) + pending (pcs s c)"
      "c_intr (cpus s c) \<longrightarrow> c_noff (cpus s c) = 0" "\<not> is_panicked (pcs s c)"
    and l: "\<forall>c d. l \<in> owned s c \<longrightarrow> l \<in> owned s d \<longrightarrow> c = d"
      "lk_locked (locks s l) = (if \<exists>c. l \<in> owned s c then 1 else 0)"
    by (auto simp: cpu_inv_def lock_inv_def)
  have "0 < card (owned s c)" if "owned s c \<noteq> {}" using that c(1) by (simp add: card_gt_0_iff)
  moreover have "0 \<le> pending (pcs s c)" by (cases "pcs s c") auto
  ultimately have "\<not> c_intr (cpus s c)" if "owned s c \<noteq> {} \<or> pcs s c = AcqSwap l"
    using that c(2,3) by (cases "owned s c = {}") auto
  then show ?thesis using l c(4) by auto
qed

text \<open>
  C28. \<open>holding\<close> (spinlock.c), called outside of the lock operations, is exact although its two
  reads race with the other CPUs: it returns true for the CPU that owns the lock and for no
  other one.
\<close>

theorem holding_exact:
  assumes "spin_reach s" "pcs s c = Run"
  shows "holding (locks s l) c \<longleftrightarrow> l \<in> owned s c"
proof -
  have "lock_inv s l" using spin_reach_inv [OF assms(1)] by (simp add: spin_inv_def)
  then show ?thesis using assms(2) by (auto simp: lock_inv_def holding_def)
qed

text \<open>
  C29. \<open>sched\<close> (proc.c) does not panic when the CPU owns the lock of its process and no other
  lock and the process is not \<open>RUNNING\<close> any more; it panics with \<open>"sched locks"\<close> when the CPU owns
  a second lock.
\<close>

theorem sched_check_exact:
  assumes "spin_reach s" "pcs s c = Run" "l \<in> owned s c" "st \<noteq> RUNNING"
  shows "sched_check (locks s l) c (cpus s c) st = (if owned s c = {l} then None else Some ''sched locks'')"
proof -
  have ci: "cpu_inv s c" and li: "lock_inv s l" using spin_reach_inv [OF assms(1)] by (auto simp: spin_inv_def)
  have "holding (locks s l) c" using li assms(2,3) by (auto simp: lock_inv_def holding_def)
  moreover have n: "c_noff (cpus s c) = int (card (owned s c))" "finite (owned s c)"
    using ci assms(2) by (simp_all add: cpu_inv_def)
  moreover have "card (owned s c) = 1 \<longleftrightarrow> owned s c = {l}"
    using assms(3) by (auto simp: card_1_singleton_iff)
  moreover have "\<not> c_intr (cpus s c)"
    using ci n assms(3) by (auto simp: cpu_inv_def)
  ultimately show ?thesis using assms(4) by (simp add: sched_check_def)
qed

text \<open>A run of two CPUs that contend for a lock, for the witnesses.\<close>

definition spin_demo :: spin where
  "spin_demo = fold lock_code [1, 0, 1, 0, 0, 0] (set_pc 1 (AcqOff 7) (set_pc 0 (AcqOff 7) spin_init))"

lemma lock_code_reach: "spin_reach s \<Longrightarrow> spin_reach (lock_code c s)"
  by (cases "pcs s c = Run") (simp add: lock_code_def, blast intro: spin_reach.step spin_step.code)

lemma fold_lock_code_reach: "spin_reach s \<Longrightarrow> spin_reach (fold lock_code cs s)"
  by (induction cs arbitrary: s) (simp_all add: lock_code_reach)

lemma spin_demo_eval:
  "pcs spin_demo = (\<lambda>_. Run)(0 := Run, 1 := AcqSwap 7)" "owned spin_demo = (\<lambda>_. {})(0 := {7})"
  "locks spin_demo 7 = \<lparr>lk_locked = 1, lk_cpu = Some 0\<rparr>"
  by (auto simp: spin_demo_def lock_code_def set_pc_def upd_lock_def spin_init_def initlock_def push_off_def fun_eq_iff)

lemma spin_demo_reach: "spin_reach spin_demo"
proof -
  have "spin_reach (set_pc 0 (AcqOff 7) spin_init)"
    by (rule spin_reach.step [OF spin_reach.init spin_step.acquire]) (simp_all add: spin_init_def)
  then have "spin_reach (set_pc 1 (AcqOff 7) (set_pc 0 (AcqOff 7) spin_init))"
    by (rule spin_reach.step [OF _ spin_step.acquire]) (simp_all add: spin_init_def set_pc_def)
  then show ?thesis unfolding spin_demo_def by (rule fold_lock_code_reach)
qed

theorem spin_mutex_witness:
  "spin_reach spin_demo \<and> (lk_locked (locks spin_demo 7) = 1 \<longleftrightarrow> (\<exists>e. 7 \<in> owned spin_demo e))
     \<and> \<not> c_intr (cpus spin_demo 0) \<and> \<not> c_intr (cpus spin_demo 1)"
  using spin_mutex [OF spin_demo_reach, of 7 0 0] spin_mutex [OF spin_demo_reach, of 7 1 1]
  by (simp add: spin_demo_reach spin_demo_eval)

theorem holding_exact_witness:
  "holding (locks spin_demo 7) 0 \<longleftrightarrow> 7 \<in> owned spin_demo 0"
  by (rule holding_exact [OF spin_demo_reach]) (simp add: spin_demo_eval)

theorem sched_check_exact_witness:
  "sched_check (locks spin_demo 7) 0 (cpus spin_demo 0) RUNNABLE = None"
  using sched_check_exact [OF spin_demo_reach, of 0 7 RUNNABLE] by (simp add: spin_demo_eval)

section \<open>Nesting of \<open>push_off\<close> and \<open>pop_off\<close>\<close>

fun pops :: "nat \<Rightarrow> cpu \<Rightarrow> string + cpu" where
  "pops 0 x = Inr x"
| "pops (Suc n) x = (case pop_off x of Inl m \<Rightarrow> Inl m | Inr y \<Rightarrow> pops n y)"

lemma pushes:
  "c_noff ((push_off ^^ n) x) = c_noff x + int n"
  "c_intr ((push_off ^^ n) x) = (n = 0 \<and> c_intr x)"
  "0 \<le> c_noff x \<Longrightarrow> c_intena ((push_off ^^ n) x) = (if c_noff x = 0 \<and> 0 < n then c_intr x else c_intena x)"
proof -
  show noff: "c_noff ((push_off ^^ n) x) = c_noff x + int n" for n
    by (induction n) (simp_all add: push_off_def Let_def)
  show intr: "c_intr ((push_off ^^ n) x) = (n = 0 \<and> c_intr x)" for n
    by (induction n) (simp_all add: push_off_def Let_def)
  show "0 \<le> c_noff x \<Longrightarrow> c_intena ((push_off ^^ n) x) = (if c_noff x = 0 \<and> 0 < n then c_intr x else c_intena x)"
  proof (induction n)
    case (Suc n)
    have "c_intena ((push_off ^^ Suc n) x) =
      (if c_noff ((push_off ^^ n) x) = 0 then c_intr ((push_off ^^ n) x) else c_intena ((push_off ^^ n) x))"
      by (simp add: push_off_def Let_def)
    then show ?case using Suc by (auto simp: noff intr)
  qed simp
qed

lemma pops_down:
  "\<not> c_intr x \<Longrightarrow> int n \<le> c_noff x \<Longrightarrow> 0 < n \<Longrightarrow>
   pops n x = Inr (x\<lparr>c_noff := c_noff x - int n, c_intr := (c_noff x = int n \<and> c_intena x)\<rparr>)"
proof (induction n arbitrary: x)
  case (Suc n)
  show ?case
  proof (cases "n = 0")
    case True
    then show ?thesis using Suc.prems by (auto simp: pop_off_def Let_def)
  next
    case False
    let ?y = "x\<lparr>c_noff := c_noff x - 1\<rparr>"
    have "pop_off x = Inr ?y" using Suc.prems False by (auto simp: pop_off_def Let_def)
    moreover have "(c_noff x - 1 = int n) = (c_noff x = 1 + int n)" "c_noff x - 1 - int n = c_noff x - (1 + int n)"
      by auto
    ultimately show ?thesis using Suc.IH [of ?y] Suc.prems False by simp
  qed
qed simp

text \<open>
  C30. \<open>push_off\<close> and \<open>pop_off\<close> nest: after \<open>n\<close> calls of \<open>push_off\<close> interrupts are off, and \<open>n\<close> calls of
  \<open>pop_off\<close> do not panic and bring back the depth and the interrupt flag of before.
\<close>

theorem push_pop_restore:
  assumes "0 \<le> c_noff x" "c_intr x \<longrightarrow> c_noff x = 0"
  shows "\<exists>y. pops n ((push_off ^^ n) x) = Inr y \<and> c_noff y = c_noff x \<and> c_intr y = c_intr x
     \<and> (0 < n \<longrightarrow> \<not> c_intr ((push_off ^^ n) x))"
proof (cases "n = 0")
  case False
  then show ?thesis
    using pops_down [of "(push_off ^^ n) x" n] assms by (auto simp: pushes)
qed simp

theorem push_pop_restore_witness:
  "\<exists>y. pops 3 ((push_off ^^ 3) \<lparr>c_noff = 0, c_intena = False, c_intr = True\<rparr>) = Inr y \<and> c_noff y = 0 \<and> c_intr y"
  using push_pop_restore [of "\<lparr>c_noff = 0, c_intena = False, c_intr = True\<rparr>" 3] by auto

end
