(* ===== verification/LogSpec.thy ===== *)
theory LogSpec
  imports Log
begin

text \<open>
  The write-ahead log on the disk alone: the header block as an encoding of a list of block
  numbers, the sequence of block writes of a commit, and what recovery makes of the disk
  after any prefix of them.
\<close>

section \<open>Words in blocks\<close>

lemma length_put_bytes: "off + length xs \<le> length bs \<Longrightarrow> length (put_bytes bs off xs) = length bs"
  by (simp add: put_bytes_def)

lemma length_put32 [simp]: "off + 4 \<le> length bs \<Longrightarrow> length (put32 bs off w) = length bs"
  by (simp add: put32_def length_put_bytes)

lemma get32_put32 [simp]: "off + 4 \<le> length bs \<Longrightarrow> get32 (put32 bs off w) off = w"
  by (simp add: get32_def put32_def put_bytes_def)

lemma get32_put32_other:
  assumes "off + 4 \<le> length bs" "off' + 4 \<le> off \<or> off + 4 \<le> off'"
  shows "get32 (put32 bs off w) off' = get32 bs off'"
proof -
  have "take 4 (drop off' (put32 bs off w)) = take 4 (drop off' bs)"
  proof (cases "off + 4 \<le> off'")
    case True
    then show ?thesis using assms(1) by (simp add: put32_def put_bytes_def)
  next
    case False
    then have o: "off' + 4 \<le> off" using assms(2) by simp
    then have "take 4 (drop off' (put32 bs off w)) = take 4 (drop off' (take off bs))"
      using assms(1) by (simp add: put32_def put_bytes_def)
    also have "\<dots> = take 4 (drop off' bs)" using o by (simp add: drop_take min_absorb1)
    finally show ?thesis .
  qed
  then show ?thesis by (simp only: get32_def)
qed

section \<open>The header block\<close>

definition header_of :: "uint list \<Rightarrow> logheader" where
  "header_of xs = \<lparr>lh_n = of_nat (length xs), lh_block = (\<lambda>i. xs ! i)\<rparr>"

definition enc_head :: "uint list \<Rightarrow> uchar list \<Rightarrow> uchar list" where
  "enc_head xs bs = encode_head (header_of xs) bs"

definition dec_head :: "uchar list \<Rightarrow> uint list" where
  "dec_head bs = map (\<lambda>i. get32 bs (4 + 4 * i)) [0..<nat (sint (get32 bs 0))]"

lemma encode_loop:
  assumes "4 + 4 * n \<le> length bs"
  shows "length (fold (\<lambda>i bs. put32 bs (4 + 4 * i) (f i)) [0..<n] bs) = length bs"
    "i < n \<Longrightarrow> get32 (fold (\<lambda>i bs. put32 bs (4 + 4 * i) (f i)) [0..<n] bs) (4 + 4 * i) = f i"
    "get32 (fold (\<lambda>i bs. put32 bs (4 + 4 * i) (f i)) [0..<n] bs) 0 = get32 bs 0"
proof -
  let ?F = "\<lambda>n. fold (\<lambda>i bs. put32 bs (4 + 4 * i) (f i)) [0..<n] bs"
  have l: "length (?F m) = length bs" if "m \<le> n" for m
    using that assms by (induction m) simp_all
  show "length (?F n) = length bs" using l by simp
  have "get32 (?F m) (4 + 4 * i) = f i" if "i < m" "m \<le> n" for m i
    using that
  proof (induction m)
    case (Suc m)
    have "4 + 4 * m + 4 \<le> length (?F m)" using l [of m] Suc.prems assms by simp
    then show ?case using Suc by (cases "i = m") (simp_all add: get32_put32_other)
  qed simp
  then show "i < n \<Longrightarrow> get32 (?F n) (4 + 4 * i) = f i" by simp
  have "get32 (?F m) 0 = get32 bs 0" if "m \<le> n" for m
    using that
  proof (induction m)
    case (Suc m)
    have "4 + 4 * m + 4 \<le> length (?F m)" using l [of m] Suc.prems assms by simp
    then show ?case using Suc by (simp add: get32_put32_other)
  qed simp
  then show "get32 (?F n) 0 = get32 bs 0" by simp
qed

lemma sint_small: "n < 2 ^ 31 \<Longrightarrow> sint (of_nat n :: uint) = int n"
  by (simp add: signed_of_nat signed_take_bit_int_eq_self)

lemma lh_count_header [simp]: "length xs \<le> 255 \<Longrightarrow> lh_count (header_of xs) = length xs"
  by (simp add: lh_count_def header_of_def sint_small)

lemma enc_dec:
  assumes "length bs = BSIZE" "length xs \<le> 255"
  shows "length (enc_head xs bs) = BSIZE" "dec_head (enc_head xs bs) = xs"
proof -
  let ?b = "put32 bs 0 (of_nat (length xs))"
  have l: "4 + 4 * length xs \<le> length ?b" using assms by simp
  have e: "enc_head xs bs = fold (\<lambda>i bs. put32 bs (4 + 4 * i) (xs ! i)) [0..<length xs] ?b"
    using assms(2) by (simp add: enc_head_def encode_head_def) (simp add: header_of_def)
  note f = encode_loop [OF l, where f = "\<lambda>i. xs ! i"]
  show "length (enc_head xs bs) = BSIZE" unfolding e f(1) using assms(1) by simp
  have "get32 (enc_head xs bs) 0 = of_nat (length xs)" unfolding e f(3) using assms(1) by simp
  then have "nat (sint (get32 (enc_head xs bs) 0)) = length xs" using assms(2) by (simp add: sint_small)
  then show "dec_head (enc_head xs bs) = xs"
    unfolding dec_head_def using f(2) e by (intro map_upt_nth_eqI) simp_all
qed

section \<open>Disks\<close>

type_synonym diskmap = "uint \<Rightarrow> uchar list"

definition apply_writes :: "(uint \<times> uchar list) list \<Rightarrow> diskmap \<Rightarrow> diskmap" where
  "apply_writes ws D = fold (\<lambda>(n, v) D. D(n := v)) ws D"

text \<open>A log of \<open>LOGSIZE\<close> blocks has one for the header and \<open>LOGSLOTS\<close> for the blocks of a transaction.\<close>

abbreviation (input) LOGSLOTS :: nat where "LOGSLOTS \<equiv> 29"

text \<open>The blocks that the log uses: the header and \<open>k\<close> blocks after it.\<close>

definition log_area :: "uint \<Rightarrow> nat \<Rightarrow> uint set" where
  "log_area start k = {start + of_nat i |i. i \<le> k}"

definition log_slot :: "uint \<Rightarrow> nat \<Rightarrow> uint" where
  "log_slot start i = start + of_nat i + 1"

text \<open>The blocks that the log on disk \<open>D\<close> has committed, and the disk with them installed.\<close>

definition log_writes :: "(uchar list \<Rightarrow> uint list) \<Rightarrow> uint \<Rightarrow> diskmap \<Rightarrow> (uint \<times> uchar list) list" where
  "log_writes dec start D = map (\<lambda>(i, n). (n, D (log_slot start i))) (enumerate 0 (dec (D start)))"

definition redo :: "(uchar list \<Rightarrow> uint list) \<Rightarrow> uint \<Rightarrow> diskmap \<Rightarrow> diskmap" where
  "redo dec start D = apply_writes (log_writes dec start D) D"

text \<open>The writes of a commit of \<open>tx\<close> when the header block is \<open>h\<close>.\<close>

definition commit_writes ::
  "(uint list \<Rightarrow> uchar list \<Rightarrow> uchar list) \<Rightarrow> uint \<Rightarrow> uchar list \<Rightarrow> (uint \<times> uchar list) list \<Rightarrow> (uint \<times> uchar list) list" where
  "commit_writes enc start h tx =
     map (\<lambda>(i, n, v). (log_slot start i, v)) (enumerate 0 tx) @ [(start, enc (map fst tx) h)]
     @ tx @ [(start, enc [] (enc (map fst tx) h))]"

lemma apply_writes_simps [simp]:
  "apply_writes [] D = D" "apply_writes ((n, v) # ws) D = apply_writes ws (D(n := v))"
  "apply_writes (ws @ ws') D = apply_writes ws' (apply_writes ws D)"
  by (simp_all add: apply_writes_def)

lemma apply_writes_other: "m \<notin> fst ` set ws \<Longrightarrow> apply_writes ws D m = D m"
  by (induction ws arbitrary: D) auto

lemma apply_writes_same: "m \<in> fst ` set ws \<Longrightarrow> apply_writes ws D m = apply_writes ws E m"
proof (induction ws arbitrary: D E)
  case (Cons w ws)
  show ?case
  proof (cases "m \<in> fst ` set ws")
    case True
    then show ?thesis using Cons.IH by (cases w) simp
  next
    case False
    then show ?thesis using Cons.prems by (cases w) (auto simp: apply_writes_other)
  qed
qed simp

lemma apply_writes_cong: "(m \<notin> fst ` set ws \<Longrightarrow> D m = E m) \<Longrightarrow> apply_writes ws D m = apply_writes ws E m"
  by (cases "m \<in> fst ` set ws") (auto simp: apply_writes_other intro: apply_writes_same)

text \<open>Writing a part of \<open>ws\<close> first makes no difference.\<close>

lemma apply_writes_again: "apply_writes ws (apply_writes (take j ws) D) m = apply_writes ws D m"
proof (rule apply_writes_cong)
  assume "m \<notin> fst ` set ws"
  then have "m \<notin> fst ` set (take j ws)" using set_take_subset [of j ws] by blast
  then show "apply_writes (take j ws) D m = D m" by (rule apply_writes_other)
qed

section \<open>Log slots\<close>

lemma log_slot_inject: "i < 2 ^ 32 \<Longrightarrow> j < 2 ^ 32 \<Longrightarrow> log_slot start i = log_slot start j \<longleftrightarrow> i = j"
  by (simp add: log_slot_def word_of_nat_eq_iff take_bit_nat_eq_self)

lemma log_slot_start: "i < 2 ^ 31 \<Longrightarrow> log_slot start i \<noteq> start"
proof
  assume i: "i < 2 ^ 31" and "log_slot start i = start"
  then have "of_nat (Suc i) = (0 :: uint)" by (simp add: log_slot_def add.assoc add.commute)
  then have "unat (of_nat (Suc i) :: uint) = 0" by simp
  moreover have "unat (of_nat (Suc i) :: uint) = Suc i"
    using i by (subst unat_of_nat) (simp add: take_bit_nat_eq_self_iff)
  ultimately show False by simp
qed

lemma log_slot_area: "i < k \<Longrightarrow> log_slot start i \<in> log_area start k"
  by (auto simp: log_slot_def log_area_def intro!: exI [of _ "Suc i"])

lemma start_area: "start \<in> log_area start k"
  by (auto simp: log_area_def intro!: exI [of _ 0])

definition slot_writes :: "uint \<Rightarrow> (uint \<times> uchar list) list \<Rightarrow> (uint \<times> uchar list) list" where
  "slot_writes start tx = map (\<lambda>(i, n, v). (log_slot start i, v)) (enumerate 0 tx)"

lemma slot_writes_nth: "i < length tx \<Longrightarrow> slot_writes start tx ! i = (log_slot start i, snd (tx ! i))"
  by (simp add: slot_writes_def nth_enumerate_eq case_prod_beta)

lemma length_slot_writes [simp]: "length (slot_writes start tx) = length tx"
  by (simp add: slot_writes_def)

lemma slot_writes_targets:
  assumes "w \<in> set (slot_writes start tx)"
  shows "\<exists>i<length tx. fst w = log_slot start i"
  using assms by (auto simp: in_set_conv_nth slot_writes_nth)

lemma apply_writes_distinct:
  "distinct (map fst ws) \<Longrightarrow> i < length ws \<Longrightarrow> apply_writes ws D (fst (ws ! i)) = snd (ws ! i)"
proof (induction ws arbitrary: D i)
  case (Cons w ws)
  show ?case
  proof (cases i)
    case 0
    then show ?thesis using Cons.prems by (cases w) (auto simp: apply_writes_other image_image)
  next
    case (Suc k)
    then show ?thesis using Cons by (cases w) simp
  qed
qed simp

lemma apply_slot_writes:
  assumes "length tx < 2 ^ 31" "i < length tx"
  shows "apply_writes (slot_writes start tx) D (log_slot start i) = snd (tx ! i)"
proof -
  have "distinct (map fst (slot_writes start tx))"
    unfolding distinct_conv_nth using assms(1) by (auto simp: slot_writes_nth log_slot_inject)
  from apply_writes_distinct [OF this] show ?thesis using assms(2) by (simp add: slot_writes_nth)
qed

section \<open>Crashes\<close>

text \<open>
  The contract of the header block that the protocol relies on: a list of at most \<open>cap\<close> block numbers
  that was written to it is read back.
\<close>

locale redo_log =
  fixes enc :: "uint list \<Rightarrow> uchar list \<Rightarrow> uchar list" and dec :: "uchar list \<Rightarrow> uint list" and cap :: nat
  assumes dec_enc: "length h = BSIZE \<Longrightarrow> length xs \<le> cap \<Longrightarrow> dec (enc xs h) = xs"
    and length_enc: "length h = BSIZE \<Longrightarrow> length xs \<le> cap \<Longrightarrow> length (enc xs h) = BSIZE"
    and cap_small: "cap < 2 ^ 31"
begin

lemma slots_home:
  assumes "length tx \<le> cap" "m \<notin> log_area start cap"
  shows "apply_writes (take j (slot_writes start tx)) D m = D m"
proof (rule apply_writes_other)
  show "m \<notin> fst ` set (take j (slot_writes start tx))"
  proof
    assume "m \<in> fst ` set (take j (slot_writes start tx))"
    then obtain w where w: "w \<in> set (take j (slot_writes start tx))" "m = fst w" by blast
    then obtain i where "i < length tx" "m = log_slot start i"
      using slot_writes_targets [OF in_set_takeD [OF w(1)]] by blast
    then show False using assms log_slot_area [of i cap start] by simp
  qed
qed

lemma slots_start:
  assumes "length tx \<le> cap"
  shows "apply_writes (take j (slot_writes start tx)) D start = D start"
proof (rule apply_writes_other)
  show "start \<notin> fst ` set (take j (slot_writes start tx))"
  proof
    assume "start \<in> fst ` set (take j (slot_writes start tx))"
    then obtain w where w: "w \<in> set (take j (slot_writes start tx))" "start = fst w" by blast
    then obtain i where "i < length tx" "start = log_slot start i"
      using slot_writes_targets [OF in_set_takeD [OF w(1)]] by blast
    then show False using assms cap_small log_slot_start [of i start] by simp
  qed
qed

lemma redo_empty: "dec (E start) = [] \<Longrightarrow> redo dec start E = E"
  by (simp add: redo_def log_writes_def)

text \<open>A disk whose log holds the committed transaction \<open>tx\<close>.\<close>

lemma log_writes_committed:
  assumes "dec (E start) = map fst tx" "\<And>i. i < length tx \<Longrightarrow> E (log_slot start i) = snd (tx ! i)"
  shows "log_writes dec start E = tx"
  using assms by (intro nth_equalityI) (simp_all add: log_writes_def nth_enumerate_eq)

lemma home_writes:
  assumes "fst ` set tx \<inter> log_area start cap = {}" "x \<in> log_area start cap"
  shows "apply_writes (take k tx) D x = D x"
  using assms set_take_subset [of k tx] by (intro apply_writes_other) blast

lemma commit_crash:
  assumes len: "length tx \<le> cap" and home: "fst ` set tx \<inter> log_area start cap = {}"
    and h: "length (D start) = BSIZE" "dec (D start) = []" and m: "m \<notin> log_area start cap"
  shows "redo dec start (apply_writes (take j (commit_writes enc start (D start) tx)) D) m
    = (if j \<le> length tx then D m else apply_writes tx D m)"
proof -
  let ?N = "length tx" let ?S = "slot_writes start tx" let ?h = "enc (map fst tx) (D start)"
  have cw: "commit_writes enc start (D start) tx = ?S @ [(start, ?h)] @ tx @ [(start, enc [] ?h)]"
    by (simp add: commit_writes_def slot_writes_def)
  have st: "start \<noteq> m" using m start_area [of start cap] by blast
  define E0 where "E0 = (apply_writes ?S D)(start := ?h)"
  have E0m: "E0 m = D m" using slots_home [OF len m, of "length tx" D] st by (simp add: E0_def)
  have lh: "length ?h = BSIZE" "dec ?h = map fst tx" using h(1) len by (simp_all add: length_enc dec_enc)
  have tx: "apply_writes tx E0 m = apply_writes tx D m" by (rule apply_writes_cong) (rule E0m)
  have "j \<le> ?N \<or> (\<exists>k. j = Suc (?N + k) \<and> k \<le> ?N) \<or> 2 * ?N + 2 \<le> j"
    by presburger
  then consider "j \<le> ?N" | k where "j = Suc (?N + k)" "k \<le> ?N" | "2 * ?N + 2 \<le> j" by blast
  then show ?thesis
  proof cases
    case 1
    then have e: "take j (commit_writes enc start (D start) tx) = take j ?S" by (simp add: cw)
    have "dec (apply_writes (take j ?S) D start) = []" using slots_start [OF len] h(2) by simp
    then show ?thesis using 1 slots_home [OF len m] by (simp add: e redo_empty)
  next
    case 2
    have e: "take j (commit_writes enc start (D start) tx) = ?S @ [(start, ?h)] @ take k tx" using 2 by (simp add: cw)
    let ?E = "apply_writes (take k tx) E0"
    have log: "?E x = E0 x" if "x \<in> log_area start cap" for x by (rule home_writes [OF home that])
    have "log_writes dec start ?E = tx"
    proof (rule log_writes_committed)
      show "dec (?E start) = map fst tx" using log [OF start_area] lh(2) by (simp add: E0_def)
    next
      fix i assume i: "i < ?N"
      have "E0 (log_slot start i) = snd (tx ! i)"
        using apply_slot_writes [of tx i start D] i len cap_small log_slot_start [of i start] by (simp add: E0_def)
      then show "?E (log_slot start i) = snd (tx ! i)" using log log_slot_area [of i cap start] i len by simp
    qed
    then have "redo dec start ?E m = apply_writes tx E0 m" by (simp add: redo_def apply_writes_again)
    then show ?thesis unfolding e using 2 tx by (simp add: E0_def)
  next
    case 3
    then have e: "take j (commit_writes enc start (D start) tx) = commit_writes enc start (D start) tx" by (simp add: cw)
    let ?E = "(apply_writes tx E0)(start := enc [] ?h)"
    have "redo dec start ?E = ?E" by (rule redo_empty) (use lh in \<open>simp add: dec_enc\<close>)
    moreover have "apply_writes (commit_writes enc start (D start) tx) D = ?E" by (simp add: cw E0_def)
    ultimately show ?thesis using 3 st tx by (simp add: e)
  qed
qed

text \<open>Recovery itself may be interrupted any number of times.\<close>

lemma recover_crash:
  assumes home: "set (dec (E start)) \<inter> log_area start cap = {}" "length (dec (E start)) \<le> cap"
    and h: "length (E start) = BSIZE" and m: "m \<notin> log_area start cap"
  shows "redo dec start (apply_writes (take j (log_writes dec start E @ [(start, enc [] (E start))])) E) m
    = redo dec start E m"
proof -
  let ?tx = "log_writes dec start E"
  have fst: "map fst ?tx = dec (E start)"
    by (intro nth_equalityI) (simp_all add: log_writes_def nth_enumerate_eq)
  then have hm: "fst ` set ?tx \<inter> log_area start cap = {}" using home(1) by (metis set_map)
  have len: "length ?tx = length (dec (E start))" using fst by (metis length_map)
  have st: "start \<noteq> m" using m start_area [of start cap] by blast
  show ?thesis
  proof (cases "j \<le> length ?tx")
    case True
    let ?E = "apply_writes (take j ?tx) E"
    have log: "?E x = E x" if "x \<in> log_area start cap" for x by (rule home_writes [OF hm that])
    have "log_writes dec start ?E = ?tx"
    proof (rule log_writes_committed)
      show "dec (?E start) = map fst ?tx" using log [OF start_area] fst by simp
    next
      fix i assume i: "i < length ?tx"
      then show "?E (log_slot start i) = snd (?tx ! i)"
        using log [OF log_slot_area [of i cap start]] len home(2) by (simp add: log_writes_def nth_enumerate_eq)
    qed
    then show ?thesis using True by (simp add: redo_def apply_writes_again)
  next
    case False
    let ?E = "(apply_writes ?tx E)(start := enc [] (E start))"
    have "redo dec start ?E = ?E" by (rule redo_empty) (use h in \<open>simp add: dec_enc\<close>)
    then show ?thesis using False st by (simp add: redo_def)
  qed
qed

end

interpretation xv6_log: redo_log enc_head dec_head LOGSLOTS
  by unfold_locales (simp_all add: enc_dec)

end
