(* ===== verification/Chain.thy ===== *)
theory Chain
  imports Prelude
begin

text \<open>
  Linked lists as chains of pointers: the predicate, and what the updates that link and unlink an
  element do to it. The buffer cache (Cache) and the user allocator (Umalloc) use them.
\<close>

section \<open>Pointer chains\<close>

text \<open>Following \<open>f\<close> from \<open>x\<close> visits the elements of the list and then reaches \<open>y\<close>.\<close>

fun chain :: "('p \<Rightarrow> 'p) \<Rightarrow> 'p \<Rightarrow> 'p list \<Rightarrow> 'p \<Rightarrow> bool" where
  "chain f x [] y \<longleftrightarrow> f x = y"
| "chain f x (a # as) y \<longleftrightarrow> f x = a \<and> chain f a as y"

lemma chain_append: "chain f x (as @ b # bs) y \<longleftrightarrow> chain f x as b \<and> chain f b bs y"
  by (induction as arbitrary: x) auto

lemma chain_upd_other: "z \<noteq> x \<Longrightarrow> z \<notin> set as \<Longrightarrow> chain (f(z := v)) x as y \<longleftrightarrow> chain f x as y"
  by (induction as arbitrary: x) auto

lemma chain_next: "chain f x as y \<Longrightarrow> f x = hd (as @ [y])"
  by (cases as) auto

lemma chain_retarget: "chain f x as y \<Longrightarrow> distinct (x # as) \<Longrightarrow> chain (f(last (x # as) := z)) x as z"
proof (induction as arbitrary: x)
  case (Cons a as)
  then show ?case by (auto simp: chain_upd_other)
qed simp

lemma chain_source: "chain f x as y \<Longrightarrow> as \<noteq> [] \<Longrightarrow> f (last as) = y"
  by (induction as arbitrary: x) auto

text \<open>Unlinking, and linking at the front and at the back.\<close>

lemma chain_remove:
  assumes "chain f x (as @ b # bs) y" "distinct (x # as @ b # bs)"
  shows "chain (f(last (x # as) := hd (bs @ [y]))) x (as @ bs) y"
proof -
  let ?g = "f(last (x # as) := hd (bs @ [y]))"
  have c: "chain f x as b" "chain f b bs y" using assms(1) by (auto simp: chain_append)
  have d: "distinct (x # as)" using assms(2) by auto
  have g: "chain ?g x as (hd (bs @ [y]))" by (rule chain_retarget [OF c(1) d])
  show ?thesis
  proof (cases bs)
    case Nil
    then show ?thesis using g by simp
  next
    case (Cons b' bs')
    have "last (x # as) \<in> set (x # as)" by (rule last_in_set) simp
    then have "last (x # as) \<noteq> b'" "last (x # as) \<notin> set bs'" using assms(2) Cons by auto
    then have "chain ?g b' bs' y" using c(2) Cons by (simp add: chain_upd_other del: last.simps)
    then show ?thesis using g Cons by (simp add: chain_append)
  qed
qed

lemma chain_push_front:
  assumes "chain f x as y" "b \<noteq> x" "b \<notin> set as" "x \<notin> set as"
  shows "chain (f(b := f x, x := b)) x (b # as) y"
  using assms by (cases as) (auto simp: chain_upd_other)

lemma chain_push_back:
  assumes "chain f x as y" "distinct (x # as)" "b \<noteq> x" "b \<notin> set as"
  shows "chain (f(b := y, last (x # as) := b)) x (as @ [b]) y"
proof -
  have "last (x # as) \<in> set (x # as)" by (rule last_in_set) simp
  then have l: "last (x # as) \<noteq> b" using assms(3,4) by auto
  have "chain (f(b := y)) x as y" using assms by (simp add: chain_upd_other)
  from chain_retarget [OF this assms(2), of b] have "chain (f(b := y, last (x # as) := b)) x as b" .
  then show ?thesis using l by (simp add: chain_append)
qed

section \<open>Rings\<close>

text \<open>A ring can be read from any of its elements.\<close>

lemma chain_rotate:
  assumes "chain f x (as @ b # bs) x"
  shows "chain f b (bs @ x # as) b"
  using assms by (simp add: chain_append)

lemma chain_nth_next:
  assumes "chain f x as y" "i \<le> length as"
  shows "f ((x # as) ! i) = (as @ [y]) ! i"
  using assms
proof (induction as arbitrary: x i)
  case (Cons a as)
  then show ?case by (cases i) auto
qed simp

lemma chain_join:
  assumes "chain f x as z" "distinct (x # as)" "bs = [] \<or> chain f (hd bs) (tl bs) y" "last (x # as) \<notin> set bs"
  shows "chain (f(last (x # as) := hd (bs @ [y]))) x (as @ bs) y"
proof -
  have g: "chain (f(last (x # as) := hd (bs @ [y]))) x as (hd (bs @ [y]))" by (rule chain_retarget [OF assms(1,2)])
  show ?thesis
  proof (cases bs)
    case Nil
    then show ?thesis using g by simp
  next
    case (Cons b bs')
    have "chain (f(last (x # as) := b)) b bs' y" using assms(3,4) Cons by (auto simp: chain_upd_other)
    then show ?thesis using g Cons by (simp add: chain_append)
  qed
qed

lemma chain_insert:
  assumes "chain f x as z" "distinct (x # as)" "bs = [] \<or> chain f (hd bs) (tl bs) y" "last (x # as) \<notin> set bs"
    "b \<notin> set (x # as @ bs)"
  shows "chain (f(b := hd (bs @ [y]), last (x # as) := b)) x (as @ b # bs) y"
proof -
  have "last (x # as) \<in> set (x # as)" by (rule last_in_set) simp
  then have l: "last (x # as) \<noteq> b" using assms(5) by auto
  have "chain (f(b := hd (bs @ [y]))) x as z" using assms(1,5) by (simp add: chain_upd_other)
  moreover have "chain (f(b := hd (bs @ [y]))) b bs y"
    using assms(3,5) by (cases bs) (auto simp: chain_upd_other)
  ultimately show ?thesis using chain_join [of "f(b := hd (bs @ [y]))" x as z "b # bs" y] assms(2,4) l by simp
qed

text \<open>The predecessor of an element of a ring.\<close>

lemma chain_pred:
  assumes c: "chain f x (as @ b # bs) x" and d: "distinct (x # as @ b # bs)" and q: "q \<in> set (x # as @ b # bs)" "f q = b"
  shows "q = last (x # as)"
proof -
  let ?L = "as @ b # bs"
  obtain i where i: "i < length (x # ?L)" "q = (x # ?L) ! i" using q(1) by (metis in_set_conv_nth)
  then have il: "i \<le> length ?L" by simp
  have n: "(?L @ [x]) ! i = b" using chain_nth_next [OF c il] i q(2) by simp
  have "distinct (?L @ [x])" using d by auto
  moreover have "(?L @ [x]) ! length as = b" by simp
  ultimately have "i = length as" using n il nth_eq_iff_index_eq [of "?L @ [x]" i "length as"] by simp
  then show ?thesis using i by (cases as rule: rev_cases) (simp_all add: nth_append)
qed

end
