(* ===== verification/Cache.thy ===== *)
theory Cache
  imports Bio Chain
begin

text \<open>
  Correctness of the buffer cache. The list threaded through \<open>prev\<close> and \<open>next\<close> is a permutation of
  the buffers, most recently released first; and the cache, with its locks and reference
  counts, is abstracted to maps from block numbers, on which \<open>bread\<close>, \<open>bwrite\<close> and \<open>brelse\<close>
  have simple effects.
\<close>

section \<open>The list of buffers\<close>

definition buf_list :: "(nat \<Rightarrow> buf) \<Rightarrow> nat list \<Rightarrow> bool" where
  "buf_list bc L \<longleftrightarrow> distinct L \<and> set L = {..<NBUF}
     \<and> chain (\<lambda>b. b_next (bc b)) HEAD L HEAD \<and> chain (\<lambda>b. b_prev (bc b)) HEAD (rev L) HEAD"

lemma buf_list_cong:
  assumes "\<And>b. b_next (bc' b) = b_next (bc b) \<and> b_prev (bc' b) = b_prev (bc b)"
  shows "buf_list bc' L = buf_list bc L"
  using assms by (simp add: buf_list_def)

lemma buf_list_distinct: "buf_list bc L \<Longrightarrow> distinct (HEAD # L)"
  by (simp add: buf_list_def)

abbreviation (input) nexts :: "(nat \<Rightarrow> buf) \<Rightarrow> nat \<Rightarrow> nat" where
  "nexts bc \<equiv> \<lambda>c. b_next (bc c)"

abbreviation (input) prevs :: "(nat \<Rightarrow> buf) \<Rightarrow> nat \<Rightarrow> nat" where
  "prevs bc \<equiv> \<lambda>c. b_prev (bc c)"

lemma link_upd:
  "nexts (bc(b := (bc b)\<lparr>b_next := v\<rparr>)) = (nexts bc)(b := v)" "prevs (bc(b := (bc b)\<lparr>b_next := v\<rparr>)) = prevs bc"
  "nexts (bc(b := (bc b)\<lparr>b_prev := v\<rparr>)) = nexts bc" "prevs (bc(b := (bc b)\<lparr>b_prev := v\<rparr>)) = (prevs bc)(b := v)"
  by (auto simp: fun_eq_iff)

lemma move_front_links:
  assumes "b_next (bc b) = n" "b_prev (bc b) = p" "n \<noteq> b" "p \<noteq> b" "b \<noteq> HEAD"
    and nx: "nx = (nexts bc)(p := n)" and pv: "pv = (prevs bc)(n := p)"
  shows "nexts (move_front b bc) = nx(b := nx HEAD, HEAD := b)"
    "prevs (move_front b bc) = pv(b := HEAD, nx HEAD := b)"
proof -
  define bc1 where "bc1 = bc(n := (bc n)\<lparr>b_prev := p\<rparr>)"
  define bc2 where "bc2 = bc1(p := (bc1 p)\<lparr>b_next := n\<rparr>)"
  define bc3 where "bc3 = bc2(b := (bc2 b)\<lparr>b_next := b_next (bc2 HEAD)\<rparr>)"
  define bc4 where "bc4 = bc3(b := (bc3 b)\<lparr>b_prev := HEAD\<rparr>)"
  define bc5 where "bc5 = bc4(b_next (bc4 HEAD) := (bc4 (b_next (bc4 HEAD)))\<lparr>b_prev := b\<rparr>)"
  have b1: "b_next (bc1 b) = n" "b_prev (bc1 b) = p" using assms by (auto simp: bc1_def)
  have mf: "move_front b bc = bc5(HEAD := (bc5 HEAD)\<lparr>b_next := b\<rparr>)"
    unfolding move_front_def Let_def assms(1,2) bc1_def [symmetric]
    unfolding b1 bc2_def [symmetric] bc3_def [symmetric] bc4_def [symmetric] bc5_def [symmetric] ..
  have n2: "nexts bc2 = nx" "prevs bc2 = pv" unfolding bc2_def bc1_def nx pv link_upd by simp_all
  have h2: "b_next (bc2 HEAD) = nx HEAD" using n2(1) by (rule fun_cong)
  have n4: "nexts bc4 = nx(b := nx HEAD)" "prevs bc4 = pv(b := HEAD)"
    unfolding bc4_def bc3_def link_upd h2 n2 by simp_all
  have "b_next (bc4 HEAD) = (nx(b := nx HEAD)) HEAD" using n4(1) by (rule fun_cong)
  then have h4: "b_next (bc4 HEAD) = nx HEAD" using assms(5) by simp
  have "nexts bc5 = nx(b := nx HEAD)" "prevs bc5 = pv(b := HEAD, nx HEAD := b)"
    unfolding bc5_def link_upd h4 n4 by simp_all
  then show "nexts (move_front b bc) = nx(b := nx HEAD, HEAD := b)"
    "prevs (move_front b bc) = pv(b := HEAD, nx HEAD := b)"
    unfolding mf link_upd by simp_all
qed

lemma link_upd_other:
  "b_valid ((bc(x := (bc x)\<lparr>b_next := v\<rparr>)) c) = b_valid (bc c)" "b_valid ((bc(x := (bc x)\<lparr>b_prev := v\<rparr>)) c) = b_valid (bc c)"
  "b_dev ((bc(x := (bc x)\<lparr>b_next := v\<rparr>)) c) = b_dev (bc c)" "b_dev ((bc(x := (bc x)\<lparr>b_prev := v\<rparr>)) c) = b_dev (bc c)"
  "b_blockno ((bc(x := (bc x)\<lparr>b_next := v\<rparr>)) c) = b_blockno (bc c)" "b_blockno ((bc(x := (bc x)\<lparr>b_prev := v\<rparr>)) c) = b_blockno (bc c)"
  "b_lock ((bc(x := (bc x)\<lparr>b_next := v\<rparr>)) c) = b_lock (bc c)" "b_lock ((bc(x := (bc x)\<lparr>b_prev := v\<rparr>)) c) = b_lock (bc c)"
  "b_refcnt ((bc(x := (bc x)\<lparr>b_next := v\<rparr>)) c) = b_refcnt (bc c)" "b_refcnt ((bc(x := (bc x)\<lparr>b_prev := v\<rparr>)) c) = b_refcnt (bc c)"
  "b_data ((bc(x := (bc x)\<lparr>b_next := v\<rparr>)) c) = b_data (bc c)" "b_data ((bc(x := (bc x)\<lparr>b_prev := v\<rparr>)) c) = b_data (bc c)"
  by simp_all

lemma move_front_other:
  "b_valid (move_front b bc c) = b_valid (bc c)" "b_dev (move_front b bc c) = b_dev (bc c)"
  "b_blockno (move_front b bc c) = b_blockno (bc c)" "b_lock (move_front b bc c) = b_lock (bc c)"
  "b_refcnt (move_front b bc c) = b_refcnt (bc c)" "b_data (move_front b bc c) = b_data (bc c)"
proof -
  define bc1 where "bc1 = bc(b_next (bc b) := (bc (b_next (bc b)))\<lparr>b_prev := b_prev (bc b)\<rparr>)"
  define bc2 where "bc2 = bc1(b_prev (bc1 b) := (bc1 (b_prev (bc1 b)))\<lparr>b_next := b_next (bc1 b)\<rparr>)"
  define bc3 where "bc3 = bc2(b := (bc2 b)\<lparr>b_next := b_next (bc2 HEAD)\<rparr>)"
  define bc4 where "bc4 = bc3(b := (bc3 b)\<lparr>b_prev := HEAD\<rparr>)"
  define bc5 where "bc5 = bc4(b_next (bc4 HEAD) := (bc4 (b_next (bc4 HEAD)))\<lparr>b_prev := b\<rparr>)"
  have mf: "move_front b bc = bc5(HEAD := (bc5 HEAD)\<lparr>b_next := b\<rparr>)"
    unfolding move_front_def Let_def bc1_def [symmetric]
    unfolding bc2_def [symmetric] bc3_def [symmetric] bc4_def [symmetric] bc5_def [symmetric] ..
  show "b_valid (move_front b bc c) = b_valid (bc c)" "b_dev (move_front b bc c) = b_dev (bc c)"
    "b_blockno (move_front b bc c) = b_blockno (bc c)" "b_lock (move_front b bc c) = b_lock (bc c)"
    "b_refcnt (move_front b bc c) = b_refcnt (bc c)" "b_data (move_front b bc c) = b_data (bc c)"
    unfolding mf link_upd_other
    unfolding bc5_def link_upd_other unfolding bc4_def link_upd_other unfolding bc3_def link_upd_other
    unfolding bc2_def link_upd_other unfolding bc1_def link_upd_other by (rule refl)+
qed

lemma last_hd_rev: "last (x # rev as) = hd (as @ [x])"
  by (cases as) simp_all

text \<open>Moving a buffer to the front moves it to the front of the list.\<close>

lemma move_front_list:
  assumes "buf_list bc L" "b < NBUF"
  shows "buf_list (move_front b bc) (b # remove1 b L)"
proof -
  have "b \<in> set L" using assms by (simp add: buf_list_def)
  then obtain as bs where L: "L = as @ b # bs" by (metis split_list)
  have d: "distinct L" "b \<notin> set as" using assms(1) L by (auto simp: buf_list_def)
  have r: "remove1 b L = as @ bs" using d L by (simp add: remove1_append)
  have dh: "distinct (HEAD # as @ b # bs)" "distinct (HEAD # rev bs @ b # rev as)"
    using buf_list_distinct [OF assms(1)] L by auto
  have c: "chain (nexts bc) HEAD (as @ b # bs) HEAD" "chain (prevs bc) HEAD (rev bs @ b # rev as) HEAD"
    using assms(1) L by (simp_all add: buf_list_def)
  let ?n = "hd (bs @ [HEAD])" and ?p = "last (HEAD # as)"
  have n: "b_next (bc b) = ?n" using c(1) by (auto simp: chain_append dest: chain_next)
  have p: "b_prev (bc b) = ?p" using c(2) last_hd_rev [of HEAD "rev as"] by (auto simp: chain_append dest: chain_next)
  let ?nx = "(nexts bc)(?p := ?n)" and ?pv = "(prevs bc)(?n := ?p)"
  have ne: "?n \<noteq> b" "?p \<noteq> b" "b \<noteq> HEAD" using dh by (cases bs; cases as rule: rev_cases; auto)+
  note mf = move_front_links [of bc b ?n ?p ?nx ?pv, OF n p ne refl refl]
  have nx: "chain ?nx HEAD (as @ bs) HEAD" by (rule chain_remove [OF c(1) dh(1)])
  have "chain ((prevs bc)(last (HEAD # rev bs) := hd (rev as @ [HEAD]))) HEAD (rev bs @ rev as) HEAD"
    by (rule chain_remove [OF c(2) dh(2)])
  then have pv: "chain ?pv HEAD (rev (as @ bs)) HEAD"
    using last_hd_rev [of HEAD bs] last_hd_rev [of HEAD "rev as"] by simp
  have h: "?nx HEAD = last (HEAD # rev (as @ bs))"
    using chain_next [OF nx] last_hd_rev [of HEAD "as @ bs"] by simp
  have "chain (nexts (move_front b bc)) HEAD (b # as @ bs) HEAD"
    unfolding mf(1) by (rule chain_push_front [OF nx]) (use dh in auto)
  moreover have "chain (prevs (move_front b bc)) HEAD (rev (as @ bs) @ [b]) HEAD"
    unfolding mf(2) h by (rule chain_push_back [OF pv]) (use dh in auto)
  moreover have "set (b # as @ bs) = {..<NBUF}" using assms(1) L by (auto simp: buf_list_def)
  ultimately show ?thesis using dh unfolding buf_list_def r by simp
qed

lemma scan_chain:
  "chain f x as HEAD \<Longrightarrow> HEAD \<notin> set as \<Longrightarrow> scan_bufs f P (f x) = Some (List.find P as)"
proof (induction as arbitrary: x)
  case Nil
  then show ?case by (subst scan_bufs.simps) simp
next
  case (Cons a as)
  then show ?case by (subst scan_bufs.simps) auto
qed

lemma scan_next:
  "buf_list bc L \<Longrightarrow> scan_bufs (nexts bc) P (b_next (bc HEAD)) = Some (List.find P L)"
  using scan_chain [of "nexts bc" HEAD L P] by (simp add: buf_list_def)

lemma scan_prev:
  "buf_list bc L \<Longrightarrow> scan_bufs (prevs bc) P (b_prev (bc HEAD)) = Some (List.find P (rev L))"
  using scan_chain [of "prevs bc" HEAD "rev L" P] by (simp add: buf_list_def)

text \<open>\<open>binit\<close> links all buffers, the last one in front.\<close>

definition ring_list :: "(nat \<Rightarrow> buf) \<Rightarrow> nat list \<Rightarrow> bool" where
  "ring_list bc L \<longleftrightarrow> chain (nexts bc) HEAD L HEAD \<and> chain (prevs bc) HEAD (rev L) HEAD"

lemma binit_step_ring:
  assumes "ring_list bc L" "distinct (HEAD # L)" "b \<noteq> HEAD" "b \<notin> set L"
  shows "ring_list (binit_step b bc) (b # L)"
proof -
  define bc1 where "bc1 = bc(b := (bc b)\<lparr>b_next := b_next (bc HEAD), b_prev := HEAD, b_lock := initsleeplock\<rparr>)"
  define bc2 where "bc2 = bc1(b_next (bc1 HEAD) := (bc1 (b_next (bc1 HEAD)))\<lparr>b_prev := b\<rparr>)"
  have e: "binit_step b bc = bc2(HEAD := (bc2 HEAD)\<lparr>b_next := b\<rparr>)"
    unfolding binit_step_def Let_def bc1_def [symmetric] bc2_def [symmetric] ..
  have l1: "nexts bc1 = (nexts bc)(b := b_next (bc HEAD))" "prevs bc1 = (prevs bc)(b := HEAD)"
    by (auto simp: bc1_def fun_eq_iff)
  have h1: "b_next (bc1 HEAD) = b_next (bc HEAD)" using assms(3) by (simp add: bc1_def)
  have c: "chain (nexts bc) HEAD L HEAD" "chain (prevs bc) HEAD (rev L) HEAD" using assms(1) by (simp_all add: ring_list_def)
  have h: "b_next (bc HEAD) = last (HEAD # rev L)" using chain_next [OF c(1)] last_hd_rev [of HEAD L] by simp
  have "nexts (binit_step b bc) = (nexts bc)(b := b_next (bc HEAD), HEAD := b)"
    "prevs (binit_step b bc) = (prevs bc)(b := HEAD, last (HEAD # rev L) := b)"
    unfolding e bc2_def link_upd l1 h1 h by simp_all
  moreover have "chain ((nexts bc)(b := nexts bc HEAD, HEAD := b)) HEAD (b # L) HEAD"
    by (rule chain_push_front [OF c(1)]) (use assms in auto)
  moreover have "chain ((prevs bc)(b := HEAD, last (HEAD # rev L) := b)) HEAD (rev L @ [b]) HEAD"
    by (rule chain_push_back [OF c(2)]) (use assms in auto)
  ultimately show ?thesis unfolding ring_list_def by simp
qed

lemma binit_list: "buf_list (bcache (binit s)) (rev [0..<NBUF])"
proof -
  have "ring_list (fold binit_step [0..<n] bc) (rev [0..<n])" if "ring_list bc []" "n \<le> NBUF" for n bc
    using that(2)
  proof (induction n)
    case 0
    then show ?case using that(1) by simp
  next
    case (Suc n)
    then show ?case by (simp add: binit_step_ring)
  qed
  moreover have "ring_list ((bcache s)(HEAD := (bcache s HEAD)\<lparr>b_prev := HEAD, b_next := HEAD\<rparr>)) []"
    by (simp add: ring_list_def)
  ultimately have "ring_list (bcache (binit s)) (rev [0..<NBUF])" unfolding binit_def by simp
  moreover have "set (rev [0..<NBUF]) = {..<NBUF}" by (simp only: set_rev set_upt) auto
  moreover have "distinct (rev [0..<NBUF])" by (simp only: distinct_rev distinct_upt)
  ultimately show ?thesis unfolding ring_list_def buf_list_def by blast
qed

section \<open>The cache as a map from block numbers\<close>

text \<open>
  The disk is device \<open>ROOTDEV\<close>, the only one. The invariant: the buffers are linked, no two of them
  hold the same block, a buffer nobody refers to is not locked and has no change that the disk lacks.
\<close>

definition caches :: "(nat \<Rightarrow> buf) \<Rightarrow> nat \<Rightarrow> uint \<Rightarrow> bool" where
  "caches bc b n \<longleftrightarrow> b < NBUF \<and> b_dev (bc b) = ROOTDEV \<and> b_blockno (bc b) = n"

definition buf_ok :: "(uint \<Rightarrow> uchar list) \<Rightarrow> buf \<Rightarrow> bool" where
  "buf_ok d x \<longleftrightarrow> (b_valid x \<longrightarrow> b_dev x = ROOTDEV \<and> length (b_data x) = BSIZE)
     \<and> (b_refcnt x = 0 \<longrightarrow> \<not> sl_locked (b_lock x) \<and> (b_valid x \<longrightarrow> b_data x = d (b_blockno x)))
     \<and> (b_refcnt x \<noteq> 0 \<longrightarrow> b_valid x)"

definition cache_inv :: "(nat \<Rightarrow> buf) \<Rightarrow> (uint \<Rightarrow> uchar list) \<Rightarrow> bool" where
  "cache_inv bc d \<longleftrightarrow> (\<exists>L. buf_list bc L) \<and> (\<forall>a b n. caches bc a n \<longrightarrow> caches bc b n \<longrightarrow> a = b)
     \<and> (\<forall>b<NBUF. buf_ok d (bc b)) \<and> (\<forall>n. length (d n) = BSIZE)"

definition find_buf :: "(nat \<Rightarrow> buf) \<Rightarrow> uint \<Rightarrow> nat option" where
  "find_buf bc n = first_idx (\<lambda>b. b_dev (bc b) = ROOTDEV \<and> b_blockno (bc b) = n) NBUF"

definition cdata :: "(nat \<Rightarrow> buf) \<Rightarrow> (uint \<Rightarrow> uchar list) \<Rightarrow> uint \<Rightarrow> uchar list" where
  "cdata bc d n = (case find_buf bc n of None \<Rightarrow> d n | Some b \<Rightarrow> if b_valid (bc b) then b_data (bc b) else d n)"

definition crefs :: "(nat \<Rightarrow> buf) \<Rightarrow> uint \<Rightarrow> uint" where
  "crefs bc n = (case find_buf bc n of None \<Rightarrow> 0 | Some b \<Rightarrow> b_refcnt (bc b))"

definition cheld :: "(nat \<Rightarrow> buf) \<Rightarrow> uint \<Rightarrow> bool" where
  "cheld bc n = (case find_buf bc n of None \<Rightarrow> False | Some b \<Rightarrow> sl_locked (b_lock (bc b)))"

lemma find_buf_None: "find_buf bc n = None \<longleftrightarrow> (\<forall>b. \<not> caches bc b n)"
  by (auto simp: find_buf_def first_idx_None caches_def)

lemma find_buf_caches: "find_buf bc n = Some b \<Longrightarrow> caches bc b n"
  by (simp add: find_buf_def first_idx_Some caches_def)

lemma cache_inv_unique: "cache_inv bc d \<Longrightarrow> caches bc a n \<Longrightarrow> caches bc b n \<Longrightarrow> a = b"
  by (auto simp: cache_inv_def)

lemma find_buf_Some: "cache_inv bc d \<Longrightarrow> caches bc b n \<Longrightarrow> find_buf bc n = Some b"
  by (metis cache_inv_unique find_buf_None find_buf_caches option.exhaust)

lemma cache_inv_buf: "cache_inv bc d \<Longrightarrow> b < NBUF \<Longrightarrow> buf_ok d (bc b)"
  by (simp add: cache_inv_def)

lemma view_cached:
  assumes "cache_inv bc d" "caches bc b n"
  shows "crefs bc n = b_refcnt (bc b)" "cheld bc n = sl_locked (b_lock (bc b))"
    "b_valid (bc b) \<Longrightarrow> cdata bc d n = b_data (bc b)"
  using find_buf_Some [OF assms] by (simp_all add: crefs_def cheld_def cdata_def)

lemma view_uncached:
  assumes "\<And>b. \<not> caches bc b n"
  shows "crefs bc n = 0" "cheld bc n = False" "cdata bc d n = d n"
  using assms find_buf_None [of bc n] by (simp_all add: crefs_def cheld_def cdata_def)

text \<open>A buffer without references is invisible.\<close>

lemma view_idle:
  assumes "cache_inv bc d" "caches bc b n" "b_refcnt (bc b) = 0"
  shows "crefs bc n = 0" "cheld bc n = False" "cdata bc d n = d n"
proof -
  have "buf_ok d (bc b)" using assms by (simp add: cache_inv_buf caches_def)
  then show "crefs bc n = 0" "cheld bc n = False" "cdata bc d n = d n"
    using view_cached [OF assms(1,2)] assms(2,3) find_buf_Some [OF assms(1,2)]
    by (auto simp: buf_ok_def caches_def cdata_def)
qed

text \<open>
  Changing one buffer: either the one that caches block \<open>n\<close>, or an idle one that caches \<open>n\<close> from now on.
\<close>

lemma view_upd:
  assumes inv: "cache_inv bc d" and b: "b < NBUF"
    and x: "b_dev x = ROOTDEV" "b_blockno x = n" "b_valid x" "b_next x = b_next (bc b)" "b_prev x = b_prev (bc b)" "buf_ok d x"
    and old: "caches bc b n \<or> b_refcnt (bc b) = 0 \<and> (\<forall>a. \<not> caches bc a n)"
  shows "cache_inv (bc(b := x)) d"
    "cdata (bc(b := x)) d = (cdata bc d)(n := b_data x)"
    "crefs (bc(b := x)) = (crefs bc)(n := b_refcnt x)"
    "cheld (bc(b := x)) = (cheld bc)(n := sl_locked (b_lock x))"
proof -
  let ?bc = "bc(b := x)"
  have cb: "caches ?bc b n" using b x by (simp add: caches_def)
  have other: "caches ?bc a m \<longleftrightarrow> caches bc a m" if "a \<noteq> b" for a m using that by (simp add: caches_def)
  have uniq: "a = a'" if "caches ?bc a m" "caches ?bc a' m" for a a' m
  proof -
    have e: "a = b" if "caches ?bc a n" for a
      using that old other [of a n] cache_inv_unique [OF inv, of a n b] by (cases "a = b") auto
    show ?thesis
    proof (cases "m = n")
      case True
      then show ?thesis using e that by blast
    next
      case False
      then have "a \<noteq> b" "a' \<noteq> b" using that x by (auto simp: caches_def)
      then show ?thesis using that other cache_inv_unique [OF inv] by blast
    qed
  qed
  have "\<exists>L. buf_list ?bc L"
  proof -
    have "buf_list ?bc L = buf_list bc L" for L by (rule buf_list_cong) (use x in simp)
    then show ?thesis using inv by (simp add: cache_inv_def)
  qed
  moreover have "buf_ok d (?bc a)" if "a < NBUF" for a
    using that x(6) cache_inv_buf [OF inv that] by (cases "a = b") simp_all
  moreover have "\<forall>n. length (d n) = BSIZE" using inv by (simp add: cache_inv_def)
  ultimately show inv': "cache_inv ?bc d" unfolding cache_inv_def using uniq by blast
  note v = view_cached [OF inv' cb]
  have rest: "crefs ?bc m = crefs bc m \<and> cheld ?bc m = cheld bc m \<and> cdata ?bc d m = cdata bc d m" if m: "m \<noteq> n" for m
  proof (cases "\<exists>a. caches ?bc a m")
    case True
    then obtain a where a: "caches ?bc a m" by blast
    then have ab: "a \<noteq> b" using m x by (auto simp: caches_def)
    then have "find_buf ?bc m = Some a" "find_buf bc m = Some a"
      using find_buf_Some [OF inv' a] find_buf_Some [OF inv] a other by auto
    then show ?thesis using ab by (simp add: crefs_def cheld_def cdata_def)
  next
    case False
    then have un: "\<And>a. \<not> caches ?bc a m" by blast
    show ?thesis
    proof (cases "caches bc b m")
      case True
      then have "b_refcnt (bc b) = 0" using old m by (auto simp: caches_def)
      then show ?thesis using view_idle [OF inv True] view_uncached [OF un] by simp
    next
      case nb: False
      have "\<not> caches bc a m" for a using un [of a] nb other [of a m] by (cases "a = b") auto
      then show ?thesis using view_uncached [OF un] view_uncached [of bc m] by simp
    qed
  qed
  show "cdata ?bc d = (cdata bc d)(n := b_data x)" "crefs ?bc = (crefs bc)(n := b_refcnt x)"
    "cheld ?bc = (cheld bc)(n := sl_locked (b_lock x))"
    using v x rest by (auto simp: fun_eq_iff)
qed

section \<open>The operations on the map\<close>

definition mypid :: "'a kproc_scheme \<Rightarrow> uint" where
  "mypid s = p_pid (proc_tab s (the (cpu_proc s)))"

text \<open>The running process holds buffer \<open>b\<close>, which caches block \<open>n\<close>.\<close>

definition holds :: "'a kbio_scheme \<Rightarrow> nat \<Rightarrow> uint \<Rightarrow> bool" where
  "holds s b n \<longleftrightarrow> caches (bcache s) b n \<and> b_valid (bcache s b) \<and> b_lock (bcache s b) = \<lparr>sl_locked = True, sl_pid = mypid s\<rparr>"

abbreviation cinv :: "'a kbio_scheme \<Rightarrow> bool" where "cinv s \<equiv> cache_inv (bcache s) (disk s)"
abbreviation block :: "'a kbio_scheme \<Rightarrow> uint \<Rightarrow> uchar list" where "block s \<equiv> cdata (bcache s) (disk s)"
abbreviation refs :: "'a kbio_scheme \<Rightarrow> uint \<Rightarrow> uint" where "refs s \<equiv> crefs (bcache s)"
abbreviation locked :: "'a kbio_scheme \<Rightarrow> uint \<Rightarrow> bool" where "locked s \<equiv> cheld (bcache s)"

lemma holds_facts:
  assumes "cinv s" "holds s b n"
  shows "refs s n = b_refcnt (bcache s b)" "locked s n" "block s n = b_data (bcache s b)" "refs s n \<noteq> 0" "b < NBUF"
    "b_valid (bcache s b)" "b_dev (bcache s b) = ROOTDEV" "b_blockno (bcache s b) = n" "length (block s n) = BSIZE"
proof -
  have c: "caches (bcache s) b n" using assms(2) by (simp add: holds_def)
  note v = view_cached [OF assms(1) c]
  have "buf_ok (disk s) (bcache s b)" using c assms(1) by (simp add: caches_def cache_inv_buf)
  then show "refs s n = b_refcnt (bcache s b)" "locked s n" "block s n = b_data (bcache s b)" "refs s n \<noteq> 0" "b < NBUF"
    "b_valid (bcache s b)" "b_dev (bcache s b) = ROOTDEV" "b_blockno (bcache s b) = n" "length (block s n) = BSIZE"
    using v assms(2) c by (auto simp: holds_def caches_def buf_ok_def)
qed

lemma lock_value: "(lk :: sleeplock)\<lparr>sl_locked := a, sl_pid := i\<rparr> = \<lparr>sl_locked = a, sl_pid = i\<rparr>"
  by (cases lk) simp

lemma lock_buf_free:
  assumes "\<not> sl_locked (b_lock (bcache s b))" "cpu_proc s = Some p"
  shows "lock_buf b s = Ret b (upd_buf b (\<lambda>x. x\<lparr>b_lock := \<lparr>sl_locked = True, sl_pid = mypid s\<rparr>\<rparr>) s)"
  using assms by (simp add: lock_buf_def acquiresleep_def myproc_def mypid_def lock_value)

text \<open>The buffer that \<open>bread\<close> returns, and what it makes of it.\<close>

definition read_buf :: "'a kbio_scheme \<Rightarrow> nat \<Rightarrow> uint \<Rightarrow> buf" where
  "read_buf s b n = (bcache s b)\<lparr>b_dev := ROOTDEV, b_blockno := n, b_valid := True, b_refcnt := refs s n + 1,
     b_lock := \<lparr>sl_locked = True, sl_pid = mypid s\<rparr>, b_data := block s n\<rparr>"

lemma bread_buf:
  assumes inv: "cinv s" and p: "cpu_proc s = Some p" and free: "\<not> locked s n"
    and room: "refs s n = 0 \<Longrightarrow> \<exists>b<NBUF. b_refcnt (bcache s b) = 0" and L: "buf_list (bcache s) L"
  shows "\<exists>b. bread ROOTDEV n s = Ret b (s\<lparr>bcache := (bcache s)(b := read_buf s b n)\<rparr>) \<and> b < NBUF
    \<and> (caches (bcache s) b n \<or> b_refcnt (bcache s b) = 0 \<and> (\<forall>a. \<not> caches (bcache s) a n)
        \<and> List.find (\<lambda>b. b_refcnt (bcache s b) = 0) (rev L) = Some b)"
proof -
  have setL: "set L = {..<NBUF}" using L by (simp add: buf_list_def)
  let ?P = "\<lambda>b. b_dev (bcache s b) = ROOTDEV \<and> b_blockno (bcache s b) = n"
  note scans = scan_next [OF L, of ?P] scan_prev [OF L, of "\<lambda>b. b_refcnt (bcache s b) = 0"]
  show ?thesis
  proof (cases "List.find ?P L")
    case (Some b)
    then have c: "caches (bcache s) b n" using setL by (auto simp: find_Some_iff caches_def set_conv_nth)
    note v = view_cached [OF inv c]
    have ok: "buf_ok (disk s) (bcache s b)" using c inv by (simp add: caches_def cache_inv_buf)
    let ?y = "(bcache s b)\<lparr>b_refcnt := b_refcnt (bcache s b) + 1, b_lock := \<lparr>sl_locked = True, sl_pid = mypid s\<rparr>\<rparr>"
    have bg: "bget ROOTDEV n s = Ret b (s\<lparr>bcache := (bcache s)(b := ?y)\<rparr>)"
      using scans Some free v p lock_buf_free [of "upd_buf b (\<lambda>x. x\<lparr>b_refcnt := b_refcnt x + 1\<rparr>) s" b p]
      by (simp add: bget_def Let_def upd_buf_def mypid_def)
    have cd: "block s n = (if b_valid (bcache s b) then b_data (bcache s b) else disk s n)"
      using find_buf_Some [OF inv c] by (simp add: cdata_def)
    have eq: "(if b_valid (bcache s b) then ?y else ?y\<lparr>b_data := disk s n, b_valid := True\<rparr>) = read_buf s b n"
      using c v(1) cd by (intro buf.equality) (simp_all add: read_buf_def caches_def)
    have "bread ROOTDEV n s = Ret b (s\<lparr>bcache := (bcache s)(b := if b_valid (bcache s b) then ?y else ?y\<lparr>b_data := disk s n, b_valid := True\<rparr>)\<rparr>)"
      using bg c by (simp add: bread_def upd_buf_def virtio_disk_rw_def caches_def Let_def)
    then have "bread ROOTDEV n s = Ret b (s\<lparr>bcache := (bcache s)(b := read_buf s b n)\<rparr>)" unfolding eq .
    then show ?thesis using c by (auto simp: caches_def)
  next
    case None
    then have un: "\<And>a. \<not> caches (bcache s) a n" using setL by (auto simp: find_None_iff caches_def)
    note v = view_uncached [of "bcache s" n, OF un]
    obtain b where f: "List.find (\<lambda>b. b_refcnt (bcache s b) = 0) (rev L) = Some b"
      using room v(1) setL by (cases "List.find (\<lambda>b. b_refcnt (bcache s b) = 0) (rev L)") (auto simp: find_None_iff)
    then have b: "b < NBUF" "b_refcnt (bcache s b) = 0"
      using setL by (auto simp: find_Some_iff) (metis length_rev lessThan_iff nth_mem set_rev)
    have ok: "buf_ok (disk s) (bcache s b)" using b(1) inv by (simp add: cache_inv_buf)
    let ?g = "\<lambda>x. x\<lparr>b_dev := ROOTDEV, b_blockno := n, b_valid := False, b_refcnt := 1\<rparr>"
    let ?y = "(?g (bcache s b))\<lparr>b_lock := \<lparr>sl_locked = True, sl_pid = mypid s\<rparr>\<rparr>"
    have bg: "bget ROOTDEV n s = Ret b (s\<lparr>bcache := (bcache s)(b := ?y)\<rparr>)"
      using scans None f p ok b(2) lock_buf_free [of "upd_buf b ?g s" b p]
      by (simp add: bget_def Let_def upd_buf_def mypid_def buf_ok_def)
    have eq: "?y\<lparr>b_data := disk s n, b_valid := True\<rparr> = read_buf s b n"
      using v by (intro buf.equality) (simp_all add: read_buf_def)
    have "bread ROOTDEV n s = Ret b (s\<lparr>bcache := (bcache s)(b := ?y\<lparr>b_data := disk s n, b_valid := True\<rparr>)\<rparr>)"
      using bg by (simp add: bread_def upd_buf_def virtio_disk_rw_def Let_def)
    then have "bread ROOTDEV n s = Ret b (s\<lparr>bcache := (bcache s)(b := read_buf s b n)\<rparr>)" unfolding eq .
    then show ?thesis using b un f by blast
  qed
qed

lemma read_buf_view:
  assumes inv: "cinv s" and b: "b < NBUF" and top: "refs s n + 1 \<noteq> 0"
    and old: "caches (bcache s) b n \<or> b_refcnt (bcache s b) = 0 \<and> (\<forall>a. \<not> caches (bcache s) a n)"
    and t: "t = s\<lparr>bcache := (bcache s)(b := read_buf s b n)\<rparr>"
  shows "cinv t" "block t = block s" "refs t = (refs s)(n := refs s n + 1)" "locked t = (locked s)(n := True)" "holds t b n"
proof -
  let ?x = "read_buf s b n"
  have len: "length (block s n) = BSIZE"
  proof (cases "find_buf (bcache s) n")
    case (Some a)
    then have "buf_ok (disk s) (bcache s a)" using find_buf_caches [OF Some] inv by (simp add: caches_def cache_inv_buf)
    then show ?thesis using Some inv by (simp add: cdata_def buf_ok_def cache_inv_def)
  qed (use inv in \<open>simp add: cdata_def cache_inv_def\<close>)
  have ok: "buf_ok (disk s) ?x" using len top by (simp add: buf_ok_def read_buf_def)
  have "b_dev ?x = ROOTDEV" "b_blockno ?x = n" "b_valid ?x" "b_next ?x = b_next (bcache s b)" "b_prev ?x = b_prev (bcache s b)"
    by (simp_all add: read_buf_def)
  note v = view_upd [OF inv b this ok old]
  have d: "b_data ?x = block s n" "b_refcnt ?x = refs s n + 1" "sl_locked (b_lock ?x)" by (simp_all add: read_buf_def)
  have e: "bcache t = (bcache s)(b := ?x)" "disk t = disk s" by (simp_all add: t)
  show "cinv t" unfolding e by (rule v(1))
  show "block t = block s" unfolding e v(2) d by simp
  show "refs t = (refs s)(n := refs s n + 1)" unfolding e v(3) d ..
  show "locked t = (locked s)(n := True)" unfolding e v(4) using d(3) by simp
  show "holds t b n" using b by (simp add: t holds_def caches_def read_buf_def mypid_def)
qed

lemma bread_view:
  assumes inv: "cinv s" and p: "cpu_proc s = Some p" and free: "\<not> locked s n" and top: "refs s n + 1 \<noteq> 0"
    and room: "refs s n = 0 \<Longrightarrow> \<exists>b<NBUF. b_refcnt (bcache s b) = 0"
  shows "\<exists>b bc. bread ROOTDEV n s = Ret b (s\<lparr>bcache := bc\<rparr>) \<and> cache_inv bc (disk s) \<and> cdata bc (disk s) = block s
    \<and> crefs bc = (refs s)(n := refs s n + 1) \<and> cheld bc = (locked s)(n := True) \<and> holds (s\<lparr>bcache := bc\<rparr>) b n
    \<and> (\<forall>a m. holds s a m \<longrightarrow> holds (s\<lparr>bcache := bc\<rparr>) a m)"
proof -
  obtain b where r: "bread ROOTDEV n s = Ret b (s\<lparr>bcache := (bcache s)(b := read_buf s b n)\<rparr>)" and b: "b < NBUF"
    and old: "caches (bcache s) b n \<or> b_refcnt (bcache s b) = 0 \<and> (\<forall>a. \<not> caches (bcache s) a n)"
    using bread_buf [OF inv p free room] inv unfolding cache_inv_def by blast
  let ?bc = "(bcache s)(b := read_buf s b n)"
  note v = read_buf_view [OF inv b top old refl]
  have "holds (s\<lparr>bcache := ?bc\<rparr>) a m" if h: "holds s a m" for a m
  proof (cases "a = b")
    case True
    have "b_refcnt (bcache s b) \<noteq> 0" using holds_facts(1,4) [OF inv h] True by simp
    then have c: "caches (bcache s) b n" using old by blast
    then have "m = n" using h True by (simp add: holds_def caches_def)
    then show ?thesis using h free True holds_facts(2) [OF inv h] by simp
  next
    case False
    then show ?thesis using h by (simp add: holds_def caches_def mypid_def)
  qed
  then show ?thesis using r v by (intro exI [of _ b] exI [of _ ?bc]) simp
qed

text \<open>The other operations on a buffer that the process holds.\<close>

lemma hold_upd:
  assumes inv: "cinv s" and h: "holds s b n"
    and g: "b_dev x = ROOTDEV" "b_blockno x = n" "b_valid x" "b_next x = b_next (bcache s b)" "b_prev x = b_prev (bcache s b)"
    and ok: "buf_ok (disk s) x"
  shows "cinv (s\<lparr>bcache := (bcache s)(b := x)\<rparr>)" "block (s\<lparr>bcache := (bcache s)(b := x)\<rparr>) = (block s)(n := b_data x)"
    "refs (s\<lparr>bcache := (bcache s)(b := x)\<rparr>) = (refs s)(n := b_refcnt x)"
    "locked (s\<lparr>bcache := (bcache s)(b := x)\<rparr>) = (locked s)(n := sl_locked (b_lock x))"
proof -
  have c: "caches (bcache s) b n" using h by (simp add: holds_def)
  then have "b < NBUF" by (simp add: caches_def)
  from view_upd [OF inv this g ok] c
  show "cinv (s\<lparr>bcache := (bcache s)(b := x)\<rparr>)" "block (s\<lparr>bcache := (bcache s)(b := x)\<rparr>) = (block s)(n := b_data x)"
    "refs (s\<lparr>bcache := (bcache s)(b := x)\<rparr>) = (refs s)(n := b_refcnt x)"
    "locked (s\<lparr>bcache := (bcache s)(b := x)\<rparr>) = (locked s)(n := sl_locked (b_lock x))" by simp_all
qed

lemma set_data_view:
  assumes "cinv s" "holds s b n" "length v = BSIZE" and t: "t = upd_buf b (\<lambda>x. x\<lparr>b_data := v\<rparr>) s"
  shows "cinv t" "block t = (block s)(n := v)" "refs t = refs s" "locked t = locked s" "holds t a m \<longleftrightarrow> holds s a m"
proof -
  note f = holds_facts [OF assms(1,2)]
  define x where "x = (bcache s b)\<lparr>b_data := v\<rparr>"
  have e: "t = s\<lparr>bcache := (bcache s)(b := x)\<rparr>" by (simp add: t upd_buf_def x_def)
  have ok: "buf_ok (disk s) x" using f assms(3) by (simp add: buf_ok_def x_def)
  have x: "b_dev x = ROOTDEV" "b_blockno x = n" "b_valid x" "b_next x = b_next (bcache s b)" "b_prev x = b_prev (bcache s b)"
    "b_data x = v" "b_refcnt x = refs s n" "sl_locked (b_lock x) = locked s n"
    using f assms(2) by (simp_all add: x_def holds_def)
  note u = hold_upd [OF assms(1,2) x(1-5) ok, folded e]
  show "cinv t" by (rule u(1))
  show "block t = (block s)(n := v)" unfolding u(2) x(6) ..
  show "refs t = refs s" unfolding u(3) x(7) by simp
  show "locked t = locked s" unfolding u(4) x(8) by simp
  show "holds t a m \<longleftrightarrow> holds s a m" by (simp add: t upd_buf_def holds_def caches_def mypid_def)
qed

lemma refcnt_view:
  assumes "cinv s" "holds s b n" "r \<noteq> 0" and t: "t = upd_buf b (\<lambda>x. x\<lparr>b_refcnt := r\<rparr>) s"
  shows "cinv t" "block t = block s" "refs t = (refs s)(n := r)" "locked t = locked s" "holds t a m \<longleftrightarrow> holds s a m"
proof -
  note f = holds_facts [OF assms(1,2)]
  define x where "x = (bcache s b)\<lparr>b_refcnt := r\<rparr>"
  have e: "t = s\<lparr>bcache := (bcache s)(b := x)\<rparr>" by (simp add: t upd_buf_def x_def)
  have ok: "buf_ok (disk s) x" using f assms(3) by (simp add: buf_ok_def x_def)
  have x: "b_dev x = ROOTDEV" "b_blockno x = n" "b_valid x" "b_next x = b_next (bcache s b)" "b_prev x = b_prev (bcache s b)"
    "b_data x = block s n" "b_refcnt x = r" "sl_locked (b_lock x) = locked s n"
    using f assms(2) by (simp_all add: x_def holds_def)
  note u = hold_upd [OF assms(1,2) x(1-5) ok, folded e]
  show "cinv t" by (rule u(1))
  show "block t = block s" unfolding u(2) x(6) by simp
  show "refs t = (refs s)(n := r)" unfolding u(3) x(7) ..
  show "locked t = locked s" unfolding u(4) x(8) by simp
  show "holds t a m \<longleftrightarrow> holds s a m" by (simp add: t upd_buf_def holds_def caches_def mypid_def)
qed

lemma pin_refcnt:
  assumes "cinv s" "holds s b n"
  shows "bunpin b s = upd_buf b (\<lambda>x. x\<lparr>b_refcnt := refs s n - 1\<rparr>) s" "bpin b s = upd_buf b (\<lambda>x. x\<lparr>b_refcnt := refs s n + 1\<rparr>) s"
  using holds_facts(1) [OF assms] by (simp_all add: bunpin_def bpin_def upd_buf_def)

lemma holding_hold:
  assumes "holds s b n" "cpu_proc s = Some p"
  shows "holdingsleep (b_lock (bcache s b)) s = Ret True s"
  using assms by (simp add: holds_def holdingsleep_def myproc_def mypid_def)

lemma bwrite_view:
  assumes inv: "cinv s" and h: "holds s b n" and p: "cpu_proc s = Some p"
    and t: "t = s\<lparr>disk := (disk s)(n := block s n), dwrites := dwrites s @ [(n, block s n)]\<rparr>"
  shows "bwrite b s = Ret () t" "cinv t" "block t = block s" "holds t a m \<longleftrightarrow> holds s a m"
proof -
  note f = holds_facts [OF inv h]
  show "bwrite b s = Ret () t" using holding_hold [OF h p] f by (simp add: bwrite_def virtio_disk_rw_def t Let_def)
  have c: "caches (bcache s) b n" using h by (simp add: holds_def)
  have "buf_ok (disk t) (bcache s a)" if a: "a < NBUF" for a
  proof -
    have "b_data (bcache s a) = block s n" if "b_valid (bcache s a)" "b_blockno (bcache s a) = n"
    proof -
      have "caches (bcache s) a n" using that a cache_inv_buf [OF inv a] by (simp add: caches_def buf_ok_def)
      then have "a = b" using c cache_inv_unique [OF inv] by blast
      then show ?thesis using f by simp
    qed
    then show ?thesis using cache_inv_buf [OF inv a] by (auto simp: buf_ok_def t)
  qed
  then show "cinv t" using inv f(9) by (simp add: cache_inv_def t)
  show "block t = block s"
  proof
    fix m
    show "block t m = block s m"
      using f find_buf_Some [OF inv c] by (auto simp: t cdata_def split: option.split)
  qed
  show "holds t a m \<longleftrightarrow> holds s a m" by (simp add: t holds_def mypid_def)
qed

lemma brelse_view:
  assumes inv: "cinv s" and h: "holds s b n" and p: "cpu_proc s = Some p"
    and clean: "refs s n = 1 \<Longrightarrow> block s n = disk s n"
  shows "\<exists>bc. brelse b s = Ret () ((wakeup (ChBuf b) s)\<lparr>bcache := bc\<rparr>) \<and> cache_inv bc (disk s) \<and> cdata bc (disk s) = block s
    \<and> crefs bc = (refs s)(n := refs s n - 1) \<and> cheld bc = (locked s)(n := False)
    \<and> (\<forall>a m. holds s a m \<longrightarrow> m \<noteq> n \<longrightarrow> holds ((wakeup (ChBuf b) s)\<lparr>bcache := bc\<rparr>) a m)"
proof -
  note f = holds_facts [OF inv h]
  define x where "x = (bcache s b)\<lparr>b_lock := \<lparr>sl_locked = False, sl_pid = 0\<rparr>, b_refcnt := b_refcnt (bcache s b) - 1\<rparr>"
  define bc where "bc = (bcache s)(b := x)"
  define mv where "mv = (if b_refcnt x = 0 then move_front b bc else bc)"
  have ok: "buf_ok (disk s) x" using f clean by (auto simp: buf_ok_def x_def)
  have x: "b_dev x = ROOTDEV" "b_blockno x = n" "b_valid x" "b_next x = b_next (bcache s b)" "b_prev x = b_prev (bcache s b)"
    "b_data x = block s n" "b_refcnt x = refs s n - 1" "\<not> sl_locked (b_lock x)"
    using f by (simp_all add: x_def)
  note u = hold_upd [OF inv h x(1-5) ok, folded bc_def, simplified]
  have r: "brelse b s = Ret () ((wakeup (ChBuf b) s)\<lparr>bcache := mv\<rparr>)"
    using holding_hold [OF h p]
    by (simp add: brelse_def releasesleep_def lock_value upd_buf_def wakeup_def Let_def mv_def bc_def x_def)
  have same: "b_valid (mv c) = b_valid (bc c)" "b_dev (mv c) = b_dev (bc c)" "b_blockno (mv c) = b_blockno (bc c)"
    "b_lock (mv c) = b_lock (bc c)" "b_refcnt (mv c) = b_refcnt (bc c)" "b_data (mv c) = b_data (bc c)" for c
    unfolding mv_def by (simp_all add: move_front_other)
  have ca: "caches mv a m = caches bc a m" for a m using same by (simp add: caches_def)
  have fb: "find_buf mv m = find_buf bc m" for m using same by (simp add: find_buf_def)
  have okm: "buf_ok (disk s) (mv c) = buf_ok (disk s) (bc c)" for c using same by (simp add: buf_ok_def)
  obtain L where "buf_list bc L" using u(1) by (auto simp: cache_inv_def)
  then have "\<exists>L. buf_list mv L" using move_front_list [OF _ f(5)] unfolding mv_def by auto
  then have iv: "cache_inv mv (disk s)" using u(1) unfolding cache_inv_def ca okm by blast
  have view: "cdata mv (disk s) = cdata bc (disk s)" "crefs mv = crefs bc" "cheld mv = cheld bc"
    unfolding cdata_def crefs_def cheld_def fun_eq_iff fb same by simp_all
  have keep: "holds ((wakeup (ChBuf b) s)\<lparr>bcache := mv\<rparr>) a m" if "holds s a m" "m \<noteq> n" for a m
  proof -
    have ab: "a \<noteq> b" using that f by (auto simp: holds_def caches_def)
    then have "bc a = bcache s a" by (simp add: bc_def)
    then show ?thesis using that(1) same [of a] unfolding holds_def
      by (simp add: ca caches_def mypid_def wakeup_def)
  qed
  have "cdata mv (disk s) = block s" unfolding view u(2) x(6) by simp
  moreover have "crefs mv = (refs s)(n := refs s n - 1)" unfolding view u(3) x(7) ..
  moreover have "cheld mv = (locked s)(n := False)" unfolding view u(4) using x(8) by simp
  ultimately show ?thesis using r iv keep by blast
qed

section \<open>When \<open>bread\<close> does not return\<close>

lemma bread_sleeps:
  assumes inv: "cinv s" and p: "cpu_proc s = Some p" and l: "locked s n" and top: "refs s n + 1 \<noteq> 0"
  shows "\<exists>b t. bread ROOTDEV n s = Sleep (ChBuf b) t \<and> cinv t \<and> block t = block s \<and> refs t = (refs s)(n := refs s n + 1)
    \<and> locked t = locked s \<and> disk t = disk s"
proof -
  obtain L where L: "buf_list (bcache s) L" using inv by (auto simp: cache_inv_def)
  have setL: "set L = {..<NBUF}" using L by (simp add: buf_list_def)
  let ?P = "\<lambda>b. b_dev (bcache s b) = ROOTDEV \<and> b_blockno (bcache s b) = n"
  obtain a where a: "caches (bcache s) a n" using l by (auto simp: cheld_def dest: find_buf_caches split: option.splits)
  obtain b where f: "List.find ?P L = Some b" using a setL by (cases "List.find ?P L") (auto simp: find_None_iff caches_def)
  then have c: "caches (bcache s) b n" using setL by (auto simp: find_Some_iff caches_def set_conv_nth)
  note v = view_cached [OF inv c]
  have ok: "buf_ok (disk s) (bcache s b)" and b: "b < NBUF" using c inv by (simp_all add: caches_def cache_inv_buf)
  define x where "x = (bcache s b)\<lparr>b_refcnt := refs s n + 1\<rparr>"
  have lk: "sl_locked (b_lock (bcache s b))" using l v by simp
  have val: "b_valid (bcache s b)" "b_refcnt (bcache s b) \<noteq> 0" using ok lk by (auto simp: buf_ok_def)
  have x: "b_dev x = ROOTDEV" "b_blockno x = n" "b_valid x" "b_next x = b_next (bcache s b)" "b_prev x = b_prev (bcache s b)"
    "b_data x = block s n" "b_refcnt x = refs s n + 1" "sl_locked (b_lock x)"
    using c val lk find_buf_Some [OF inv c] by (simp_all add: x_def caches_def cdata_def)
  have okx: "buf_ok (disk s) x" using ok top val by (simp add: buf_ok_def x_def)
  note u = view_upd [OF inv b x(1-5) okx disjI1 [OF c]]
  let ?t = "upd_proc p (\<lambda>q. q\<lparr>p_chan := Some (ChBuf b), p_state := SLEEPING\<rparr>) (s\<lparr>bcache := (bcache s)(b := x)\<rparr>)"
  have "bget ROOTDEV n s = Sleep (ChBuf b) ?t"
    using scan_next [OF L, of ?P] f lk p v(1)
    by (simp add: bget_def Let_def lock_buf_def acquiresleep_def upd_buf_def sleep_def myproc_def x_def)
  then have r: "bread ROOTDEV n s = Sleep (ChBuf b) ?t" by (simp add: bread_def)
  have e: "bcache ?t = (bcache s)(b := x)" "disk ?t = disk s" by (simp_all add: upd_proc_def)
  have "cinv ?t" unfolding e by (rule u(1))
  moreover have "block ?t = block s" unfolding e u(2) x(6) by simp
  moreover have "refs ?t = (refs s)(n := refs s n + 1)" unfolding e u(3) x(7) ..
  moreover have "locked ?t = locked s" unfolding e u(4) using x(8) l by (simp add: fun_upd_idem)
  ultimately show ?thesis using r e(2) by blast
qed

lemma bread_panics:
  assumes inv: "cinv s" and un: "\<forall>b. \<not> caches (bcache s) b n" and full: "\<forall>b<NBUF. b_refcnt (bcache s b) \<noteq> 0"
  shows "bread ROOTDEV n s = Panic ''bget: no buffers''"
proof -
  obtain L where L: "buf_list (bcache s) L" using inv by (auto simp: cache_inv_def)
  have setL: "set L = {..<NBUF}" using L by (simp add: buf_list_def)
  let ?P = "\<lambda>b. b_dev (bcache s b) = ROOTDEV \<and> b_blockno (bcache s b) = n"
  have "List.find ?P L = None" "List.find (\<lambda>b. b_refcnt (bcache s b) = 0) (rev L) = None"
    using un full setL by (auto simp: find_None_iff caches_def)
  then show ?thesis using scan_next [OF L, of ?P] scan_prev [OF L, of "\<lambda>b. b_refcnt (bcache s b) = 0"]
    by (simp add: bread_def bget_def Let_def)
qed

end
