(* ===== verification/LogSafe.thy ===== *)
theory LogSafe
  imports LogSpec Cache
begin

text \<open>
  The log over the buffer cache: what \<open>commit\<close> and \<open>recover_from_log\<close> (kernel/log.c) write to the disk, in
  which order, and that a crash between any two of the writes leaves a disk from which the next
  boot recovers all of the transaction or nothing of it.
\<close>

section \<open>Cache steps\<close>

text \<open>The abstract state of the cache, and what the steps leave alone.\<close>

definition cst :: "'a kbio_scheme \<Rightarrow> (uint \<Rightarrow> uchar list) \<Rightarrow> (uint \<Rightarrow> uint) \<Rightarrow> (uint \<Rightarrow> bool)
    \<Rightarrow> (uint \<Rightarrow> uchar list) \<Rightarrow> (uint \<times> uchar list) list \<Rightarrow> bool" where
  "cst s B R K D W \<longleftrightarrow> cinv s \<and> block s = B \<and> refs s = R \<and> locked s = K \<and> disk s = D \<and> dwrites s = W"

definition log_same :: "'a klog_scheme \<Rightarrow> 'a klog_scheme \<Rightarrow> bool" where
  "log_same s t \<longleftrightarrow> log_start t = log_start s \<and> log_size t = log_size s \<and> log_outstanding t = log_outstanding s
     \<and> log_committing t = log_committing s \<and> log_dev t = log_dev s \<and> log_lh t = log_lh s
     \<and> cpu_proc t = cpu_proc s \<and> klog.more t = klog.more s"

lemma log_same_refl [simp]: "log_same s s"
  by (simp add: log_same_def)

lemma log_same_trans: "log_same s t \<Longrightarrow> log_same t u \<Longrightarrow> log_same s u"
  by (simp add: log_same_def)

text \<open>Fewer than \<open>NBUF\<close> blocks in use leave a buffer to recycle.\<close>

definition few :: "(uint \<Rightarrow> uint) \<Rightarrow> bool" where
  "few R \<longleftrightarrow> finite {m. R m \<noteq> 0} \<and> card {m. R m \<noteq> 0} < NBUF"

lemma few_room:
  assumes "cinv s" "few (refs s)"
  shows "\<exists>b<NBUF. b_refcnt (bcache s b) = 0"
proof (rule ccontr)
  assume "\<not> ?thesis"
  then have nz: "b_refcnt (bcache s b) \<noteq> 0" if "b < NBUF" for b using that by blast
  let ?f = "\<lambda>b. b_blockno (bcache s b)"
  have c: "caches (bcache s) b (?f b)" if "b < NBUF" for b
    using nz [OF that] cache_inv_buf [OF assms(1) that] that by (auto simp: buf_ok_def caches_def)
  have "inj_on ?f {..<NBUF}"
  proof (rule inj_onI)
    fix a b assume "a \<in> {..<NBUF}" "b \<in> {..<NBUF}" "?f a = ?f b"
    then show "a = b" using c [of a] c [of b] cache_inv_unique [OF assms(1)] by simp
  qed
  moreover have "refs s (?f b) \<noteq> 0" if "b < NBUF" for b
    using view_cached(1) [OF assms(1) c [OF that]] nz [OF that] by simp
  then have "?f ` {..<NBUF} \<subseteq> {m. refs s m \<noteq> 0}" by auto
  ultimately have "card {..<NBUF} \<le> card {m. refs s m \<noteq> 0}"
    using assms(2) by (intro card_inj_on_le) (auto simp: few_def)
  then show False using assms(2) by (simp add: few_def)
qed

lemma idle_clean:
  assumes "cst s B R K D W" "R n = 0"
  shows "B n = D n"
proof -
  have i: "cinv s" and r: "refs s n = 0" and b: "B n = block s n" "D n = disk s n"
    using assms by (auto simp: cst_def)
  show ?thesis
  proof (cases "\<exists>b. caches (bcache s) b n")
    case True
    then obtain b where c: "caches (bcache s) b n" by blast
    then show ?thesis using view_idle [OF i c] view_cached(1) [OF i c] r b by simp
  next
    case False
    then show ?thesis using view_uncached(3) [of "bcache s" n "disk s"] b by simp
  qed
qed

lemma cst_length: "cst s B R K D W \<Longrightarrow> length (B n) = BSIZE"
proof -
  assume c: "cst s B R K D W"
  then have i: "cinv s" and b: "B n = block s n" by (auto simp: cst_def)
  show ?thesis
  proof (cases "find_buf (bcache s) n")
    case (Some a)
    then have "buf_ok (disk s) (bcache s a)" using find_buf_caches [OF Some] i by (simp add: caches_def cache_inv_buf)
    then show ?thesis using Some i b by (simp add: cdata_def buf_ok_def cache_inv_def)
  qed (use i b in \<open>simp add: cdata_def cache_inv_def\<close>)
qed

lemma bread_cst:
  assumes c: "cst s B R K D W" and p: "cpu_proc s = Some p" and "\<not> K n" "R n + 1 \<noteq> 0" "R n = 0 \<Longrightarrow> few R"
  shows "\<exists>b t. bread ROOTDEV n s = Ret b t \<and> cst t B (R(n := R n + 1)) (K(n := True)) D W \<and> holds t b n
    \<and> (\<forall>a m. holds s a m \<longrightarrow> holds t a m) \<and> log_same s t"
proof -
  have i: "cinv s" and v: "block s = B" "refs s = R" "locked s = K" "disk s = D" "dwrites s = W"
    using c by (auto simp: cst_def)
  obtain b bc where r: "bread ROOTDEV n s = Ret b (s\<lparr>bcache := bc\<rparr>)" "cache_inv bc (disk s)" "cdata bc (disk s) = block s"
    "crefs bc = (refs s)(n := refs s n + 1)" "cheld bc = (locked s)(n := True)" "holds (s\<lparr>bcache := bc\<rparr>) b n"
    "\<forall>a m. holds s a m \<longrightarrow> holds (s\<lparr>bcache := bc\<rparr>) a m"
    using bread_view [OF i p, of n] assms few_room [OF i] v by auto
  then show ?thesis using v by (intro exI [of _ b] exI [of _ "s\<lparr>bcache := bc\<rparr>"]) (simp add: cst_def log_same_def)
qed

lemma set_data_cst:
  assumes c: "cst s B R K D W" and h: "holds s b n" and "length v = BSIZE" and t: "t = upd_buf b (\<lambda>x. x\<lparr>b_data := v\<rparr>) s"
  shows "cst t (B(n := v)) R K D W" "holds t a m \<longleftrightarrow> holds s a m" "log_same s t"
proof -
  have i: "cinv s" and v: "block s = B" "refs s = R" "locked s = K" "disk s = D" "dwrites s = W"
    using c by (auto simp: cst_def)
  note u = set_data_view [OF i h assms(3) t]
  show "cst t (B(n := v)) R K D W" using u v by (simp add: cst_def) (simp add: t upd_buf_def)
  show "holds t a m \<longleftrightarrow> holds s a m" by (rule u(5))
  show "log_same s t" by (simp add: t upd_buf_def log_same_def)
qed

lemma refcnt_cst:
  assumes c: "cst s B R K D W" and h: "holds s b n" and "r \<noteq> 0" and t: "t = upd_buf b (\<lambda>x. x\<lparr>b_refcnt := r\<rparr>) s"
  shows "cst t B (R(n := r)) K D W" "holds t a m \<longleftrightarrow> holds s a m" "log_same s t"
proof -
  have i: "cinv s" and v: "block s = B" "refs s = R" "locked s = K" "disk s = D" "dwrites s = W"
    using c by (auto simp: cst_def)
  note u = refcnt_view [OF i h assms(3) t]
  show "cst t B (R(n := r)) K D W" using u v by (simp add: cst_def) (simp add: t upd_buf_def)
  show "holds t a m \<longleftrightarrow> holds s a m" by (rule u(5))
  show "log_same s t" by (simp add: t upd_buf_def log_same_def)
qed

lemma cst_cinv: "cst s B R K D W \<Longrightarrow> cinv s" "cst s B R K D W \<Longrightarrow> refs s = R"
  by (auto simp: cst_def)

lemma bunpin_cst:
  assumes c: "cst s B R K D W" and h: "holds s b n" and "R n \<noteq> 1"
  shows "cst (bunpin b s) B (R(n := R n - 1)) K D W" "holds (bunpin b s) a m \<longleftrightarrow> holds s a m" "log_same s (bunpin b s)"
  using refcnt_cst [OF c h _ pin_refcnt(1) [OF cst_cinv(1) [OF c] h]] assms(3) cst_cinv(2) [OF c] by simp_all

lemma bpin_cst:
  assumes c: "cst s B R K D W" and h: "holds s b n" and "R n + 1 \<noteq> 0"
  shows "cst (bpin b s) B (R(n := R n + 1)) K D W" "holds (bpin b s) a m \<longleftrightarrow> holds s a m" "log_same s (bpin b s)"
  using refcnt_cst [OF c h _ pin_refcnt(2) [OF cst_cinv(1) [OF c] h]] assms(3) cst_cinv(2) [OF c] by simp_all

lemma bwrite_cst:
  assumes c: "cst s B R K D W" and h: "holds s b n" and p: "cpu_proc s = Some p"
  shows "\<exists>t. bwrite b s = Ret () t \<and> cst t B R K (D(n := B n)) (W @ [(n, B n)]) \<and> (\<forall>a m. holds s a m \<longrightarrow> holds t a m)
    \<and> log_same s t"
proof -
  have i: "cinv s" and v: "block s = B" "refs s = R" "locked s = K" "disk s = D" "dwrites s = W"
    using c by (auto simp: cst_def)
  define t where "t = s\<lparr>disk := (disk s)(n := block s n), dwrites := dwrites s @ [(n, block s n)]\<rparr>"
  note u = bwrite_view [OF i h p t_def]
  have "cst t B R K (D(n := B n)) (W @ [(n, B n)])" using u(2,3) v by (simp add: cst_def) (simp add: t_def)
  moreover have "log_same s t" by (simp add: t_def log_same_def)
  ultimately show ?thesis using u by blast
qed

lemma brelse_cst:
  assumes c: "cst s B R K D W" and h: "holds s b n" and p: "cpu_proc s = Some p" and "R n = 1 \<Longrightarrow> B n = D n"
  shows "\<exists>t. brelse b s = Ret () t \<and> cst t B (R(n := R n - 1)) (K(n := False)) D W
    \<and> (\<forall>a m. holds s a m \<longrightarrow> m \<noteq> n \<longrightarrow> holds t a m) \<and> log_same s t"
proof -
  have i: "cinv s" and v: "block s = B" "refs s = R" "locked s = K" "disk s = D" "dwrites s = W"
    using c by (auto simp: cst_def)
  obtain bc where r: "brelse b s = Ret () ((wakeup (ChBuf b) s)\<lparr>bcache := bc\<rparr>)" "cache_inv bc (disk s)"
    "cdata bc (disk s) = block s" "crefs bc = (refs s)(n := refs s n - 1)" "cheld bc = (locked s)(n := False)"
    "\<forall>a m. holds s a m \<longrightarrow> m \<noteq> n \<longrightarrow> holds ((wakeup (ChBuf b) s)\<lparr>bcache := bc\<rparr>) a m"
    using brelse_view [OF i h p] assms(4) v by auto
  then show ?thesis using v
    by (intro exI [of _ "(wakeup (ChBuf b) s)\<lparr>bcache := bc\<rparr>"]) (simp add: cst_def log_same_def wakeup_def)
qed

lemma cst_data:
  assumes "cst s B R K D W" "holds s b n"
  shows "b_data (bcache s b) = B n"
proof -
  have "cinv s" "block s n = B n" using assms(1) unfolding cst_def by blast+
  then show ?thesis using holds_facts(3) [OF _ assms(2)] by simp
qed

lemma upd_false [simp]: "(\<lambda>_. False)(a := False) = (\<lambda>_. False)"
  by auto

section \<open>Copying a block\<close>

text \<open>The sequence of \<open>write_log\<close>: the target is read first, then the source, which is pinned.\<close>

lemma copy_to:
  assumes c: "cst s B R (\<lambda>_. False) D W" and p: "cpu_proc s = Some p" and ne: "n \<noteq> a"
    and n: "R n = 0" "few R" and a: "R a \<noteq> 0" "R a + 1 \<noteq> 0"
  obtains to frm s1 s2 s4 s5 t where "bread ROOTDEV n s = Ret to s1" "bread ROOTDEV a s1 = Ret frm s2"
    "bwrite to (upd_buf to (\<lambda>x. x\<lparr>b_data := b_data (bcache s2 frm)\<rparr>) s2) = Ret () s4"
    "brelse frm s4 = Ret () s5" "brelse to s5 = Ret () t" "log_same s s1" "log_same s t"
    "cst t (B(n := B a)) R (\<lambda>_. False) (D(n := B a)) (W @ [(n, B a)])"
proof -
  obtain to s1 where 1: "bread ROOTDEV n s = Ret to s1" "cst s1 B (R(n := R n + 1)) ((\<lambda>_. False)(n := True)) D W"
    "holds s1 to n" "log_same s s1" using bread_cst [OF c p, of n] n by auto
  have p1: "cpu_proc s1 = Some p" using p 1(4) by (simp add: log_same_def)
  obtain frm s2 where 2: "bread ROOTDEV a s1 = Ret frm s2"
    "cst s2 B (R(n := R n + 1, a := R a + 1)) ((\<lambda>_. False)(n := True, a := True)) D W" "holds s2 frm a" "holds s2 to n"
    "log_same s1 s2"
    using bread_cst [OF 1(2) p1, of a] a ne 1(3) by auto
  have p2: "cpu_proc s2 = Some p" using p1 2(5) by (simp add: log_same_def)
  have d: "b_data (bcache s2 frm) = B a" by (rule cst_data [OF 2(2,3)])
  let ?s3 = "upd_buf to (\<lambda>x. x\<lparr>b_data := B a\<rparr>) s2"
  note 3 = set_data_cst [OF 2(2) 2(4) cst_length [OF c] refl]
  have h3: "holds ?s3 to n" "holds ?s3 frm a" using 3(2) 2(3,4) by blast+
  have p3: "cpu_proc ?s3 = Some p" using p2 3(3) [of a] by (simp add: log_same_def)
  obtain s4 where 4: "bwrite to ?s3 = Ret () s4"
    "cst s4 (B(n := B a)) (R(n := R n + 1, a := R a + 1)) ((\<lambda>_. False)(n := True, a := True)) (D(n := B a)) (W @ [(n, B a)])"
    "holds s4 to n" "holds s4 frm a" "log_same ?s3 s4"
    using bwrite_cst [OF 3(1) h3(1) p3] h3 by auto
  have p4: "cpu_proc s4 = Some p" using p3 4(5) by (simp add: log_same_def)
  have "(R(n := R n + 1, a := R a + 1)) a \<noteq> 1" using a(1) by simp
  then obtain s5 where 5: "brelse frm s4 = Ret () s5"
    "cst s5 (B(n := B a)) (R(n := R n + 1)) ((\<lambda>_. False)(n := True)) (D(n := B a)) (W @ [(n, B a)])" "holds s5 to n" "log_same s4 s5"
    using brelse_cst [OF 4(2) 4(4) p4] 4(3) ne by (auto simp: fun_upd_twist)
  have p5: "cpu_proc s5 = Some p" using p4 5(4) by (simp add: log_same_def)
  obtain t where 6: "brelse to s5 = Ret () t" "cst t (B(n := B a)) R (\<lambda>_. False) (D(n := B a)) (W @ [(n, B a)])" "log_same s5 t"
    using brelse_cst [OF 5(2) 5(3) p5] by auto
  have "log_same s t" using 1(4) 2(5) 3(3) 4(5) 5(4) 6(3) by (metis log_same_trans)
  then show thesis using that [OF 1(1) 2(1) _ 5(1) 6(1) 1(4) _ 6(2)] 4(1) d by simp
qed

text \<open>The sequence of \<open>install_trans\<close>: the source, a log block, is read first.\<close>

lemma copy_from:
  assumes c: "cst s B R (\<lambda>_. False) D W" and p: "cpu_proc s = Some p" and ne: "n \<noteq> a"
    and a: "R a = 0" "few R" and n: "R n + 1 \<noteq> 0" "R n = 0 \<Longrightarrow> few (R(a := 1))" and rc: "rec = (R n = 0)"
  obtains lb db s1 s2 s4 s6 t where "bread ROOTDEV a s = Ret lb s1" "bread ROOTDEV n s1 = Ret db s2"
    "bwrite db (upd_buf db (\<lambda>x. x\<lparr>b_data := b_data (bcache s2 lb)\<rparr>) s2) = Ret () s4"
    "brelse lb (if rec then s4 else bunpin db s4) = Ret () s6" "brelse db s6 = Ret () t" "log_same s s1" "log_same s t"
    "cst t (B(n := B a)) (if rec then R else R(n := R n - 1)) (\<lambda>_. False) (D(n := B a)) (W @ [(n, B a)])"
proof -
  obtain lb s1 where 1: "bread ROOTDEV a s = Ret lb s1" "cst s1 B (R(a := R a + 1)) ((\<lambda>_. False)(a := True)) D W"
    "holds s1 lb a" "log_same s s1" using bread_cst [OF c p, of a] a by auto
  have p1: "cpu_proc s1 = Some p" using p 1(4) by (simp add: log_same_def)
  obtain db s2 where 2: "bread ROOTDEV n s1 = Ret db s2"
    "cst s2 B (R(a := R a + 1, n := R n + 1)) ((\<lambda>_. False)(a := True, n := True)) D W" "holds s2 db n" "holds s2 lb a"
    "log_same s1 s2"
    using bread_cst [OF 1(2) p1, of n] a n ne 1(3) by auto
  have p2: "cpu_proc s2 = Some p" using p1 2(5) by (simp add: log_same_def)
  have d: "b_data (bcache s2 lb) = B a" by (rule cst_data [OF 2(2,4)])
  let ?s3 = "upd_buf db (\<lambda>x. x\<lparr>b_data := B a\<rparr>) s2"
  note 3 = set_data_cst [OF 2(2) 2(3) cst_length [OF c] refl]
  have h3: "holds ?s3 db n" "holds ?s3 lb a" using 3(2) 2(3,4) by blast+
  have p3: "cpu_proc ?s3 = Some p" using p2 3(3) [of a] by (simp add: log_same_def)
  let ?R4 = "R(a := R a + 1, n := R n + 1)" and ?K4 = "(\<lambda>_. False)(a := True, n := True)"
  obtain s4 where 4: "bwrite db ?s3 = Ret () s4" "cst s4 (B(n := B a)) ?R4 ?K4 (D(n := B a)) (W @ [(n, B a)])"
    "holds s4 db n" "holds s4 lb a" "log_same ?s3 s4"
    using bwrite_cst [OF 3(1) h3(1) p3] h3 by auto
  let ?s5 = "if rec then s4 else bunpin db s4" let ?r = "if rec then R n else R n - 1"
  have 5: "cst ?s5 (B(n := B a)) (R(a := R a + 1, n := ?r + 1)) ?K4 (D(n := B a)) (W @ [(n, B a)])"
    "holds ?s5 db n" "holds ?s5 lb a" "log_same s4 ?s5"
    using 4 bunpin_cst [OF 4(2,3)] rc by auto
  have p5: "cpu_proc ?s5 = Some p" using p3 4(5) 5(4) by (simp add: log_same_def)
  have "B a = D a" by (rule idle_clean [OF c a(1)])
  then obtain s6 where 6: "brelse lb ?s5 = Ret () s6"
    "cst s6 (B(n := B a)) (R(n := ?r + 1)) ((\<lambda>_. False)(n := True)) (D(n := B a)) (W @ [(n, B a)])" "holds s6 db n" "log_same ?s5 s6"
    using brelse_cst [OF 5(1) 5(3) p5] 5(2) ne a(1) by (auto simp: fun_upd_twist fun_upd_idem)
  have p6: "cpu_proc s6 = Some p" using p5 6(4) by (simp add: log_same_def)
  obtain t where 7: "brelse db s6 = Ret () t" "cst t (B(n := B a)) (R(n := ?r)) (\<lambda>_. False) (D(n := B a)) (W @ [(n, B a)])" "log_same s6 t"
    using brelse_cst [OF 6(2) 6(3) p6] by auto
  have "R(n := ?r) = (if rec then R else R(n := R n - 1))" by simp
  moreover have "log_same s t" using 1(4) 2(5) 3(3) 4(5) 5(4) 6(4) 7(3) by (metis log_same_trans)
  ultimately show thesis using that [OF 1(1) 2(1) _ 6(1) 7(1) 1(4)] 4(1) d 7(2) by simp
qed

section \<open>The loops\<close>

text \<open>The in-memory log: the home blocks \<open>bl\<close> of the transaction, and the place of the log.\<close>

definition log_is :: "'a klog_scheme \<Rightarrow> uint \<Rightarrow> uint list \<Rightarrow> bool" where
  "log_is s start bl \<longleftrightarrow> log_dev s = ROOTDEV \<and> log_start s = start \<and> lh_n (log_lh s) = of_nat (length bl)
     \<and> (\<forall>i<length bl. lh_block (log_lh s) i = bl ! i)"

lemma log_is_same: "log_is s start bl \<Longrightarrow> log_same s t \<Longrightarrow> log_is t start bl"
  by (simp add: log_is_def log_same_def)

lemma cpu_same: "cpu_proc s = Some p \<Longrightarrow> log_same s t \<Longrightarrow> cpu_proc t = Some p"
  by (simp add: log_same_def)

lemma log_is_count: "log_is s start bl \<Longrightarrow> length bl \<le> LOGSLOTS \<Longrightarrow> lh_count (log_lh s) = length bl"
  by (simp add: lh_count_def log_is_def sint_small)

text \<open>References that leave room for the buffers of the log: the home blocks are pinned, the log is not in use.\<close>

definition pins :: "(uint \<Rightarrow> uint) \<Rightarrow> uint \<Rightarrow> uint list \<Rightarrow> bool" where
  "pins R start bl \<longleftrightarrow> few R \<and> (\<forall>n\<in>set bl. R n \<noteq> 0 \<and> R n + 1 \<noteq> 0) \<and> (\<forall>n\<in>log_area start LOGSLOTS. R n = 0)"

lemma pins_slot: "pins R start bl \<Longrightarrow> i < LOGSLOTS \<Longrightarrow> R (log_slot start i) = 0"
  using log_slot_area [of i LOGSLOTS start] by (simp add: pins_def)

declare write_log_loop.simps(2) [simp del] install_loop.simps(2) [simp del]

lemma write_log_loop_cst:
  assumes "cst s B R (\<lambda>_. False) D W" "cpu_proc s = Some p" "log_is s start bl" "pins R start bl"
    "length bl \<le> LOGSLOTS" "tail + k = length bl"
    and ws: "ws = map (\<lambda>i. (log_slot start i, B (bl ! i))) [tail..<length bl]"
  shows "\<exists>t. write_log_loop k tail s = Ret () t \<and> log_same s t
    \<and> cst t (apply_writes ws B) R (\<lambda>_. False) (apply_writes ws D) (W @ ws)"
  using assms
proof (induction k arbitrary: s B D W tail ws)
  case 0
  then show ?case by simp
next
  case (Suc k)
  let ?n = "log_slot start tail" and ?a = "bl ! tail"
  have tl: "tail < length bl" "tail < LOGSLOTS" using Suc.prems by simp_all
  have a: "R ?a \<noteq> 0" "R ?a + 1 \<noteq> 0" using Suc.prems(4) tl by (auto simp: pins_def)
  have n: "R ?n = 0" "few R" using pins_slot [OF Suc.prems(4) tl(2)] Suc.prems(4) by (auto simp: pins_def)
  have ne: "?n \<noteq> ?a" using n a by auto
  obtain to frm s1 s2 s4 s5 t where st: "bread ROOTDEV ?n s = Ret to s1" "bread ROOTDEV ?a s1 = Ret frm s2"
    "bwrite to (upd_buf to (\<lambda>x. x\<lparr>b_data := b_data (bcache s2 frm)\<rparr>) s2) = Ret () s4"
    "brelse frm s4 = Ret () s5" "brelse to s5 = Ret () t" "log_same s s1" "log_same s t"
    "cst t (B(?n := B ?a)) R (\<lambda>_. False) (D(?n := B ?a)) (W @ [(?n, B ?a)])"
    by (rule copy_to [OF Suc.prems(1,2) ne n a])
  have l1: "log_dev s = ROOTDEV" "log_dev s1 = ROOTDEV" "lh_block (log_lh s1) tail = ?a" "log_start s = start"
    using Suc.prems(3) st(6) tl by (auto simp: log_is_def log_same_def)
  have step: "write_log_loop (Suc k) tail s = write_log_loop k (Suc tail) t"
    using st(1-5) l1 by (simp add: log_slot_def write_log_loop.simps(2) install_loop.simps(2))
  let ?B = "B(?n := B ?a)" let ?ws = "map (\<lambda>i. (log_slot start i, ?B (bl ! i))) [Suc tail..<length bl]"
  have "?B (bl ! i) = B (bl ! i)" if "i < length bl" for i
    using nth_mem [OF that] Suc.prems(4) n(1) by (auto simp: pins_def)
  then have ws: "ws = (?n, B ?a) # ?ws" unfolding Suc.prems(7) using tl by (simp add: upt_conv_Cons)
  have e: "Suc tail + k = length bl" using Suc.prems(6) by simp
  obtain u where u: "write_log_loop k (Suc tail) t = Ret () u" "log_same t u"
    "cst u (apply_writes ?ws ?B) R (\<lambda>_. False) (apply_writes ?ws (D(?n := B ?a))) ((W @ [(?n, B ?a)]) @ ?ws)"
    using Suc.IH [OF st(8) cpu_same [OF Suc.prems(2) st(7)] log_is_same [OF Suc.prems(3) st(7)] Suc.prems(4,5) e refl]
    by blast
  then show ?case unfolding step ws using log_same_trans [OF st(7) u(2)] by (intro exI [of _ u]) simp
qed

lemma few_le: "few R \<Longrightarrow> (\<And>n. R n = 0 \<Longrightarrow> R' n = 0) \<Longrightarrow> few R'"
proof -
  assume f: "few R" and z: "\<And>n. R n = 0 \<Longrightarrow> R' n = 0"
  have "{m. R' m \<noteq> 0} \<subseteq> {m. R m \<noteq> 0}" using z by auto
  then show ?thesis using f unfolding few_def by (meson card_mono finite_subset le_less_trans)
qed

lemma few_one: "few ((\<lambda>_. 0)(a := 1))"
proof -
  have "{m. ((\<lambda>_. 0 :: uint)(a := 1)) m \<noteq> 0} = {a}" by auto
  then show ?thesis by (simp add: few_def)
qed

text \<open>References during installation: pinned home blocks when committing, none when recovering.\<close>

definition inst_refs :: "bool \<Rightarrow> (uint \<Rightarrow> uint) \<Rightarrow> uint \<Rightarrow> uint list \<Rightarrow> bool" where
  "inst_refs rec R start bl \<longleftrightarrow> (if rec then R = (\<lambda>_. 0) else pins R start bl)"

definition unpinned :: "bool \<Rightarrow> (uint \<Rightarrow> uint) \<Rightarrow> uint list \<Rightarrow> uint \<Rightarrow> uint" where
  "unpinned rec R bl = (if rec then R else (\<lambda>n. if n \<in> set bl then R n - 1 else R n))"

lemma install_loop_cst:
  assumes "cst s B R (\<lambda>_. False) D W" "cpu_proc s = Some p" "log_is s start bl" "inst_refs rec R start (drop tail bl)"
    "length bl \<le> LOGSLOTS" "tail + k = length bl" "distinct bl" "set bl \<inter> log_area start LOGSLOTS = {}"
    and ws: "ws = map (\<lambda>i. (bl ! i, B (log_slot start i))) [tail..<length bl]"
  shows "\<exists>t. install_loop rec k tail s = Ret () t \<and> log_same s t
    \<and> cst t (apply_writes ws B) (unpinned rec R (drop tail bl)) (\<lambda>_. False) (apply_writes ws D) (W @ ws)"
  using assms
proof (induction k arbitrary: s B R D W tail ws)
  case 0
  then show ?case by (simp add: unpinned_def)
next
  case (Suc k)
  let ?a = "log_slot start tail" and ?n = "bl ! tail"
  have tl: "tail < length bl" "tail < LOGSLOTS" using Suc.prems by simp_all
  have dr: "drop tail bl = ?n # drop (Suc tail) bl" using tl by (simp add: Cons_nth_drop_Suc)
  have area: "log_slot start i \<in> log_area start LOGSLOTS" if "i < LOGSLOTS" for i using that by (rule log_slot_area)
  have ne: "?n \<noteq> ?a" using area [OF tl(2)] Suc.prems(8) nth_mem [OF tl(1)] by (metis disjoint_iff)
  have a: "R ?a = 0" "few R" and n: "R ?n + 1 \<noteq> 0" "R ?n = 0 \<Longrightarrow> few (R(?a := 1))" "rec = (R ?n = 0)"
    using Suc.prems(4) area [OF tl(2)] few_one [of ?a] few_le [OF few_one [of ?a], of "\<lambda>_. 0"]
    by (auto simp: inst_refs_def pins_def dr split: if_splits)
  obtain lb db s1 s2 s4 s6 t where st: "bread ROOTDEV ?a s = Ret lb s1" "bread ROOTDEV ?n s1 = Ret db s2"
    "bwrite db (upd_buf db (\<lambda>x. x\<lparr>b_data := b_data (bcache s2 lb)\<rparr>) s2) = Ret () s4"
    "brelse lb (if rec then s4 else bunpin db s4) = Ret () s6" "brelse db s6 = Ret () t" "log_same s s1" "log_same s t"
    "cst t (B(?n := B ?a)) (if rec then R else R(?n := R ?n - 1)) (\<lambda>_. False) (D(?n := B ?a)) (W @ [(?n, B ?a)])"
    by (rule copy_from [OF Suc.prems(1,2) ne a n])
  have l1: "log_dev s = ROOTDEV" "log_dev s1 = ROOTDEV" "lh_block (log_lh s1) tail = ?n" "log_start s = start"
    using Suc.prems(3) st(6) tl by (auto simp: log_is_def log_same_def)
  have step: "install_loop rec (Suc k) tail s = install_loop rec k (Suc tail) t"
    using st(1-5) l1 by (simp add: log_slot_def write_log_loop.simps(2) install_loop.simps(2))
  let ?R = "if rec then R else R(?n := R ?n - 1)"
  let ?B = "B(?n := B ?a)" let ?ws = "map (\<lambda>i. (bl ! i, ?B (log_slot start i))) [Suc tail..<length bl]"
  have nn: "?n \<notin> set (drop (Suc tail) bl)" using Suc.prems(7) dr by (metis distinct.simps(2) distinct_drop)
  have "?B (log_slot start i) = B (log_slot start i)" if "i < length bl" for i
    using area [of i] that Suc.prems(5,8) nth_mem [OF tl(1)] by (auto simp: disjoint_iff)
  then have ws: "ws = (?n, B ?a) # ?ws" unfolding Suc.prems(9) using tl by (simp add: upt_conv_Cons)
  have ref: "inst_refs rec ?R start (drop (Suc tail) bl)"
  proof (cases rec)
    case True
    then show ?thesis using Suc.prems(4) by (simp add: inst_refs_def)
  next
    case False
    then have "pins R start (drop tail bl)" using Suc.prems(4) by (simp add: inst_refs_def)
    moreover have "?n \<notin> log_area start LOGSLOTS" using Suc.prems(8) nth_mem [OF tl(1)] by (metis disjoint_iff)
    moreover have "few (R(?n := R ?n - 1))" by (rule few_le [OF a(2)]) (use n(3) False in auto)
    ultimately show ?thesis using False nn by (auto simp: inst_refs_def pins_def dr)
  qed
  have e: "Suc tail + k = length bl" using Suc.prems(6) by simp
  obtain u where u: "install_loop rec k (Suc tail) t = Ret () u" "log_same t u"
    "cst u (apply_writes ?ws ?B) (unpinned rec ?R (drop (Suc tail) bl)) (\<lambda>_. False) (apply_writes ?ws (D(?n := B ?a)))
      ((W @ [(?n, B ?a)]) @ ?ws)"
    using Suc.IH [OF st(8) cpu_same [OF Suc.prems(2) st(7)] log_is_same [OF Suc.prems(3) st(7)] ref Suc.prems(5) e Suc.prems(7,8) refl]
    by blast
  have "unpinned rec ?R (drop (Suc tail) bl) = unpinned rec R (drop tail bl)"
    using nn by (auto simp: unpinned_def dr fun_eq_iff)
  then show ?case unfolding step ws using u log_same_trans [OF st(7) u(2)] by (intro exI [of _ u]) simp
qed

section \<open>The header\<close>

lemma encode_head_cong:
  "lh_n lh = lh_n lh' \<Longrightarrow> (\<And>i. i < lh_count lh \<Longrightarrow> lh_block lh i = lh_block lh' i) \<Longrightarrow> encode_head lh bs = encode_head lh' bs"
proof -
  assume n: "lh_n lh = lh_n lh'" and b: "\<And>i. i < lh_count lh \<Longrightarrow> lh_block lh i = lh_block lh' i"
  have c: "lh_count lh' = lh_count lh" using n by (simp add: lh_count_def)
  show ?thesis unfolding encode_head_def n c by (rule fold_cong) (use b in auto)
qed

lemma encode_head_log:
  assumes "log_is s start bl" "length bl \<le> LOGSLOTS"
  shows "encode_head (log_lh s) h = enc_head bl h"
  unfolding enc_head_def
  by (rule encode_head_cong) (use assms log_is_count [OF assms] in \<open>auto simp: log_is_def header_of_def\<close>)

lemma write_head_cst:
  assumes c: "cst s B R (\<lambda>_. False) D W" and p: "cpu_proc s = Some p" and l: "log_is s start bl" "length bl \<le> LOGSLOTS"
    and R: "R start = 0" "few R"
  shows "\<exists>t. write_head s = Ret () t \<and> log_same s t
    \<and> cst t (B(start := enc_head bl (B start))) R (\<lambda>_. False) (D(start := enc_head bl (B start))) (W @ [(start, enc_head bl (B start))])"
proof -
  let ?H = "enc_head bl (B start)"
  have len: "length ?H = BSIZE" using enc_dec(1) [OF cst_length [OF c]] l(2) by simp
  obtain b s1 where 1: "bread ROOTDEV start s = Ret b s1"
    "cst s1 B (R(start := R start + 1)) ((\<lambda>_. False)(start := True)) D W" "holds s1 b start" "log_same s s1"
    using bread_cst [OF c p, of start] R by auto
  let ?s2 = "upd_buf b (\<lambda>x. x\<lparr>b_data := ?H\<rparr>) s1"
  note 2 = set_data_cst [OF 1(2,3) len refl]
  have h2: "holds ?s2 b start" using 2(2) 1(3) by blast
  have p2: "cpu_proc ?s2 = Some p" using cpu_same [OF cpu_same [OF p 1(4)] 2(3)] by blast
  have e: "upd_buf b (\<lambda>x. x\<lparr>b_data := encode_head (log_lh s1) (b_data x)\<rparr>) s1 = ?s2"
    using encode_head_log [OF log_is_same [OF l(1) 1(4)] l(2)] cst_data [OF 1(2,3)] by (simp add: upd_buf_def)
  obtain s3 where 3: "bwrite b ?s2 = Ret () s3"
    "cst s3 (B(start := ?H)) (R(start := R start + 1)) ((\<lambda>_. False)(start := True)) (D(start := ?H)) (W @ [(start, ?H)])"
    "holds s3 b start" "log_same ?s2 s3"
    using bwrite_cst [OF 2(1) h2 p2] h2 by auto
  obtain t where 4: "brelse b s3 = Ret () t" "cst t (B(start := ?H)) R (\<lambda>_. False) (D(start := ?H)) (W @ [(start, ?H)])" "log_same s3 t"
    using brelse_cst [OF 3(2,3) cpu_same [OF p2 3(4)]] by auto
  have "write_head s = Ret () t"
    using 1(1) 3(1) 4(1) l(1) by (simp add: write_head_def log_is_def e)
  moreover have "log_same s t" using 1(4) 2(3) 3(4) 4(3) by (metis log_same_trans)
  ultimately show ?thesis using 4(2) by blast
qed

section \<open>Commit\<close>

text \<open>
  A state in which \<open>end_op\<close> calls \<open>commit\<close>: the transaction \<open>tx\<close> pairs its home blocks with the contents they
  have in the cache; every other block is clean, nobody holds a buffer, the log on disk is empty.
\<close>

definition commit_ready :: "'a klog_scheme \<Rightarrow> uint \<Rightarrow> (uint \<times> uchar list) list \<Rightarrow> bool" where
  "commit_ready s start tx \<longleftrightarrow> (\<exists>p. cpu_proc s = Some p) \<and> cinv s \<and> locked s = (\<lambda>_. False)
     \<and> log_is s start (map fst tx) \<and> length tx < NBUF \<and> distinct (map fst tx)
     \<and> fst ` set tx \<inter> log_area start LOGSLOTS = {}
     \<and> refs s = (\<lambda>n. if n \<in> fst ` set tx then 1 else 0)
     \<and> (\<forall>(n, v)\<in>set tx. block s n = v) \<and> get32 (disk s start) 0 = 0"

lemma commit_ready_pins:
  assumes "commit_ready s start tx"
  shows "pins (refs s) start (map fst tx)"
proof -
  have r: "refs s = (\<lambda>n. if n \<in> fst ` set tx then 1 else 0)" and n: "length tx < NBUF"
    and d: "fst ` set tx \<inter> log_area start LOGSLOTS = {}" using assms by (auto simp: commit_ready_def)
  have "{m. refs s m \<noteq> 0} = fst ` set tx" unfolding r by auto
  moreover have "card (fst ` set tx) \<le> length tx" by (metis card_length length_map set_map)
  ultimately have "few (refs s)" using n by (simp add: few_def)
  then show ?thesis using d unfolding pins_def r by (auto simp: disjoint_iff)
qed

lemma commit_ready_old:
  assumes "commit_ready s start tx"
  shows "disk s n = (if n \<in> fst ` set tx then disk s n else block s n)"
proof -
  have "cst s (block s) (refs s) (locked s) (disk s) (dwrites s)" using assms by (simp add: cst_def commit_ready_def)
  from idle_clean [OF this, of n] show ?thesis using assms by (auto simp: commit_ready_def)
qed

lemma commit_ready_new:
  assumes "commit_ready s start tx"
  shows "apply_writes tx (disk s) n = block s n"
proof (cases "n \<in> fst ` set tx")
  case True
  then obtain i where i: "i < length tx" "fst (tx ! i) = n" by (auto simp: in_set_conv_nth)
  have "apply_writes tx (disk s) (fst (tx ! i)) = snd (tx ! i)"
    using assms i by (intro apply_writes_distinct) (simp_all add: commit_ready_def)
  moreover have "block s n = snd (tx ! i)"
    using assms nth_mem [OF i(1)] i(2) by (force simp: commit_ready_def)
  ultimately show ?thesis using i by simp
next
  case False
  then show ?thesis using commit_ready_old [OF assms, of n] by (simp add: apply_writes_other)
qed

lemma slot_writes_upt:
  assumes "\<And>i. i < length tx \<Longrightarrow> f i = snd (tx ! i)"
  shows "map (\<lambda>i. (log_slot start i, f i)) [0..<length tx] = slot_writes start tx"
  by (rule nth_equalityI) (simp_all add: slot_writes_nth assms)

lemma clear_head:
  assumes "cst s B R K D W" "log_is s start bl" "cpu_proc s = Some p"
  shows "cst (s\<lparr>log_lh := (log_lh s)\<lparr>lh_n := 0\<rparr>\<rparr>) B R K D W" "log_is (s\<lparr>log_lh := (log_lh s)\<lparr>lh_n := 0\<rparr>\<rparr>) start []"
    "cpu_proc (s\<lparr>log_lh := (log_lh s)\<lparr>lh_n := 0\<rparr>\<rparr>) = Some p"
  using assms by (auto simp: cst_def log_is_def)

lemma commit_exact:
  assumes r: "commit_ready s start tx" and ne: "tx \<noteq> []"
  shows "\<exists>t. commit s = Ret () t \<and> dwrites t = dwrites s @ commit_writes enc_head start (disk s start) tx
    \<and> log_is t start [] \<and> cinv t \<and> refs t = (\<lambda>_. 0) \<and> locked t = (\<lambda>_. False) \<and> block t = disk t
    \<and> disk t = apply_writes (commit_writes enc_head start (disk s start) tx) (disk s)
    \<and> cpu_proc t = cpu_proc s \<and> log_size t = log_size s \<and> log_outstanding t = log_outstanding s \<and> klog.more t = klog.more s"
proof -
  let ?B = "block s" and ?D = "disk s" and ?R = "refs s" and ?bl = "map fst tx" and ?S = "slot_writes start tx"
  let ?H = "enc_head ?bl (?D start)"
  obtain p where p: "cpu_proc s = Some p" using r by (auto simp: commit_ready_def)
  have c: "cst s ?B ?R (\<lambda>_. False) ?D (dwrites s)" and l: "log_is s start ?bl" "length ?bl \<le> LOGSLOTS" "distinct ?bl"
    "set ?bl \<inter> log_area start LOGSLOTS = {}" using r by (auto simp: commit_ready_def cst_def)
  have pin: "pins ?R start ?bl" by (rule commit_ready_pins [OF r])
  then have R: "?R start = 0" "few ?R" using start_area [of start LOGSLOTS] by (auto simp: pins_def)
  have h: "?B start = ?D start" by (rule idle_clean [OF c R(1)])
  have val: "?B (?bl ! i) = snd (tx ! i)" if "i < length tx" for i
    using r nth_mem [OF that] that by (auto simp: commit_ready_def split_beta)
  define B2 where "B2 = (apply_writes ?S ?B)(start := ?H)"
  have B2s: "B2 start = ?H" by (simp add: B2_def)
  note cnt = log_is_count [OF l(1,2)]
  obtain s1 where 1: "write_log_loop (length tx) 0 s = Ret () s1" "log_same s s1"
    "cst s1 (apply_writes ?S ?B) ?R (\<lambda>_. False) (apply_writes ?S ?D) (dwrites s @ ?S)"
    using write_log_loop_cst [OF c p l(1) pin l(2), of 0 "length tx" ?S] slot_writes_upt [of tx "\<lambda>i. ?B (?bl ! i)" start] val by auto
  have st: "apply_writes ?S X start = X start" for X
    using xv6_log.slots_start [of tx "length tx" start X] l(2) by simp
  note l1 = log_is_same [OF l(1) 1(2)] cpu_same [OF p 1(2)]
  obtain s2 where 2: "write_head s1 = Ret () s2" "log_same s1 s2"
    "cst s2 B2 ?R (\<lambda>_. False) ((apply_writes ?S ?D)(start := ?H)) ((dwrites s @ ?S) @ [(start, ?H)])"
    using write_head_cst [OF 1(3) l1(2,1) l(2) R] by (auto simp: st h B2_def)
  note l2 = log_is_same [OF l1(1) 2(2)] cpu_same [OF l1(2) 2(2)]
  have "B2 (log_slot start i) = snd (tx ! i)" if "i < length tx" for i
    using that l(2) apply_slot_writes [of tx i start ?B] log_slot_start [of i start] by (simp add: B2_def)
  then have txw: "tx = map (\<lambda>i. (?bl ! i, B2 (log_slot start i))) [0..<length ?bl]"
    by (intro nth_equalityI) simp_all
  have ir: "inst_refs False ?R start (drop 0 ?bl)" using pin by (simp add: inst_refs_def)
  obtain s3 where 3: "install_loop False (length tx) 0 s2 = Ret () s3" "log_same s2 s3"
    "cst s3 (apply_writes tx B2) (unpinned False ?R ?bl) (\<lambda>_. False)
      (apply_writes tx ((apply_writes ?S ?D)(start := ?H))) (((dwrites s @ ?S) @ [(start, ?H)]) @ tx)"
    using install_loop_cst [OF 2(3) l2(2,1) ir l(2) _ l(3,4) txw, of "length tx"] by auto
  note l3 = log_is_same [OF l2(1) 3(2)] cpu_same [OF l2(2) 3(2)]
  have u: "unpinned False ?R ?bl = (\<lambda>_. 0)" using r by (auto simp: unpinned_def commit_ready_def fun_eq_iff)
  note c3 = clear_head [OF 3(3) l3]
  have st3: "apply_writes tx X start = X start" for X
    using xv6_log.home_writes [OF _ start_area, where tx = tx and start = start and k = "length tx" and D = X] l(4) by simp
  obtain t where 4: "write_head (s3\<lparr>log_lh := (log_lh s3)\<lparr>lh_n := 0\<rparr>\<rparr>) = Ret () t" "log_same (s3\<lparr>log_lh := (log_lh s3)\<lparr>lh_n := 0\<rparr>\<rparr>) t"
    "cst t ((apply_writes tx B2)(start := enc_head [] ?H)) (\<lambda>_. 0) (\<lambda>_. False)
      ((apply_writes tx ((apply_writes ?S ?D)(start := ?H)))(start := enc_head [] ?H))
      ((((dwrites s @ ?S) @ [(start, ?H)]) @ tx) @ [(start, enc_head [] ?H)])"
    using write_head_cst [OF c3(1,3,2)] few_le [OF few_one, where R' = "\<lambda>_. 0"] by (auto simp: st3 u B2s)
  have "commit s = Ret () t"
    using 1(1) 2(1) 3(1) 4(1) ne l(1,2) cnt log_is_count [OF l2(1) l(2)]
    by (simp add: commit_def write_log_def install_trans_def log_is_def sint_small)
  moreover have "log_is t start []" by (rule log_is_same [OF c3(2) 4(2)])
  moreover have "block t = disk t" using idle_clean [OF 4(3)] 4(3) by (auto simp: cst_def fun_eq_iff)
  moreover have "cpu_proc t = cpu_proc s \<and> log_size t = log_size s \<and> log_outstanding t = log_outstanding s \<and> klog.more t = klog.more s"
    using 1(2) 2(2) 3(2) 4(2) by (simp add: log_same_def)
  ultimately show ?thesis using 4(3) by (intro exI [of _ t]) (auto simp: cst_def commit_writes_def slot_writes_def)
qed

end
