(* ===== verification/Reboot.thy ===== *)
theory Reboot
  imports Cache Bss
begin

text \<open>
  The buffer cache from the boot on: after \<open>binit\<close> the invariant of the cache holds and every block has its contents on
  disk, and the refinement of \<open>bread\<close>.
\<close>

section \<open>The state after \<open>binit\<close>\<close>

text \<open>
  What the next boot starts from: a kernel with zeroed buffers that has run \<open>binit\<close>, and the
  disk as the crash left it. The first process runs \<open>initlog\<close>.
\<close>

definition reboot :: "(uint \<Rightarrow> uchar list) \<Rightarrow> 'a kbio_scheme \<Rightarrow> 'a kbio_scheme" where
  "reboot D s = binit (s\<lparr>bcache := (\<lambda>_. buf0), disk := D\<rparr>)"

definition wiped :: "(nat \<Rightarrow> buf) \<Rightarrow> bool" where
  "wiped bc \<longleftrightarrow> (\<forall>b. \<not> b_valid (bc b) \<and> b_dev (bc b) = 0 \<and> b_refcnt (bc b) = 0 \<and> \<not> sl_locked (b_lock (bc b)))"

lemma wiped_step: "wiped bc \<Longrightarrow> wiped (binit_step b bc)"
  by (simp add: wiped_def binit_step_def Let_def initsleeplock_def)

lemma wiped_fold: "wiped bc \<Longrightarrow> wiped (fold binit_step bs bc)"
  by (induction bs arbitrary: bc) (simp_all add: wiped_step)

lemma wiped_binit:
  assumes "wiped (bcache s)"
  shows "wiped (bcache (binit s))"
proof -
  have "wiped (fold binit_step [0..<NBUF] ((bcache s)(HEAD := (bcache s HEAD)\<lparr>b_prev := HEAD, b_next := HEAD\<rparr>)))"
    by (rule wiped_fold) (use assms in \<open>simp add: wiped_def\<close>)
  then show ?thesis unfolding binit_def by simp
qed

lemma wiped_reboot: "wiped (bcache (reboot D s))"
  unfolding reboot_def by (rule wiped_binit) (simp add: wiped_def buf0_def lock0_def)

lemma reboot_view:
  assumes "\<And>n. length (D n) = BSIZE"
  shows "cinv (reboot D s)" "block (reboot D s) = D" "refs (reboot D s) = (\<lambda>_. 0)" "locked (reboot D s) = (\<lambda>_. False)"
    "disk (reboot D s) = D" "dwrites (reboot D s) = dwrites s" "buf_list (bcache (reboot D s)) (rev [0..<NBUF])"
    "\<not> caches (bcache (reboot D s)) b n"
proof -
  have w: "wiped (bcache (reboot D s))" by (rule wiped_reboot)
  show d: "disk (reboot D s) = D" "dwrites (reboot D s) = dwrites s" by (simp_all add: reboot_def binit_def)
  have no: "\<not> caches (bcache (reboot D s)) b n" for b n using w by (simp add: wiped_def caches_def)
  show "\<not> caches (bcache (reboot D s)) b n" by (rule no)
  show l: "buf_list (bcache (reboot D s)) (rev [0..<NBUF])" unfolding reboot_def by (rule binit_list)
  have "buf_ok D (bcache (reboot D s) b)" for b using w by (simp add: wiped_def buf_ok_def)
  then show "cinv (reboot D s)" using no l assms unfolding cache_inv_def d by blast
  have "find_buf (bcache (reboot D s)) n = None" for n using no by (simp add: find_buf_None)
  then show "block (reboot D s) = D" "refs (reboot D s) = (\<lambda>_. 0)" "locked (reboot D s) = (\<lambda>_. False)"
    by (auto simp: d cdata_def crefs_def cheld_def)
qed

lemma reboot_cpu [simp]: "cpu_proc (reboot D s) = cpu_proc s"
  by (simp add: reboot_def binit_def)

section \<open>Properties\<close>

text \<open>
  C3. The cache refines a map from block numbers to contents. When another process holds the block, \<open>bread\<close> takes a reference
  and sleeps. Otherwise it panics exactly when the block is not cached and every buffer is in use, and in all other cases
  returns a locked buffer with the contents of the block, changes no contents, and adds one reference; a buffer is
  recycled only for a block that is not cached, and it is the least recently released one without references.\<close>

theorem bread_refines_map:
  assumes inv: "cinv s" and L: "buf_list (bcache s) L" and p: "cpu_proc s = Some p" and top: "refs s n + 1 \<noteq> 0"
  shows "if locked s n then
      \<exists>b t. bread ROOTDEV n s = Sleep (ChBuf b) t \<and> cinv t \<and> block t = block s \<and> refs t = (refs s)(n := refs s n + 1)
        \<and> locked t = locked s \<and> disk t = disk s
    else if (\<forall>b. \<not> caches (bcache s) b n) \<and> (\<forall>b<NBUF. b_refcnt (bcache s b) \<noteq> 0) then bread ROOTDEV n s = Panic ''bget: no buffers''
    else \<exists>b t. bread ROOTDEV n s = Ret b t \<and> b_data (bcache t b) = block s n \<and> holds t b n \<and> cinv t \<and> block t = block s
        \<and> refs t = (refs s)(n := refs s n + 1) \<and> locked t = (locked s)(n := True) \<and> disk t = disk s
        \<and> (caches (bcache s) b n \<or> (\<forall>a. \<not> caches (bcache s) a n) \<and> List.find (\<lambda>b. b_refcnt (bcache s b) = 0) (rev L) = Some b)"
proof -
  have "\<exists>b t. bread ROOTDEV n s = Ret b t \<and> b_data (bcache t b) = block s n \<and> holds t b n \<and> cinv t \<and> block t = block s
        \<and> refs t = (refs s)(n := refs s n + 1) \<and> locked t = (locked s)(n := True) \<and> disk t = disk s
        \<and> (caches (bcache s) b n \<or> (\<forall>a. \<not> caches (bcache s) a n) \<and> List.find (\<lambda>b. b_refcnt (bcache s b) = 0) (rev L) = Some b)"
    if "\<not> locked s n" "(\<exists>b. caches (bcache s) b n) \<or> (\<exists>b<NBUF. b_refcnt (bcache s b) = 0)"
  proof -
    have room: "\<exists>b<NBUF. b_refcnt (bcache s b) = 0" if "refs s n = 0"
      using view_cached(1) [OF inv] \<open>_ \<or> (\<exists>b<NBUF. _)\<close> that by (metis caches_def)
    obtain b where b: "bread ROOTDEV n s = Ret b (s\<lparr>bcache := (bcache s)(b := read_buf s b n)\<rparr>)" "b < NBUF"
      "caches (bcache s) b n \<or> b_refcnt (bcache s b) = 0 \<and> (\<forall>a. \<not> caches (bcache s) a n)
        \<and> List.find (\<lambda>b. b_refcnt (bcache s b) = 0) (rev L) = Some b"
      using bread_buf [OF inv p \<open>\<not> locked s n\<close> room L] by blast
    define t where "t = s\<lparr>bcache := (bcache s)(b := read_buf s b n)\<rparr>"
    have "caches (bcache s) b n \<or> b_refcnt (bcache s b) = 0 \<and> (\<forall>a. \<not> caches (bcache s) a n)" using b(3) by blast
    note v = read_buf_view [OF inv b(2) top this t_def]
    have "b_data (bcache t b) = block s n" "disk t = disk s" by (simp_all add: t_def read_buf_def)
    then show ?thesis using v b(1) [folded t_def] b(3) by blast
  qed
  then show ?thesis using bread_sleeps [OF inv p _ top] bread_panics [OF inv] by auto
qed

theorem bread_refines_map_witness:
  "\<exists>b t. bread ROOTDEV 33 (reboot (\<lambda>_. replicate BSIZE 7) bss) = Ret b t \<and> b_data (bcache t b) = replicate BSIZE 7"
proof -
  let ?s = "reboot (\<lambda>_. replicate BSIZE 7) bss"
  have len: "length ((\<lambda>_ :: uint. replicate BSIZE (7 :: uchar)) n) = BSIZE" for n by simp
  note v = reboot_view [of "\<lambda>_. replicate BSIZE 7" bss, OF len]
  have nl: "\<not> locked ?s 33" and r: "refs ?s 33 + 1 \<noteq> 0" and d: "block ?s 33 = replicate BSIZE 7" using v(2-4) by simp_all
  have nf: "\<not> ((\<forall>b. \<not> caches (bcache ?s) b 33) \<and> (\<forall>b<NBUF. b_refcnt (bcache ?s b) \<noteq> 0))"
    using wiped_reboot [of "\<lambda>_. replicate BSIZE 7" bss] by (auto simp: wiped_def intro!: exI [of _ 0])
  have "cpu_proc ?s = Some 0" by simp
  from bread_refines_map [OF v(1,7) this r, unfolded if_not_P [OF nl] if_not_P [OF nf]] show ?thesis unfolding d by blast
qed

end
