(* ===== verification/LogCrash.thy ===== *)
theory LogCrash
  imports LogSafe Reboot
begin

text \<open>
  Transactions against crashes: a file system operation that updates blocks between \<open>begin_op\<close> and
  \<open>end_op\<close> reaches the disk as a whole or not at all, whatever disk write was the last one before the
  machine stopped, and the recovery of the next boot may itself be interrupted.
\<close>

section \<open>Recovery\<close>

text \<open>A header block that \<open>write_head\<close> has written.\<close>

definition head_ok :: "uchar list \<Rightarrow> bool" where
  "head_ok h \<longleftrightarrow> get32 h 0 = of_nat (length (dec_head h)) \<and> length (dec_head h) \<le> LOGSLOTS"

lemma get32_enc: "length h = BSIZE \<Longrightarrow> length xs \<le> 255 \<Longrightarrow> get32 (enc_head xs h) 0 = of_nat (length xs)"
proof -
  assume h: "length h = BSIZE" "length xs \<le> 255"
  have l: "4 + 4 * length xs \<le> length (put32 h 0 (of_nat (length xs)))" using h by simp
  have e: "enc_head xs h = fold (\<lambda>i bs. put32 bs (4 + 4 * i) (xs ! i)) [0..<length xs] (put32 h 0 (of_nat (length xs)))"
    using h(2) by (simp add: enc_head_def encode_head_def) (simp add: header_of_def)
  show ?thesis unfolding e encode_loop(3) [OF l] using h by simp
qed

lemma head_ok_enc: "length h = BSIZE \<Longrightarrow> length xs \<le> LOGSLOTS \<Longrightarrow> head_ok (enc_head xs h)"
  by (simp add: head_ok_def get32_enc enc_dec)

lemma head_ok_zero: "get32 h 0 = 0 \<Longrightarrow> head_ok h \<and> dec_head h = []"
  by (simp add: head_ok_def dec_head_def)

lemma read_head_cst:
  assumes c: "cst s B (\<lambda>_. 0) (\<lambda>_. False) D W" and p: "cpu_proc s = Some p"
    and l: "log_dev s = ROOTDEV" "log_start s = start" and h: "head_ok (D start)"
  shows "\<exists>t. read_head s = Ret () t \<and> cst t B (\<lambda>_. 0) (\<lambda>_. False) D W \<and> cpu_proc t = Some p \<and> log_is t start (dec_head (D start))"
proof -
  obtain b s1 where 1: "bread ROOTDEV start s = Ret b s1"
    "cst s1 B ((\<lambda>_. 0)(start := 1)) ((\<lambda>_. False)(start := True)) D W" "holds s1 b start" "log_same s s1"
    using bread_cst [OF c p, of start] few_le [OF few_one, where R' = "\<lambda>_. 0"] by auto
  have d: "b_data (bcache s1 b) = D start" using cst_data [OF 1(2,3)] idle_clean [OF c, of start] by simp
  let ?s2 = "s1\<lparr>log_lh := decode_head (D start) (lh_block (log_lh s1))\<rparr>"
  have c2: "cst ?s2 B ((\<lambda>_. 0)(start := 1)) ((\<lambda>_. False)(start := True)) D W" "holds ?s2 b start" "cpu_proc ?s2 = Some p"
    using 1 cpu_same [OF p 1(4)] by (auto simp: cst_def holds_def mypid_def)
  obtain t where t: "brelse b ?s2 = Ret () t" "cst t B (((\<lambda>_. 0)(start := 1))(start := 0)) (\<lambda>_. False) D W" "log_same ?s2 t"
    using brelse_cst [OF c2] idle_clean [OF c, of start] by auto
  have "log_is ?s2 start (dec_head (D start))"
    using 1(4) l h by (auto simp: log_is_def log_same_def decode_head_def Let_def head_ok_def dec_head_def)
  then have "log_is t start (dec_head (D start))" using t(3) by (rule log_is_same)
  moreover have "read_head s = Ret () t" using 1(1) t(1) l by (simp add: read_head_def d)
  ultimately show ?thesis using t(2) cpu_same [OF c2(3) t(3)] by (simp add: fun_upd_idem)
qed

lemma initlog_exact:
  assumes c: "cst s B (\<lambda>_. 0) (\<lambda>_. False) D W" and p: "cpu_proc s = Some p"
    and h: "head_ok (D start)" "distinct (dec_head (D start))" "set (dec_head (D start)) \<inter> log_area start LOGSLOTS = {}"
  shows "\<exists>t. initlog ROOTDEV start n s = Ret () t \<and> dwrites t = W @ log_writes dec_head start D @ [(start, enc_head [] (D start))]
    \<and> disk t = (redo dec_head start D)(start := enc_head [] (D start))
    \<and> cinv t \<and> refs t = (\<lambda>_. 0) \<and> locked t = (\<lambda>_. False) \<and> block t = disk t \<and> log_is t start []"
proof -
  let ?s = "s\<lparr>log_start := start, log_size := n, log_dev := ROOTDEV\<rparr>" and ?bl = "dec_head (D start)"
  let ?ws = "log_writes dec_head start D"
  have z: "inst_refs True (\<lambda>_. 0) start (drop 0 ?bl)" "few (\<lambda>_. 0)"
    using few_le [OF few_one, where R' = "\<lambda>_. 0"] by (auto simp: inst_refs_def)
  have c0: "cst ?s B (\<lambda>_. 0) (\<lambda>_. False) D W" using c by (auto simp: cst_def)
  have BD: "B = D" using idle_clean [OF c] by auto
  obtain s1 where 1: "read_head ?s = Ret () s1" "cst s1 B (\<lambda>_. 0) (\<lambda>_. False) D W" "cpu_proc s1 = Some p" "log_is s1 start ?bl"
    using read_head_cst [OF c0, of p start] p h(1) by auto
  have bl: "length ?bl \<le> LOGSLOTS" using h(1) by (simp add: head_ok_def)
  have ws: "?ws = map (\<lambda>i. (?bl ! i, B (log_slot start i))) [0..<length ?bl]"
    by (intro nth_equalityI) (simp_all add: log_writes_def nth_enumerate_eq BD)
  obtain s2 where 2: "install_loop True (length ?bl) 0 s1 = Ret () s2" "log_same s1 s2"
    "cst s2 (apply_writes ?ws B) (\<lambda>_. 0) (\<lambda>_. False) (apply_writes ?ws D) (W @ ?ws)"
    using install_loop_cst [OF 1(2-4) z(1) bl _ h(2,3) ws] by (auto simp: unpinned_def)
  note c2 = clear_head [OF 2(3) log_is_same [OF 1(4) 2(2)] cpu_same [OF 1(3) 2(2)]]
  have "map fst ?ws = ?bl" unfolding ws by (intro nth_equalityI) simp_all
  then have "fst ` set ?ws = set ?bl" by (metis set_map)
  then have st: "apply_writes ?ws X start = X start" for X
    using h(3) start_area [of start LOGSLOTS] by (intro apply_writes_other) (auto simp: disjoint_iff)
  obtain t where 3: "write_head (s2\<lparr>log_lh := (log_lh s2)\<lparr>lh_n := 0\<rparr>\<rparr>) = Ret () t" "log_same (s2\<lparr>log_lh := (log_lh s2)\<lparr>lh_n := 0\<rparr>\<rparr>) t"
    "cst t ((apply_writes ?ws D)(start := enc_head [] (D start))) (\<lambda>_. 0) (\<lambda>_. False)
      ((apply_writes ?ws D)(start := enc_head [] (D start))) ((W @ ?ws) @ [(start, enc_head [] (D start))])"
    using write_head_cst [OF c2(1,3,2)] z(2) by (auto simp: st BD)
  have "initlog ROOTDEV start n s = Ret () t"
    using 1(1) 2(1) 3(1) log_is_count [OF 1(4) bl] by (simp add: initlog_def recover_from_log_def install_trans_def)
  moreover have "log_is t start []" by (rule log_is_same [OF c2(2) 3(2)])
  ultimately show ?thesis using 3(3) by (intro exI [of _ t]) (auto simp: cst_def redo_def)
qed

section \<open>Reboot\<close>

lemma reboot_cst: "(\<And>n. length (D n) = BSIZE) \<Longrightarrow> cst (reboot D s) D (\<lambda>_. 0) (\<lambda>_. False) D (dwrites s)"
  using reboot_view [of D s] unfolding cst_def by auto

section \<open>Updates within a transaction\<close>

text \<open>How the file system code changes a block: \<open>bread\<close>, modify, \<open>log_write\<close>, \<open>brelse\<close>.\<close>

definition log_update :: "uint \<Rightarrow> uchar list \<Rightarrow> 'a klog_scheme \<Rightarrow> (unit, 'a klog_scheme) outcome" where
  "log_update n v s =
     bnd (bread ROOTDEV n s) (\<lambda>b s.
     bnd (Ret () (upd_buf b (\<lambda>x. x\<lparr>b_data := v\<rparr>) s)) (\<lambda>_ s.
     bnd (log_write b s) (\<lambda>_ s.
     brelse b s)))"

fun log_updates :: "(uint \<times> uchar list) list \<Rightarrow> 'a klog_scheme \<Rightarrow> (unit, 'a klog_scheme) outcome" where
  "log_updates [] s = Ret () s"
| "log_updates ((n, v) # us) s = bnd (log_update n v s) (\<lambda>_ s. log_updates us s)"

definition log_op :: "(uint \<times> uchar list) list \<Rightarrow> 'a klog_scheme \<Rightarrow> (unit, 'a klog_scheme) outcome" where
  "log_op us s = bnd (begin_op s) (\<lambda>_ s. bnd (log_updates us s) (\<lambda>_ s. end_op s))"

text \<open>The transaction after one more update: a block that it already has is absorbed.\<close>

definition tx_put :: "uint \<Rightarrow> uchar list \<Rightarrow> (uint \<times> uchar list) list \<Rightarrow> (uint \<times> uchar list) list" where
  "tx_put n v tx = (if n \<in> fst ` set tx then map (\<lambda>(m, w). (m, if m = n then v else w)) tx else tx @ [(n, v)])"

lemma tx_put_fst:
  "map fst (tx_put n v tx) = (if n \<in> fst ` set tx then map fst tx else map fst tx @ [n])"
  "fst ` set (tx_put n v tx) = insert n (fst ` set tx)"
  by (auto simp: tx_put_def case_prod_beta image_image)

lemma tx_put_block:
  assumes "\<forall>(m, w)\<in>set tx. B m = w"
  shows "\<forall>(m, w)\<in>set (tx_put n v tx). (B(n := v)) m = w"
proof -
  have "(B(n := v)) m = w" if "(m, w) \<in> set (tx_put n v tx)" for m w
    using that assms by (cases "n \<in> fst ` set tx") (auto simp: tx_put_def image_iff split: if_splits)
  then show ?thesis by blast
qed

lemma log_write_cst:
  assumes c: "cst s B R K D W" and h: "holds s b n" and l: "log_is s start bl"
    and small: "int (length bl) < sint (log_size s) - 1" "length bl < LOGSIZE" "log_outstanding s \<ge> 1"
    and r: "R n = (if n \<in> set bl then 2 else 1)"
  shows "\<exists>t. log_write b s = Ret () t \<and> cst t B (R(n := 2)) K D W \<and> holds t b n
    \<and> log_is t start (if n \<in> set bl then bl else bl @ [n])
    \<and> cpu_proc t = cpu_proc s \<and> log_size t = log_size s \<and> log_outstanding t = log_outstanding s \<and> log_committing t = log_committing s
    \<and> klog.more t = klog.more s"
proof -
  have bno: "b_blockno (bcache s b) = n" using h by (simp add: holds_def caches_def)
  have cnt: "lh_count (log_lh s) = length bl" using log_is_count [OF l] small by simp
  have n: "sint (lh_n (log_lh s)) = int (length bl)" using l small(2) by (simp add: log_is_def sint_small)
  have blk: "lh_block (log_lh s) i = bl ! i" if "i < length bl" for i using l that by (simp add: log_is_def)
  show ?thesis
  proof (cases "n \<in> set bl")
    case True
    then obtain j where j: "j < length bl" "bl ! j = n" by (auto simp: in_set_conv_nth)
    obtain i where i: "first_idx (\<lambda>i. lh_block (log_lh s) i = n) (length bl) = Some i"
      using first_idx_None [of "\<lambda>i. lh_block (log_lh s) i = n" "length bl"] j blk by (metis option.exhaust)
    then have il: "i < length bl" "lh_block (log_lh s) i = n" by (auto simp: first_idx_Some)
    then have "log_write b s = Ret () (s\<lparr>log_lh := log_lh s\<rparr>)"
      using i small n by (simp add: log_write_def bno cnt Let_def fun_upd_idem)
    then show ?thesis using True c h l r by (simp add: fun_upd_idem)
  next
    case False
    then have i: "first_idx (\<lambda>i. lh_block (log_lh s) i = n) (length bl) = None"
      using blk by (auto simp: first_idx_None)
    let ?s1 = "s\<lparr>log_lh := (log_lh s)\<lparr>lh_block := (lh_block (log_lh s))(length bl := n)\<rparr>\<rparr>"
    have c1: "cst ?s1 B R K D W" "holds ?s1 b n" using c h by (auto simp: cst_def holds_def mypid_def)
    have "R n + 1 \<noteq> 0" using r False by simp
    note u = bpin_cst [OF c1 this]
    let ?t = "(bpin b ?s1)\<lparr>log_lh := (log_lh (bpin b ?s1))\<lparr>lh_n := lh_n (log_lh s) + 1\<rparr>\<rparr>"
    have "log_write b s = Ret () ?t"
      using i small n by (simp add: log_write_def bno cnt Let_def)
    moreover have "cst ?t B (R(n := 2)) K D W" "holds ?t b n"
      using u(1,2) c1(2) r False by (auto simp: cst_def holds_def mypid_def)
    moreover have "log_is ?t start (bl @ [n])" using l u(3) by (auto simp: log_is_def log_same_def nth_append less_Suc_eq)
    ultimately show ?thesis using False u(3) by (intro exI [of _ ?t]) (simp add: log_same_def)
  qed
qed

lemma commit_ready_cst:
  assumes "commit_ready s start tx"
  shows "cst s (block s) (refs s) (\<lambda>_. False) (disk s) (dwrites s)"
  using assms by (simp add: commit_ready_def cst_def)

lemma log_update_ready:
  assumes r: "commit_ready s start tx" and n: "n \<notin> log_area start LOGSLOTS" "length v = BSIZE"
    and small: "int (length tx) < sint (log_size s) - 1" "Suc (length tx) < NBUF" "log_outstanding s \<ge> 1"
  shows "\<exists>t. log_update n v s = Ret () t \<and> commit_ready t start (tx_put n v tx) \<and> block t = (block s)(n := v)
    \<and> disk t = disk s \<and> dwrites t = dwrites s
    \<and> log_size t = log_size s \<and> log_outstanding t = log_outstanding s \<and> log_committing t = log_committing s
    \<and> klog.more t = klog.more s"
proof -
  let ?R = "refs s" and ?bl = "map fst tx" and ?T = "(\<lambda>_. False)(n := True)"
  note c = commit_ready_cst [OF r]
  obtain p where p: "cpu_proc s = Some p" using r by (auto simp: commit_ready_def)
  have l: "log_is s start ?bl" and R: "?R = (\<lambda>m. if m \<in> set ?bl then 1 else 0)" using r by (auto simp: commit_ready_def)
  have few: "few ?R" using commit_ready_pins [OF r] by (simp add: pins_def)
  have rn: "?R n + 1 \<noteq> 0" by (simp add: R)
  obtain b s1 where 1: "bread ROOTDEV n s = Ret b s1" "cst s1 (block s) (?R(n := ?R n + 1)) ?T (disk s) (dwrites s)"
    "holds s1 b n" "log_same s s1" using bread_cst [OF c p _ rn few] by blast
  let ?s2 = "upd_buf b (\<lambda>x. x\<lparr>b_data := v\<rparr>) s1"
  note 2 = set_data_cst [OF 1(2,3) n(2) refl]
  have s2: "holds ?s2 b n" "log_same s ?s2" using 1(3,4) 2(2,3) by (blast intro: log_same_trans)+
  have s2': "int (length ?bl) < sint (log_size ?s2) - 1" "length ?bl < LOGSIZE" "log_outstanding ?s2 \<ge> 1"
    using s2(2) small by (simp_all add: log_same_def)
  have r2: "(?R(n := ?R n + 1)) n = (if n \<in> set ?bl then 2 else 1)" by (simp add: R)
  obtain s3 where 3: "log_write b ?s2 = Ret () s3" "cst s3 ((block s)(n := v)) (?R(n := ?R n + 1, n := 2)) ?T (disk s) (dwrites s)"
    "holds s3 b n" "log_is s3 start (if n \<in> set ?bl then ?bl else ?bl @ [n])" "cpu_proc s3 = cpu_proc ?s2" "log_size s3 = log_size ?s2"
    "log_outstanding s3 = log_outstanding ?s2" "log_committing s3 = log_committing ?s2" "klog.more s3 = klog.more ?s2"
    using log_write_cst [OF 2(1) s2(1) log_is_same [OF l s2(2)] s2' r2] by blast
  have p3: "cpu_proc s3 = Some p" using 3(5) cpu_same [OF p s2(2)] by simp
  obtain t where 4: "brelse b s3 = Ret () t" "cst t ((block s)(n := v)) (?R(n := 1)) (\<lambda>_. False) (disk s) (dwrites s)" "log_same s3 t"
    using brelse_cst [OF 3(2,3) p3] by auto
  have t: "log_update n v s = Ret () t" using 1(1) 3(1) 4(1) by (simp add: log_update_def)
  have lt: "log_is t start (map fst (tx_put n v tx))" using log_is_same [OF 3(4) 4(3)] by (simp add: tx_put_fst)
  have rt: "?R(n := 1) = (\<lambda>m. if m \<in> fst ` set (tx_put n v tx) then 1 else 0)" by (auto simp: R tx_put_fst fun_eq_iff)
  have bt: "\<forall>(m, w)\<in>set (tx_put n v tx). ((block s)(n := v)) m = w" by (rule tx_put_block) (use r in \<open>simp add: commit_ready_def\<close>)
  have dt: "distinct (map fst (tx_put n v tx))" "fst ` set (tx_put n v tx) \<inter> log_area start LOGSLOTS = {}" "length (tx_put n v tx) < NBUF"
    using r n(1) small(2) by (auto simp: tx_put_fst commit_ready_def) (simp add: tx_put_def)
  have v: "cinv t" "block t = (block s)(n := v)" "refs t = ?R(n := 1)" "locked t = (\<lambda>_. False)" "disk t = disk s" "dwrites t = dwrites s"
    using 4(2) unfolding cst_def by blast+
  have "get32 (disk t start) 0 = 0" using r v(5) by (simp add: commit_ready_def)
  then have "commit_ready t start (tx_put n v tx)"
    unfolding commit_ready_def v(2-4) rt using v(1) lt bt dt cpu_same [OF p3 4(3)] by blast
  then show ?thesis using t v 4(3) 3(6-9) s2(2) by (intro exI [of _ t]) (simp add: log_same_def)
qed

fun tx_all :: "(uint \<times> uchar list) list \<Rightarrow> (uint \<times> uchar list) list \<Rightarrow> (uint \<times> uchar list) list" where
  "tx_all [] tx = tx"
| "tx_all ((n, v) # us) tx = tx_all us (tx_put n v tx)"

lemma tx_all_fst: "fst ` set (tx_all us tx) = fst ` set us \<union> fst ` set tx"
  by (induction us tx rule: tx_all.induct) (auto simp: tx_put_fst(2))

lemma log_updates_ready:
  assumes "commit_ready s start tx" "\<forall>(n, v)\<in>set us. n \<notin> log_area start LOGSLOTS \<and> length v = BSIZE"
    and "length tx + length us \<le> MAXOPBLOCKS" "log_size s = of_nat LOGSIZE" "log_outstanding s \<ge> 1"
  shows "\<exists>t. log_updates us s = Ret () t \<and> commit_ready t start (tx_all us tx)
    \<and> block t = apply_writes us (block s) \<and> disk t = disk s \<and> dwrites t = dwrites s
    \<and> log_size t = log_size s \<and> log_outstanding t = log_outstanding s \<and> log_committing t = log_committing s
    \<and> klog.more t = klog.more s"
  using assms
proof (induction us arbitrary: s tx)
  case (Cons u us)
  obtain n v where u: "u = (n, v)" by (cases u)
  have sm: "int (length tx) < sint (log_size s) - 1" "Suc (length tx) < NBUF" using Cons.prems by simp_all
  obtain s1 where 1: "log_update n v s = Ret () s1" "commit_ready s1 start (tx_put n v tx)" "block s1 = (block s)(n := v)"
    "disk s1 = disk s" "dwrites s1 = dwrites s" "log_size s1 = log_size s" "log_outstanding s1 = log_outstanding s"
    "log_committing s1 = log_committing s" "klog.more s1 = klog.more s"
    using log_update_ready [OF Cons.prems(1) _ _ sm Cons.prems(5), of n v] Cons.prems(2) u by auto
  have p: "\<forall>(n, v)\<in>set us. n \<notin> log_area start LOGSLOTS \<and> length v = BSIZE"
    "length (tx_put n v tx) + length us \<le> MAXOPBLOCKS" "log_size s1 = of_nat LOGSIZE" "log_outstanding s1 \<ge> 1"
    using Cons.prems 1(6,7) by (simp_all add: tx_put_def)
  note ih = Cons.IH [OF 1(2) p, unfolded 1(3), unfolded 1(4-9)]
  have "log_updates (u # us) s = log_updates us s1" using 1(1) by (simp add: u)
  then show ?case using ih by (simp add: u del: fun_upd_apply)
qed simp

section \<open>Operations\<close>

text \<open>The disk writes of a commit; a transaction without blocks is not committed.\<close>

definition tx_writes :: "uint \<Rightarrow> uchar list \<Rightarrow> (uint \<times> uchar list) list \<Rightarrow> (uint \<times> uchar list) list" where
  "tx_writes start h tx = (if tx = [] then [] else commit_writes enc_head start h tx)"

lemma commit_any:
  assumes r: "commit_ready s start tx"
  shows "\<exists>t. commit s = Ret () t \<and> commit_ready t start [] \<and> dwrites t = dwrites s @ tx_writes start (disk s start) tx
    \<and> disk t = apply_writes (tx_writes start (disk s start) tx) (disk s)
    \<and> log_size t = log_size s \<and> log_outstanding t = log_outstanding s"
proof (cases "tx = []")
  case True
  then have "commit s = Ret () s" using r by (simp add: commit_ready_def log_is_def commit_def)
  then show ?thesis using True r by (simp add: tx_writes_def)
next
  case False
  let ?h = "enc_head (map fst tx) (disk s start)"
  obtain t where t: "commit s = Ret () t" "dwrites t = dwrites s @ commit_writes enc_head start (disk s start) tx"
    "log_is t start []" "cinv t" "refs t = (\<lambda>_. 0)" "locked t = (\<lambda>_. False)"
    "disk t = apply_writes (commit_writes enc_head start (disk s start) tx) (disk s)"
    "cpu_proc t = cpu_proc s" "log_size t = log_size s" "log_outstanding t = log_outstanding s"
    using commit_exact [OF r False] by auto
  have "length tx \<le> LOGSLOTS" "length (disk s start) = BSIZE" using r by (auto simp: commit_ready_def cache_inv_def)
  then have h: "length ?h = BSIZE" by (simp add: enc_dec)
  have "disk t start = enc_head [] ?h" unfolding t(7) by (simp add: commit_writes_def)
  then have z: "get32 (disk t start) 0 = 0" using get32_enc [OF h, of "[]"] by simp
  have "commit_ready t start []"
    using t(3-6,8) z r unfolding commit_ready_def by simp
  then show ?thesis using t False by (intro exI [of _ t]) (simp add: tx_writes_def)
qed

text \<open>Between operations nothing is pinned and the log is empty, in memory and on disk.\<close>

definition log_idle :: "'a klog_scheme \<Rightarrow> uint \<Rightarrow> bool" where
  "log_idle s start \<longleftrightarrow> commit_ready s start [] \<and> log_outstanding s = 0 \<and> \<not> log_committing s \<and> log_size s = of_nat LOGSIZE"

text \<open>The updates of an operation: home blocks only.\<close>

definition home_updates :: "uint \<Rightarrow> (uint \<times> uchar list) list \<Rightarrow> bool" where
  "home_updates start us \<longleftrightarrow> length us \<le> MAXOPBLOCKS \<and> (\<forall>(n, v)\<in>set us. n \<notin> log_area start LOGSLOTS \<and> length v = BSIZE)"

lemma commit_ready_cong:
  "cpu_proc t = cpu_proc s \<Longrightarrow> bcache t = bcache s \<Longrightarrow> disk t = disk s \<Longrightarrow> log_dev t = log_dev s \<Longrightarrow> log_start t = log_start s
    \<Longrightarrow> log_lh t = log_lh s \<Longrightarrow> commit_ready t start tx = commit_ready s start tx"
  by (simp add: commit_ready_def log_is_def)

lemma log_op_exact:
  fixes s :: "'a klog_scheme"
  assumes i: "log_idle s start" and us: "home_updates start us"
  shows "\<exists>t (r :: 'a klog_scheme) tx. log_op us s = Ret () t \<and> log_idle t start \<and> commit_ready r start tx
    \<and> disk r = disk s \<and> block r = apply_writes us (disk s) \<and> fst ` set tx = fst ` set us
    \<and> dwrites t = dwrites s @ tx_writes start (disk s start) tx
    \<and> disk t = apply_writes (tx_writes start (disk s start) tx) (disk s)"
proof -
  have r: "commit_ready s start []" and o: "log_outstanding s = 0" "\<not> log_committing s" "log_size s = of_nat LOGSIZE"
    using i by (auto simp: log_idle_def)
  have n: "lh_n (log_lh s) = 0" using r by (simp add: commit_ready_def log_is_def)
  let ?s1 = "s\<lparr>log_outstanding := 1\<rparr>"
  have b: "begin_op s = Ret () ?s1" using o n by (simp add: begin_op_def)
  have r1: "commit_ready ?s1 start []" using r by (subst commit_ready_cong [of _ s]) simp_all
  let ?tx = "tx_all us []"
  obtain s2 where 2: "log_updates us ?s1 = Ret () s2" "commit_ready s2 start ?tx" "block s2 = apply_writes us (block s)"
    "disk s2 = disk s" "dwrites s2 = dwrites s" "log_size s2 = of_nat LOGSIZE" "log_outstanding s2 = 1" "\<not> log_committing s2"
    using log_updates_ready [OF r1, of us] us o by (auto simp: home_updates_def)
  let ?s3 = "s2\<lparr>log_outstanding := 0, log_committing := True\<rparr>"
  have r3: "commit_ready ?s3 start ?tx" using 2(2) by (subst commit_ready_cong [of _ s2]) simp_all
  obtain s4 where 4: "commit ?s3 = Ret () s4" "commit_ready s4 start []" "dwrites s4 = dwrites s @ tx_writes start (disk s start) ?tx"
    "disk s4 = apply_writes (tx_writes start (disk s start) ?tx) (disk s)" "log_size s4 = of_nat LOGSIZE" "log_outstanding s4 = 0"
    using commit_any [OF r3] 2(4-6) by auto
  let ?t = "wakeup ChLog (s4\<lparr>log_committing := False\<rparr>)"
  have "log_op us s = Ret () ?t" using b 2(1,7,8) 4(1) by (simp add: log_op_def end_op_def)
  moreover have "commit_ready ?t start []" using 4(2) by (subst commit_ready_cong [of _ s4]) (simp_all add: wakeup_def)
  then have "log_idle ?t start" using 4(5,6) by (simp add: log_idle_def wakeup_def)
  moreover have "block s = disk s" using commit_ready_new [OF r] by auto
  then have "block s2 = apply_writes us (disk s)" using 2(3) by simp
  moreover have "dwrites ?t = dwrites s @ tx_writes start (disk s start) ?tx"
    "disk ?t = apply_writes (tx_writes start (disk s start) ?tx) (disk s)" using 4(3,4) by (simp_all add: wakeup_def)
  moreover have "fst ` set ?tx = fst ` set us" using tx_all_fst [of us "[]"] by simp
  ultimately show ?thesis using 2(2,4) by blast
qed

section \<open>Crashes\<close>

text \<open>Recovery of the disk that a crash in the middle of a commit leaves.\<close>

lemma crash_head:
  assumes r: "commit_ready s start tx" and D: "D = apply_writes (take j (tx_writes start (disk s start) tx)) (disk s)"
  shows "head_ok (D start)" "distinct (dec_head (D start))" "set (dec_head (D start)) \<inter> log_area start LOGSLOTS = {}"
    "length (D n) = BSIZE"
proof -
  let ?h = "disk s start" let ?W = "tx_writes start ?h tx" let ?H = "enc_head (map fst tx) ?h"
  have len: "length tx \<le> LOGSLOTS" and h: "length ?h = BSIZE" "get32 ?h 0 = 0" and tx: "distinct (map fst tx)" "fst ` set tx \<inter> log_area start LOGSLOTS = {}"
    and val: "\<forall>(m, v)\<in>set tx. block s m = v"
    using r by (auto simp: commit_ready_def cache_inv_def)
  have H: "length ?H = BSIZE" using h(1) len by (simp add: enc_dec)
  have bl: "length v = BSIZE" if "(m, v) \<in> set tx" for m v
    using cst_length [OF commit_ready_cst [OF r], of m] val that by auto
  have ws: "w \<in> set ?W \<Longrightarrow> (fst w = start \<longrightarrow> snd w \<in> {?H, enc_head [] ?H}) \<and> length (snd w) = BSIZE" for w
  proof -
    assume w: "w \<in> set ?W"
    have sl: "fst w \<noteq> start \<and> length (snd w) = BSIZE" if sw: "w \<in> set (slot_writes start tx)"
    proof -
      obtain i where i: "i < length tx" "w = (log_slot start i, snd (tx ! i))"
        using sw by (auto simp: in_set_conv_nth slot_writes_nth)
      then show ?thesis using len bl [of "fst (tx ! i)" "snd (tx ! i)"] log_slot_start [of i start] by simp
    qed
    have "fst w \<noteq> start \<and> length (snd w) = BSIZE" if "w \<in> set tx"
      using that tx(2) bl [of "fst w" "snd w"] start_area [of start LOGSLOTS] by (metis disjoint_iff imageI prod.collapse)
    moreover have "w \<in> set (slot_writes start tx) \<or> w = (start, ?H) \<or> w \<in> set tx \<or> w = (start, enc_head [] ?H)"
      using w by (simp add: tx_writes_def commit_writes_def slot_writes_def [symmetric] split: if_splits) blast
    ultimately show ?thesis using sl H by (elim disjE) (simp_all add: enc_dec)
  qed
  have inv: "(E start = ?h \<or> E start \<in> {?H, enc_head [] ?H}) \<and> (\<forall>n. length (E n) = BSIZE)"
    if "set us \<subseteq> set ?W" "E = apply_writes us (disk s)" for us E
    using that
  proof (induction us arbitrary: E rule: rev_induct)
    case Nil
    then show ?case using r by (simp add: commit_ready_def cache_inv_def)
  next
    case (snoc w us)
    then show ?case using ws [of w] by (cases w) (auto simp: fun_upd_def)
  qed
  have "(D start = ?h \<or> D start \<in> {?H, enc_head [] ?H}) \<and> (\<forall>n. length (D n) = BSIZE)"
    by (rule inv [OF set_take_subset D])
  then have D0: "D start = ?h \<or> D start \<in> {?H, enc_head [] ?H}" and Dl: "length (D n) = BSIZE" by auto
  show "length (D n) = BSIZE" by (rule Dl)
  have z: "head_ok ?h" "dec_head ?h = []" using head_ok_zero [OF h(2)] by auto
  have d: "dec_head ?H = map fst tx" "dec_head (enc_head [] ?H) = []" "head_ok ?H" "head_ok (enc_head [] ?H)"
    using h(1) H len by (simp_all add: enc_dec head_ok_enc)
  show "head_ok (D start)" "distinct (dec_head (D start))" "set (dec_head (D start)) \<inter> log_area start LOGSLOTS = {}"
    using D0 z d tx by auto
qed

lemma crash_recovers:
  assumes r: "commit_ready s start tx" and D: "D = apply_writes (take j (tx_writes start (disk s start) tx)) (disk s)"
    and p: "cpu_proc c \<noteq> None"
  shows "\<exists>u. initlog ROOTDEV start n (reboot D c) = Ret () u
    \<and> (\<forall>m. m \<notin> log_area start LOGSLOTS \<longrightarrow> disk u m = (if j \<le> length tx then disk s m else block s m))"
proof -
  note h = crash_head [OF r D]
  obtain q where q: "cpu_proc (reboot D c) = Some q" using p by auto
  obtain u where u: "initlog ROOTDEV start n (reboot D c) = Ret () u" "disk u = (redo dec_head start D)(start := enc_head [] (D start))"
    using initlog_exact [OF reboot_cst [of D c] q h(1-3)] h(4) by blast
  have "disk u m = (if j \<le> length tx then disk s m else block s m)" if m: "m \<notin> log_area start LOGSLOTS" for m
  proof -
    have st: "m \<noteq> start" using m start_area [of start LOGSLOTS] by blast
    have pre: "length tx \<le> LOGSLOTS" "fst ` set tx \<inter> log_area start LOGSLOTS = {}" "length (disk s start) = BSIZE"
      "dec_head (disk s start) = []" using r head_ok_zero by (auto simp: commit_ready_def cache_inv_def)
    have "redo dec_head start D m = (if j \<le> length tx then disk s m else apply_writes tx (disk s) m)"
    proof (cases "tx = []")
      case True
      then show ?thesis using D pre(4) by (simp add: tx_writes_def xv6_log.redo_empty)
    next
      case False
      then show ?thesis using xv6_log.commit_crash [where D = "disk s", OF pre m, of j] D by (simp add: tx_writes_def)
    qed
    then show ?thesis using u(2) st commit_ready_new [OF r] by simp
  qed
  then show ?thesis using u(1) by blast
qed

lemma tx_writes_home:
  assumes r: "commit_ready s start tx" and m: "m \<notin> log_area start LOGSLOTS"
  shows "apply_writes (tx_writes start (disk s start) tx) (disk s) m = block s m"
proof -
  have len: "length tx \<le> LOGSLOTS" using r by (simp add: commit_ready_def)
  have st: "m \<noteq> start" using m start_area [of start LOGSLOTS] by blast
  have "apply_writes (slot_writes start tx) (disk s) m = disk s m"
    using xv6_log.slots_home [OF len m, of "length tx" "disk s"] by simp
  then have "apply_writes (commit_writes enc_head start (disk s start) tx) (disk s) m = apply_writes tx (disk s) m"
    using st apply_writes_cong [of m tx "(apply_writes (slot_writes start tx) (disk s))(start := enc_head (map fst tx) (disk s start))" "disk s"]
    by (simp add: commit_writes_def slot_writes_def)
  then show ?thesis using commit_ready_new [OF r, of m] by (cases "tx = []") (simp_all add: tx_writes_def)
qed

lemma above_log:
  assumes "unat start + k < unat m"
  shows "m \<notin> log_area start k"
proof
  assume "m \<in> log_area start k"
  then obtain i where i: "i \<le> k" "m = start + of_nat i" by (auto simp: log_area_def)
  have "unat m \<le> unat start + unat (of_nat i :: uint)" unfolding i(2) by (simp add: unat_word_ariths)
  moreover have "unat (of_nat i :: uint) \<le> i" by (simp add: unat_of_nat)
  ultimately show False using assms i(1) by simp
qed

text \<open>A log on disk that recovery can install.\<close>

definition recoverable :: "(uint \<Rightarrow> uchar list) \<Rightarrow> uint \<Rightarrow> bool" where
  "recoverable D start \<longleftrightarrow> (\<forall>m. length (D m) = BSIZE) \<and> head_ok (D start) \<and> distinct (dec_head (D start))
     \<and> set (dec_head (D start)) \<inter> log_area start LOGSLOTS = {}"

lemma initlog_reboot:
  assumes "recoverable D start" "cpu_proc c \<noteq> None"
  shows "\<exists>t. initlog ROOTDEV start n (reboot D c) = Ret () t
    \<and> dwrites t = dwrites c @ log_writes dec_head start D @ [(start, enc_head [] (D start))]
    \<and> disk t = (redo dec_head start D)(start := enc_head [] (D start))"
proof -
  obtain q where "cpu_proc (reboot D c) = Some q" using assms(2) by auto
  then show ?thesis using initlog_exact [OF reboot_cst [of D c], of q start n] assms(1) unfolding recoverable_def by blast
qed

lemma recoverable_prefix:
  assumes r: "recoverable D start"
  shows "recoverable (apply_writes (take j (log_writes dec_head start D @ [(start, enc_head [] (D start))])) D) start"
proof -
  let ?ws = "log_writes dec_head start D" let ?H = "enc_head [] (D start)"
  have H: "length ?H = BSIZE" "head_ok ?H" "dec_head ?H = []" using r by (simp_all add: recoverable_def enc_dec head_ok_enc)
  have fst: "map fst ?ws = dec_head (D start)" by (intro nth_equalityI) (simp_all add: log_writes_def nth_enumerate_eq)
  have len: "length (snd w) = BSIZE" if "w \<in> set ?ws" for w
    using that r by (auto simp: log_writes_def recoverable_def)
  have l: "length (apply_writes us D m) = BSIZE" if "set us \<subseteq> set ?ws" for us m
    using that r len by (induction us rule: rev_induct) (auto simp: recoverable_def split_beta fun_upd_def apply_writes_def)
  have st: "apply_writes (take k ?ws) D start = D start" for k
  proof (rule apply_writes_other)
    have "fst ` set (take k ?ws) \<subseteq> set (dec_head (D start))" using set_take_subset [of k ?ws] fst by (metis image_mono set_map)
    then show "start \<notin> fst ` set (take k ?ws)" using r start_area [of start LOGSLOTS] by (auto simp: recoverable_def disjoint_iff)
  qed
  show ?thesis
  proof (cases "j \<le> length ?ws")
    case True
    then show ?thesis using r l [OF set_take_subset] st [of j] by (simp add: recoverable_def)
  next
    case False
    then show ?thesis using H l [of ?ws] by (simp add: recoverable_def)
  qed
qed

text \<open>A disk full of zeros with the log at block 2, freshly booted.\<close>

definition demo_log :: kfile where
  "demo_log = (reboot (\<lambda>_. replicate BSIZE 0) bss)\<lparr>log_dev := ROOTDEV, log_start := 2, log_size := of_nat LOGSIZE\<rparr>"

lemma get32_zeros: "get32 (replicate BSIZE 0) 0 = 0"
  by (simp add: get32_def eval_nat_numeral)

lemma demo_log_idle: "log_idle demo_log 2" "disk demo_log = (\<lambda>_. replicate BSIZE 0)" "cpu_proc demo_log \<noteq> None"
proof -
  let ?r = "reboot (\<lambda>_. replicate BSIZE 0) bss"
  have c: "cst ?r (\<lambda>_. replicate BSIZE 0) (\<lambda>_. 0) (\<lambda>_. False) (\<lambda>_. replicate BSIZE 0) (dwrites bss)" by (rule reboot_cst) simp
  then have v: "cinv ?r" "refs ?r = (\<lambda>_. 0)" "locked ?r = (\<lambda>_. False)" "disk ?r = (\<lambda>_. replicate BSIZE 0)"
    unfolding cst_def by blast+
  have l: "lh_n (log_lh ?r) = 0" "log_outstanding ?r = 0" "\<not> log_committing ?r" by (simp_all add: reboot_def binit_def bss_def)
  show "disk demo_log = (\<lambda>_. replicate BSIZE 0)" using v(4) by (simp add: demo_log_def)
  show "cpu_proc demo_log \<noteq> None" by (simp add: demo_log_def)
  have i: "log_is demo_log 2 []" using l(1) by (simp add: log_is_def demo_log_def)
  have "cinv demo_log \<and> refs demo_log = (\<lambda>_. 0) \<and> locked demo_log = (\<lambda>_. False)" using v(1-3) by (simp add: demo_log_def)
  moreover have "get32 (disk demo_log 2) 0 = 0" using v(4) get32_zeros by (simp add: demo_log_def)
  ultimately have "commit_ready demo_log 2 []" using i unfolding commit_ready_def by (simp add: demo_log_def)
  then show "log_idle demo_log 2" using l(2,3) by (simp add: log_idle_def) (simp add: demo_log_def)
qed

section \<open>Properties\<close>

text \<open>
  C1. An operation that updates at most \<open>MAXOPBLOCKS\<close> blocks outside the log, between \<open>begin_op\<close> and \<open>end_op\<close>,
  completes, and the disk then holds its updates. If the machine stops after any number \<open>j\<close> of the disk
  writes that the commit makes, the recovery of the next boot returns and leaves every block outside the
  log with its contents from before the operation, when the header was not yet written, and
  with all updates otherwise.\<close>

theorem log_op_crash_atomic:
  fixes s :: "'a klog_scheme"
  assumes i: "log_idle s start" and us: "home_updates start us"
  shows "\<exists>t ws. log_op us s = Ret () t \<and> log_idle t start \<and> dwrites t = dwrites s @ ws
    \<and> (\<forall>m. m \<notin> log_area start LOGSLOTS \<longrightarrow> disk t m = apply_writes us (disk s) m)
    \<and> (\<forall>j n (c :: 'a klog_scheme). cpu_proc c \<noteq> None \<longrightarrow>
        (\<exists>u. initlog ROOTDEV start n (reboot (apply_writes (take j ws) (disk s)) c) = Ret () u
          \<and> (\<forall>m. m \<notin> log_area start LOGSLOTS \<longrightarrow> disk u m = (if j \<le> card (fst ` set us) then disk s m else disk t m))))"
proof -
  obtain t tx and r :: "'a klog_scheme" where o: "log_op us s = Ret () t" "log_idle t start" "commit_ready r start tx"
    "disk r = disk s" "block r = apply_writes us (disk s)" "fst ` set tx = fst ` set us"
    "dwrites t = dwrites s @ tx_writes start (disk s start) tx" "disk t = apply_writes (tx_writes start (disk s start) tx) (disk s)"
    using log_op_exact [OF i us] by blast
  let ?ws = "tx_writes start (disk s start) tx"
  have k: "length tx = card (fst ` set us)"
    using o(3) unfolding o(6) [symmetric] by (metis commit_ready_def distinct_card length_map set_map)
  have home: "disk t m = block r m" if "m \<notin> log_area start LOGSLOTS" for m
    using tx_writes_home [OF o(3) that] o(4,8) by simp
  have "\<exists>u. initlog ROOTDEV start n (reboot (apply_writes (take j ?ws) (disk s)) c) = Ret () u
      \<and> (\<forall>m. m \<notin> log_area start LOGSLOTS \<longrightarrow> disk u m = (if j \<le> card (fst ` set us) then disk s m else disk t m))"
    if "cpu_proc c \<noteq> None" for j n and c :: "'a klog_scheme"
    using crash_recovers [OF o(3) _ that, of "apply_writes (take j ?ws) (disk s)" j n] o(4) k home by auto
  then show ?thesis using o(1,2,5,7) home by (intro exI [of _ t] exI [of _ ?ws]) auto
qed

theorem log_op_crash_atomic_witness:
  "log_idle demo_log 2 \<and> home_updates 2 [(46, replicate BSIZE 7)]
    \<and> (\<exists>t ws u. log_op [(46, replicate BSIZE 7)] demo_log = Ret () t \<and> disk t 46 = replicate BSIZE 7
      \<and> initlog ROOTDEV 2 30 (reboot (apply_writes (take 1 ws) (disk demo_log)) demo_log) = Ret () u \<and> disk u 46 = replicate BSIZE 0)"
proof -
  have a: "46 \<notin> log_area 2 LOGSLOTS" by (rule above_log) simp_all
  then have h: "home_updates 2 [(46, replicate BSIZE 7)]" by (simp add: home_updates_def)
  from log_op_crash_atomic [OF demo_log_idle(1) h] obtain t ws where t: "log_op [(46, replicate BSIZE 7)] demo_log = Ret () t"
    "\<forall>m. m \<notin> log_area 2 LOGSLOTS \<longrightarrow> disk t m = apply_writes [(46, replicate BSIZE 7)] (disk demo_log) m"
    "\<And>j n c. cpu_proc (c :: kfile) \<noteq> None \<Longrightarrow> \<exists>u. initlog ROOTDEV 2 n (reboot (apply_writes (take j ws) (disk demo_log)) c) = Ret () u
      \<and> (\<forall>m. m \<notin> log_area 2 LOGSLOTS \<longrightarrow> disk u m = (if j \<le> card (fst ` set [(46 :: uint, replicate BSIZE 7 :: uchar list)]) then disk demo_log m else disk t m))"
    by blast
  from t(3) [OF demo_log_idle(3), of 30 1] a t(1,2) h demo_log_idle(1,2) show ?thesis by fastforce
qed

text \<open>
  C25. Recovery may itself be interrupted: when the machine stops after any number of the writes of
  \<open>initlog\<close>, the next \<open>initlog\<close> leaves the same blocks outside the log as an uninterrupted one.\<close>

theorem recovery_restartable:
  fixes c :: "'a klog_scheme"
  assumes r: "recoverable D start" and c: "cpu_proc c \<noteq> None"
  shows "\<exists>u ws. initlog ROOTDEV start n (reboot D c) = Ret () u \<and> dwrites u = dwrites c @ ws
    \<and> (\<forall>j. \<exists>v. initlog ROOTDEV start n (reboot (apply_writes (take j ws) D) c) = Ret () v
        \<and> (\<forall>m. m \<notin> log_area start LOGSLOTS \<longrightarrow> disk v m = disk u m))"
proof -
  let ?ws = "log_writes dec_head start D @ [(start, enc_head [] (D start))]"
  obtain u where u: "initlog ROOTDEV start n (reboot D c) = Ret () u" "dwrites u = dwrites c @ ?ws"
    "disk u = (redo dec_head start D)(start := enc_head [] (D start))" using initlog_reboot [OF r c] by blast
  have "\<exists>v. initlog ROOTDEV start n (reboot (apply_writes (take j ?ws) D) c) = Ret () v
      \<and> (\<forall>m. m \<notin> log_area start LOGSLOTS \<longrightarrow> disk v m = disk u m)" for j
  proof -
    let ?E = "apply_writes (take j ?ws) D"
    obtain v where v: "initlog ROOTDEV start n (reboot ?E c) = Ret () v"
      "disk v = (redo dec_head start ?E)(start := enc_head [] (?E start))"
      using initlog_reboot [OF recoverable_prefix [OF r] c] by blast
    have "disk v m = disk u m" if m: "m \<notin> log_area start LOGSLOTS" for m
    proof -
      have "m \<noteq> start" using m start_area [of start LOGSLOTS] by blast
      moreover have "redo dec_head start ?E m = redo dec_head start D m"
        by (rule xv6_log.recover_crash) (use r m in \<open>auto simp: recoverable_def head_ok_def\<close>)
      ultimately show ?thesis using u(3) v(2) by simp
    qed
    then show ?thesis using v(1) by blast
  qed
  then show ?thesis using u(1,2) by blast
qed

text \<open>The disk of \<open>demo_log\<close> with a committed block 46 in the log.\<close>

definition demo_disk :: "uint \<Rightarrow> uchar list" where
  "demo_disk = (\<lambda>_. replicate BSIZE 0)(2 := enc_head [46] (replicate BSIZE 0), 3 := replicate BSIZE 7)"

theorem recovery_restartable_witness:
  "recoverable demo_disk 2 \<and> (\<exists>u v ws. initlog ROOTDEV 2 30 (reboot demo_disk demo_log) = Ret () u \<and> dwrites u = dwrites demo_log @ ws
     \<and> initlog ROOTDEV 2 30 (reboot (apply_writes (take 1 ws) demo_disk) demo_log) = Ret () v \<and> disk v 46 = disk u 46)"
proof -
  have a: "46 \<notin> log_area 2 LOGSLOTS" by (rule above_log) simp_all
  have h: "length (enc_head [46] (replicate BSIZE 0)) = BSIZE" "dec_head (enc_head [46] (replicate BSIZE 0)) = [46]"
    "head_ok (enc_head [46] (replicate BSIZE 0))" by (simp_all add: enc_dec head_ok_enc)
  have r: "recoverable demo_disk 2" using h a by (simp add: recoverable_def demo_disk_def)
  from recovery_restartable [OF r demo_log_idle(3), of 30] show ?thesis using r a by blast
qed

end
