(* ===== verification/Balloc.thy ===== *)
theory Balloc
  imports LogCrash Fs
begin

text \<open>
  The block allocator of kernel/fs.c on top of the log and the buffer cache: inside a transaction,
  \<open>balloc\<close> and \<open>bfree\<close> implement a set of used blocks.
\<close>

unbundle bit_operations_syntax

section \<open>Bits of a bitmap block\<close>

lemma bit_of_bit: "bit_of bs i \<longleftrightarrow> bit (bs ! (i div 8)) (i mod 8)"
  by (simp add: bit_of_def and_exp_eq_0_iff_not_bit)

lemma div_mod_8_eq: "(i :: nat) div 8 = j div 8 \<Longrightarrow> i mod 8 = j mod 8 \<longleftrightarrow> i = j"
  by (metis div_mult_mod_eq)

lemma bit_byte:
  "m < 8 \<Longrightarrow> bit (w OR push_bit k 1) m \<longleftrightarrow> bit w m \<or> m = k"
  "m < 8 \<Longrightarrow> bit (w AND NOT (push_bit k 1)) m \<longleftrightarrow> bit w m \<and> m \<noteq> k" for w :: uchar
  by (auto simp: bit_simps)

lemma bit_of_set:
  assumes "i < 8 * length bs"
  shows "bit_of (set_bit_of bs i) j \<longleftrightarrow> j = i \<or> bit_of bs j"
proof (cases "j div 8 = i div 8")
  case True
  then show ?thesis using assms div_mod_8_eq [OF True]
    by (simp add: bit_of_bit set_bit_of_def bit_byte del: push_bit_of_1) auto
qed (auto simp: bit_of_bit set_bit_of_def)

lemma bit_of_clear:
  assumes "i < 8 * length bs"
  shows "bit_of (clear_bit_of bs i) j \<longleftrightarrow> j \<noteq> i \<and> bit_of bs j"
proof (cases "j div 8 = i div 8")
  case True
  then show ?thesis using assms div_mod_8_eq [OF True]
    by (simp add: bit_of_bit clear_bit_of_def bit_byte del: push_bit_of_1) auto
qed (auto simp: bit_of_bit clear_bit_of_def)

section \<open>Reading and updating one block of a transaction\<close>

lemma fs_same: "klog.more t = klog.more s \<Longrightarrow> sb t = sb s \<and> itable t = itable s" for s t :: "'a kfs_scheme"
  by (cases s, cases t) (simp only: klog.select_convs kfs.select_convs kfs.ext_inject simp_thms)

text \<open>A transaction in progress with room in the log for \<open>k\<close> more blocks.\<close>

definition tx_open :: "'a klog_scheme \<Rightarrow> uint \<Rightarrow> (uint \<times> uchar list) list \<Rightarrow> nat \<Rightarrow> bool" where
  "tx_open s start tx k \<longleftrightarrow> commit_ready s start tx \<and> log_size s = of_nat LOGSIZE \<and> log_outstanding s \<ge> 1
     \<and> length tx + k < LOGSIZE"

definition tx_same :: "'a klog_scheme \<Rightarrow> 'a klog_scheme \<Rightarrow> bool" where
  "tx_same s t \<longleftrightarrow> disk t = disk s \<and> dwrites t = dwrites s \<and> klog.more t = klog.more s"

lemma tx_same_trans: "tx_same s t \<Longrightarrow> tx_same t u \<Longrightarrow> tx_same s u"
  by (simp add: tx_same_def)

lemma bnd_RetE: "bnd m f = Ret r t \<Longrightarrow> (\<And>a u. m = Ret a u \<Longrightarrow> f a u = Ret r t \<Longrightarrow> thesis) \<Longrightarrow> thesis"
  by (cases m) simp_all

lemma upd_data_const: "upd_data b f s = upd_buf b (\<lambda>x. x\<lparr>b_data := f (b_data (bcache s b))\<rparr>) s"
  by (simp add: upd_data_def upd_buf_def)

lemma tx_bread:
  fixes s :: "'a klog_scheme"
  assumes o: "tx_open s start tx k"
  obtains b s1 where "bread ROOTDEV n s = Ret b s1" "b_data (bcache s1 b) = block s n" "klog.more s1 = klog.more s"
    "\<exists>t. brelse b s1 = Ret () t \<and> tx_open t start tx k \<and> block t = block s \<and> tx_same s t"
    "\<And>f j. k = Suc j \<Longrightarrow> n \<notin> log_area start LOGSLOTS \<Longrightarrow> length (f (block s n)) = BSIZE \<Longrightarrow>
       \<exists>u t. log_write b (upd_data b f s1) = Ret () u \<and> brelse b u = Ret () t
         \<and> tx_open t start (tx_put n (f (block s n)) tx) j \<and> block t = (block s)(n := f (block s n)) \<and> tx_same s t"
proof -
  have r: "commit_ready s start tx" using o by (simp add: tx_open_def)
  note c = commit_ready_cst [OF r]
  obtain p where p: "cpu_proc s = Some p" using r by (auto simp: commit_ready_def)
  have few: "few (refs s)" using commit_ready_pins [OF r] by (simp add: pins_def)
  have R: "refs s n + 1 \<noteq> 0" using r by (simp add: commit_ready_def)
  obtain b s1 where 1: "bread ROOTDEV n s = Ret b s1"
    "cst s1 (block s) ((refs s)(n := refs s n + 1)) ((\<lambda>_. False)(n := True)) (disk s) (dwrites s)" "holds s1 b n" "log_same s s1"
    using bread_cst [OF c p _ R few] by blast
  have d: "b_data (bcache s1 b) = block s n" using cst_data [OF 1(2,3)] by simp
  have cl: "((refs s)(n := refs s n + 1)) n = 1 \<Longrightarrow> block s n = disk s n" using idle_clean [OF c, of n] by simp
  obtain t where t: "brelse b s1 = Ret () t" "cst t (block s) (refs s) (\<lambda>_. False) (disk s) (dwrites s)" "log_same s1 t"
    using brelse_cst [OF 1(2,3) cpu_same [OF p 1(4)] cl] by (auto simp: fun_upd_idem)
  note st = log_same_trans [OF 1(4) t(3)]
  have v: "cinv t" "block t = block s" "refs t = refs s" "locked t = (\<lambda>_. False)" "disk t = disk s" "dwrites t = dwrites s"
    using t(2) unfolding cst_def by blast+
  have "log_is s start (map fst tx)" using r by (simp add: commit_ready_def)
  then have "commit_ready t start tx"
    using r v(1,5) cpu_same [OF p st] log_is_same [OF _ st] unfolding commit_ready_def v(2-4) by simp
  then have rel: "\<exists>t. brelse b s1 = Ret () t \<and> tx_open t start tx k \<and> block t = block s \<and> tx_same s t"
    using t(1) v o st by (intro exI [of _ t]) (simp add: tx_open_def tx_same_def log_same_def)
  have upd: "\<exists>u t. log_write b (upd_data b f s1) = Ret () u \<and> brelse b u = Ret () t
      \<and> tx_open t start (tx_put n (f (block s n)) tx) j \<and> block t = (block s)(n := f (block s n)) \<and> tx_same s t"
    if k: "k = Suc j" and n: "n \<notin> log_area start LOGSLOTS" "length (f (block s n)) = BSIZE" for f j
  proof -
    let ?v = "f (block s n)"
    have small: "int (length tx) < sint (log_size s) - 1" "Suc (length tx) < NBUF" "log_outstanding s \<ge> 1"
      using o k by (simp_all add: tx_open_def)
    obtain t where t: "log_update n ?v s = Ret () t" "commit_ready t start (tx_put n ?v tx)" "block t = (block s)(n := ?v)"
      "disk t = disk s" "dwrites t = dwrites s" "log_size t = log_size s" "log_outstanding t = log_outstanding s" "klog.more t = klog.more s"
      using log_update_ready [OF r n small] by auto
    have "bnd (log_write b (upd_data b f s1)) (\<lambda>_. brelse b) = Ret () t"
      using t(1) 1(1) by (simp add: log_update_def upd_data_const d)
    then obtain u where u: "log_write b (upd_data b f s1) = Ret () u" "brelse b u = Ret () t" by (auto elim: bnd_RetE)
    have "length (tx_put n ?v tx) \<le> Suc (length tx)" by (simp add: tx_put_def)
    then show ?thesis using u t o k by (intro exI [of _ u] exI [of _ t]) (simp add: tx_open_def tx_same_def)
  qed
  show thesis by (rule that [OF 1(1) d _ rel upd]) (use 1(4) in \<open>simp add: log_same_def\<close>)
qed

lemma tx_update:
  fixes s :: "'a klog_scheme"
  assumes o: "tx_open s start tx (Suc j)" and n: "n \<notin> log_area start LOGSLOTS" "length (f (block s n)) = BSIZE"
  shows "\<exists>b s1 u t. bread ROOTDEV n s = Ret b s1 \<and> b_data (bcache s1 b) = block s n \<and> klog.more s1 = klog.more s
    \<and> log_write b (upd_data b f s1) = Ret () u \<and> brelse b u = Ret () t
    \<and> tx_open t start (tx_put n (f (block s n)) tx) j \<and> block t = (block s)(n := f (block s n)) \<and> tx_same s t"
proof (rule tx_bread [OF o, of n], goal_cases)
  case (1 b s1)
  from 1(5) [where f = f, OF refl n] 1(1-3) show ?case by blast
qed

section \<open>The set of used blocks\<close>

definition block_used :: "superblock \<Rightarrow> (uint \<Rightarrow> uchar list) \<Rightarrow> uint \<Rightarrow> bool" where
  "block_used x B n \<longleftrightarrow> bit_of (B (BBLOCK n x)) (unat n mod BPB)"

definition used_blocks :: "superblock \<Rightarrow> (uint \<Rightarrow> uchar list) \<Rightarrow> uint set" where
  "used_blocks x B = {n. n < sb_size x \<and> block_used x B n}"

definition data_block :: "superblock \<Rightarrow> uint \<Rightarrow> uint \<Rightarrow> bool" where
  "data_block x start n \<longleftrightarrow> n \<noteq> 0 \<and> n < sb_size x \<and> n \<notin> log_area start LOGSLOTS \<and> (\<forall>m < sb_size x. n \<noteq> BBLOCK m x)
     \<and> (\<forall>i < sb_ninodes x. n \<noteq> IBLOCK i x)"

text \<open>The bitmap lies outside the log and marks every block that is not a data block.\<close>

definition bitmap_ok :: "superblock \<Rightarrow> uint \<Rightarrow> (uint \<Rightarrow> uchar list) \<Rightarrow> bool" where
  "bitmap_ok x start B \<longleftrightarrow> (\<forall>n < sb_size x. BBLOCK n x \<notin> log_area start LOGSLOTS \<and> (data_block x start n \<or> block_used x B n))"

lemma bblock_eq: "BBLOCK m x = BBLOCK n x \<longleftrightarrow> unat m div BPB = unat n div BPB"
proof -
  have "BBLOCK m x = BBLOCK n x \<longleftrightarrow> m div 8192 = n div 8192" by (simp add: BBLOCK_def)
  also have "\<dots> \<longleftrightarrow> unat m div BPB = unat n div BPB" by (simp add: word_unat_eq_iff unat_div)
  finally show ?thesis .
qed

lemma used_upd:
  assumes l: "length (B (BBLOCK n x)) = BSIZE"
  shows "block_used x (B(BBLOCK n x := set_bit_of (B (BBLOCK n x)) (unat n mod BPB))) m \<longleftrightarrow> m = n \<or> block_used x B m"
    "block_used x (B(BBLOCK n x := clear_bit_of (B (BBLOCK n x)) (unat n mod BPB))) m \<longleftrightarrow> m \<noteq> n \<and> block_used x B m"
proof -
  have i: "unat n mod BPB < 8 * length (B (BBLOCK n x))" using l by simp
  have e: "unat m mod BPB = unat n mod BPB \<longleftrightarrow> m = n" if "BBLOCK m x = BBLOCK n x"
    using that unfolding bblock_eq by (metis div_mult_mod_eq word_unat_eq_iff)
  show "block_used x (B(BBLOCK n x := set_bit_of (B (BBLOCK n x)) (unat n mod BPB))) m \<longleftrightarrow> m = n \<or> block_used x B m"
    using e bit_of_set [OF i] by (cases "BBLOCK m x = BBLOCK n x") (auto simp: block_used_def)
  show "block_used x (B(BBLOCK n x := clear_bit_of (B (BBLOCK n x)) (unat n mod BPB))) m \<longleftrightarrow> m \<noteq> n \<and> block_used x B m"
    using e bit_of_clear [OF i] by (cases "BBLOCK m x = BBLOCK n x") (auto simp: block_used_def)
qed

lemma length_bits [simp]: "length (set_bit_of bs i) = length bs" "length (clear_bit_of bs i) = length bs"
  by (simp_all add: set_bit_of_def clear_bit_of_def)

lemma tx_open_length: "tx_open s start tx k \<Longrightarrow> length (block s n) = BSIZE"
  using cst_length [OF commit_ready_cst, of s start tx] by (simp add: tx_open_def)

lemma bzero_open:
  assumes o: "tx_open s start tx (Suc j)" and n: "n \<notin> log_area start LOGSLOTS"
  shows "\<exists>t. bzero ROOTDEV n s = Ret () t \<and> tx_open t start (tx_put n (replicate BSIZE 0) tx) j
    \<and> block t = (block s)(n := replicate BSIZE 0) \<and> tx_same s t"
proof -
  obtain b s1 u t where "bread ROOTDEV n s = Ret b s1" "log_write b (upd_data b (\<lambda>_. replicate BSIZE 0) s1) = Ret () u"
    "brelse b u = Ret () t" "tx_open t start (tx_put n (replicate BSIZE 0) tx) j" "block t = (block s)(n := replicate BSIZE 0)" "tx_same s t"
    using tx_update [OF o n, of "\<lambda>_. replicate BSIZE 0"] by auto
  then show ?thesis by (simp add: bzero_def)
qed

definition set_used :: "superblock \<Rightarrow> uint \<Rightarrow> (uint \<Rightarrow> uchar list) \<Rightarrow> uint \<Rightarrow> uchar list" where
  "set_used x n B = B(BBLOCK n x := set_bit_of (B (BBLOCK n x)) (unat n mod BPB))"

text \<open>What \<open>balloc\<close> leaves: nothing changed on a full disk, otherwise the first free block marked and zeroed.\<close>

definition alloc_post ::
  "superblock \<Rightarrow> uint \<Rightarrow> (uint \<times> uchar list) list \<Rightarrow> nat \<Rightarrow> (uint \<Rightarrow> uchar list) \<Rightarrow> uint \<Rightarrow> 'a klog_scheme \<Rightarrow> bool" where
  "alloc_post x start tx k B r t \<longleftrightarrow>
     (if \<forall>n < sb_size x. block_used x B n then r = 0 \<and> tx_open t start tx (k + 2) \<and> block t = B
      else r < sb_size x \<and> \<not> block_used x B r \<and> (\<forall>m<r. block_used x B m)
        \<and> (\<exists>tx'. tx_open t start tx' k \<and> fst ` set tx' = {r, BBLOCK r x} \<union> fst ` set tx)
        \<and> block t = (set_used x r B)(r := replicate BSIZE 0))"

lemma in_bitmap_block:
  assumes "b mod BPB = 0" "bi < min BPB (unat (sb_size x) - b)"
  shows "BBLOCK (of_nat (b + bi)) x = BBLOCK (of_nat b) x" "unat (of_nat (b + bi) :: uint) = b + bi" "(b + bi) mod BPB = bi"
    "of_nat (b + bi) < sb_size x"
proof -
  have lt: "b + bi < unat (sb_size x)" using assms(2) by linarith
  have sz: "unat (sb_size x) < 2 ^ 32" using unsigned_less [of "sb_size x"] by simp
  show u: "unat (of_nat (b + bi) :: uint) = b + bi" using lt sz by (simp add: unsigned_of_nat take_bit_nat_eq_self del: of_nat_add)
  have ub: "unat (of_nat b :: uint) = b" using lt sz by (simp add: unsigned_of_nat take_bit_nat_eq_self del: of_nat_add)
  obtain q where q: "b = BPB * q" using assms(1) by (auto elim: dvdE)
  show "(b + bi) mod BPB = bi" using assms(2) by (simp add: q)
  show "BBLOCK (of_nat (b + bi)) x = BBLOCK (of_nat b) x" unfolding bblock_eq u ub using assms(2) by (simp add: q)
  show "of_nat (b + bi) < sb_size x" unfolding word_less_nat_alt u by (rule lt)
qed

lemma balloc_take:
  assumes o: "tx_open s start tx (k + 2)" and x: "sb s = x" and m: "bitmap_ok x start (block s)" and b: "b mod BPB = 0" "b < unat (sb_size x)"
    and all: "\<forall>n. unat n < b \<longrightarrow> block_used x (block s) n"
    and bi: "first_idx (\<lambda>bi. \<not> bit_of (block s (BBLOCK (of_nat b) x)) bi) (min BPB (unat (sb_size x) - b)) = Some bi"
  shows "\<exists>t. balloc_loop ROOTDEV (unat (sb_size x)) b s = Ret (of_nat (b + bi)) t
    \<and> alloc_post x start tx k (block s) (of_nat (b + bi)) t \<and> tx_same s t"
proof -
  define r :: uint where "r = of_nat (b + bi)"
  define n where "n = BBLOCK r x"
  have bi': "bi < min BPB (unat (sb_size x) - b)" "\<not> bit_of (block s (BBLOCK (of_nat b) x)) bi"
    "\<forall>i<bi. bit_of (block s (BBLOCK (of_nat b) x)) i" using bi by (auto simp: first_idx_Some)
  note ib = in_bitmap_block [OF b(1) bi'(1), folded r_def]
  have n: "BBLOCK (of_nat b) x = n" "unat r mod BPB = bi" using ib by (simp_all add: n_def)
  have free: "\<not> block_used x (block s) r" using bi'(2) ib by (simp add: block_used_def n)
  have d: "data_block x start r" "n \<notin> log_area start LOGSLOTS" "r \<notin> log_area start LOGSLOTS" "r \<noteq> n"
    using m ib(4) free by (auto simp: bitmap_ok_def n_def data_block_def)
  have below: "block_used x (block s) k" if "k < r" for k
  proof (cases "unat k < b")
    case False
    then obtain i where i: "unat k = b + i" by (metis le_iff_add not_less)
    then have "i < bi" using that ib(2) by (simp add: word_less_nat_alt)
    moreover have "k = of_nat (b + i)" using i by (metis of_nat_unat ucast_id)
    ultimately show ?thesis using in_bitmap_block [OF b(1), of i x] bi' n(1) by (simp add: block_used_def)
  qed (use all in blast)
  obtain c s1 u t where 1: "bread ROOTDEV n s = Ret c s1" "b_data (bcache s1 c) = block s n"
    "log_write c (upd_data c (\<lambda>bs. set_bit_of bs bi) s1) = Ret () u" "brelse c u = Ret () t"
    "tx_open t start (tx_put n (set_bit_of (block s n) bi) tx) (Suc k)" "block t = (block s)(n := set_bit_of (block s n) bi)" "tx_same s t"
    using tx_update [of s start tx "Suc k" n "\<lambda>bs. set_bit_of bs bi"] o d(2) tx_open_length [OF o] by (auto simp: numeral_2_eq_2)
  obtain v where v: "bzero ROOTDEV r t = Ret () v" "tx_open v start (tx_put r (replicate BSIZE 0) (tx_put n (set_bit_of (block s n) bi) tx)) k"
    "block v = (block t)(r := replicate BSIZE 0)" "tx_same t v"
    using bzero_open [of t start _ k r] 1(5) d(3) by auto
  have "balloc_loop ROOTDEV (unat (sb_size x)) b s = Ret r v"
    using b(2) x bi by (subst balloc_loop.simps) (simp add: n 1(1-4) r_def [symmetric] v(1) del: of_nat_add)
  moreover have "\<not> (\<forall>n < sb_size x. block_used x (block s) n)" using free ib(4) by auto
  moreover have "block v = (set_used x r (block s))(r := replicate BSIZE 0)"
    unfolding v(3) 1(6) set_used_def n(2) n_def [symmetric] ..
  moreover have "\<exists>tx'. tx_open v start tx' k \<and> fst ` set tx' = {r, BBLOCK r x} \<union> fst ` set tx"
    by (rule exI, rule conjI [OF v(2)]) (simp add: tx_put_fst(2) n_def)
  ultimately show ?thesis unfolding r_def [symmetric] alloc_post_def
    using ib(4) free below tx_same_trans [OF 1(7) v(4)] by (intro exI [of _ v]) (auto simp del: fun_upd_apply)
qed

lemma say_open: "tx_open (say m s) start tx k = tx_open s start tx k" "block (say m s) = block s" "tx_same s (say m s)"
  using commit_ready_cong [of "say m s" s] by (simp_all add: tx_open_def say_def tx_same_def)

lemma balloc_loop_spec:
  assumes "tx_open s start tx (k + 2)" "sb s = x" "bitmap_ok x start (block s)" "b mod BPB = 0"
    and "\<forall>n. unat n < b \<longrightarrow> n < sb_size x \<longrightarrow> block_used x (block s) n"
  shows "\<exists>r t. balloc_loop ROOTDEV (unat (sb_size x)) b s = Ret r t \<and> alloc_post x start tx k (block s) r t \<and> tx_same s t"
  using assms
proof (induction "unat (sb_size x) - b" arbitrary: b s rule: less_induct)
  case less
  note o = less.prems(1) and x = less.prems(2)
  let ?n = "BBLOCK (of_nat b) x"
  show ?case
  proof (cases "b < unat (sb_size x)")
    case False
    then have "\<forall>n < sb_size x. block_used x (block s) n" using less.prems(5) by (auto simp: word_less_nat_alt)
    moreover have "balloc_loop ROOTDEV (unat (sb_size x)) b s = Ret 0 (say (''balloc: out of blocks'' @ [CHR 0x0A]) s)"
      using False by (subst balloc_loop.simps) simp
    ultimately show ?thesis using o by (auto simp: alloc_post_def say_open)
  next
    case lt: True
    then have all: "\<forall>n. unat n < b \<longrightarrow> block_used x (block s) n" using less.prems(5) by (simp add: word_less_nat_alt)
    show ?thesis
    proof (cases "first_idx (\<lambda>bi. \<not> bit_of (block s ?n) bi) (min BPB (unat (sb_size x) - b))")
      case (Some bi)
      show ?thesis using balloc_take [OF o x less.prems(3,4) lt all Some] by blast
    next
      case None
      obtain c s1 t where 1: "bread ROOTDEV ?n s = Ret c s1" "b_data (bcache s1 c) = block s ?n"
        "brelse c s1 = Ret () t" "tx_open t start tx (k + 2)" "block t = block s" "tx_same s t"
        by (rule tx_bread [OF o, of ?n]) blast
      have st: "balloc_loop ROOTDEV (unat (sb_size x)) b s = balloc_loop ROOTDEV (unat (sb_size x)) (b + BPB) t"
        using lt x None by (subst balloc_loop.simps) (simp add: 1(1-3))
      have xt: "sb t = x" using fs_same [of t s] 1(6) x by (simp add: tx_same_def)
      have used: "block_used x (block t) n" if n: "unat n < b + BPB" "n < sb_size x" for n
      proof (cases "unat n < b")
        case False
        then obtain i where i: "unat n = b + i" by (metis le_iff_add not_less)
        have il: "i < min BPB (unat (sb_size x) - b)" using n i by (simp add: word_less_nat_alt)
        have "n = of_nat (b + i)" using i by (metis of_nat_unat ucast_id)
        moreover have "bit_of (block s ?n) i" using None il by (simp add: first_idx_None)
        ultimately show ?thesis using in_bitmap_block [OF less.prems(4) il] by (simp add: block_used_def 1(5) del: of_nat_add)
      qed (use all 1(5) in simp)
      have "\<exists>r u. balloc_loop ROOTDEV (unat (sb_size x)) (b + BPB) t = Ret r u \<and> alloc_post x start tx k (block t) r u \<and> tx_same t u"
        by (rule less.hyps [OF _ 1(4) xt]) (use lt less.prems(3,4) 1(5) used in auto)
      then show ?thesis using st 1(5) tx_same_trans [OF 1(6)] by auto
    qed
  qed
qed

lemma used_other:
  assumes "\<forall>m < sb_size x. r \<noteq> BBLOCK m x" "m < sb_size x"
  shows "block_used x (B(r := v)) m = block_used x B m"
  using assms by (auto simp: block_used_def)

lemma used_full: "used_blocks x B = {..<sb_size x} \<longleftrightarrow> (\<forall>n < sb_size x. block_used x B n)"
  by (auto simp: used_blocks_def)

lemma alloc_used:
  assumes m: "bitmap_ok x start B" and r: "r < sb_size x" "\<not> block_used x B r" and l: "\<And>n. length (B n) = BSIZE"
    and B': "B' = (set_used x r B)(r := replicate BSIZE 0)"
  shows "data_block x start r" "used_blocks x B' = insert r (used_blocks x B)" "bitmap_ok x start B'"
proof -
  show d: "data_block x start r" using m r by (auto simp: bitmap_ok_def)
  have u: "block_used x B' n \<longleftrightarrow> n = r \<or> block_used x B n" if "n < sb_size x" for n
  proof -
    have "block_used x B' n = block_used x (set_used x r B) n"
      unfolding B' using d that by (intro used_other) (auto simp: data_block_def)
    then show ?thesis unfolding set_used_def using used_upd(1) [OF l] by simp
  qed
  then show "used_blocks x B' = insert r (used_blocks x B)" using r(1) by (auto simp: used_blocks_def)
  show "bitmap_ok x start B'" using m u by (auto simp: bitmap_ok_def)
qed

section \<open>A formatted disk\<close>

text \<open>A file system of 200 blocks with its bitmap in block 45, of which blocks 0 to 45 are used, inside an empty transaction.\<close>

definition demo_bitmap :: "uchar list" where
  "demo_bitmap = replicate 5 255 @ [63] @ replicate (BSIZE - 6) 0"

definition demo_sb :: superblock where
  "demo_sb = \<lparr>sb_magic = FSMAGIC, sb_size = 200, sb_nblocks = 154, sb_ninodes = 100, sb_nlog = 30, sb_logstart = 2,
     sb_inodestart = 32, sb_bmapstart = 45\<rparr>"

definition demo_fs :: kfile where
  "demo_fs = (reboot ((\<lambda>_. replicate BSIZE 0)(45 := demo_bitmap)) bss)
     \<lparr>log_dev := ROOTDEV, log_start := 2, log_size := of_nat LOGSIZE, log_outstanding := 1, sb := demo_sb\<rparr>"

lemma demo_sb_size: "sb_size demo_sb = 200" and demo_sb_inodes: "sb_ninodes demo_sb = 100"
  by (simp_all add: demo_sb_def)

lemma demo_fs_open: "tx_open demo_fs 2 [] 2" "block demo_fs = (\<lambda>_. replicate BSIZE 0)(45 := demo_bitmap)" "sb demo_fs = demo_sb"
proof -
  let ?D = "(\<lambda>_. replicate BSIZE 0)(45 := demo_bitmap)" let ?r = "reboot ?D bss"
  have "length (?D n) = BSIZE" for n by (simp add: demo_bitmap_def)
  from reboot_cst [of ?D bss, OF this] have v: "cinv ?r" "block ?r = ?D" "refs ?r = (\<lambda>_. 0)" "locked ?r = (\<lambda>_. False)" "disk ?r = ?D"
    unfolding cst_def by blast+
  have l: "lh_n (log_lh ?r) = 0" by (simp add: reboot_def binit_def bss_def)
  show "block demo_fs = ?D" using v(2) by (simp add: demo_fs_def)
  show "sb demo_fs = demo_sb" by (simp add: demo_fs_def)
  have i: "log_is demo_fs 2 []" using l by (simp add: log_is_def demo_fs_def)
  have "cinv demo_fs \<and> refs demo_fs = (\<lambda>_. 0) \<and> locked demo_fs = (\<lambda>_. False)" using v(1,3,4) by (simp add: demo_fs_def)
  moreover have "get32 (disk demo_fs 2) 0 = 0" using v(5) get32_zeros by (simp add: demo_fs_def)
  ultimately have "commit_ready demo_fs 2 []" using i unfolding commit_ready_def by (simp add: demo_fs_def)
  then show "tx_open demo_fs 2 [] 2" by (simp add: tx_open_def) (simp add: demo_fs_def)
qed

lemma demo_fs_used: "n < 200 \<Longrightarrow> block_used demo_sb (block demo_fs) n \<longleftrightarrow> unat n < 46"
proof -
  assume "n < 200"
  then have n: "unat n < 200" by (simp add: word_less_nat_alt)
  have b: "BBLOCK n demo_sb = 45" using n by (simp add: BBLOCK_def demo_sb_def word_unat_eq_iff unat_div unat_word_ariths)
  have "list_all (\<lambda>k. bit_of (take 25 demo_bitmap) k \<longleftrightarrow> k < 46) [0..<200]" by code_simp
  then have "bit_of (take 25 demo_bitmap) (unat n) \<longleftrightarrow> unat n < 46" using n by (simp add: list_all_iff)
  then show ?thesis using n by (simp add: block_used_def b demo_fs_open(2) bit_of_bit less_mult_imp_div_less)
qed

lemma demo_iblock: "unat i < 100 \<Longrightarrow> unat (IBLOCK i demo_sb) = unat i div 16 + 32"
  by (simp add: IBLOCK_def demo_sb_def unat_div unat_word_ariths)

lemma demo_fs_ok: "bitmap_ok (sb demo_fs) 2 (block demo_fs)"
proof -
  have b: "BBLOCK n demo_sb = 45" if "unat n < 200" for n
    using that by (simp add: BBLOCK_def demo_sb_def word_unat_eq_iff unat_div unat_word_ariths)
  have "data_block demo_sb 2 n" if "unat n < 200" "46 \<le> unat n" for n
    using that above_log [of 2 LOGSLOTS n] b demo_iblock by (fastforce simp: data_block_def word_less_nat_alt demo_sb_size demo_sb_inodes)
  moreover have "(45 :: uint) \<notin> log_area 2 LOGSLOTS" by (rule above_log) simp
  ultimately show ?thesis using b demo_fs_used by (auto simp: bitmap_ok_def demo_fs_open(3) word_less_nat_alt demo_sb_def not_less)
qed

section \<open>Properties\<close>

text \<open>
  C9. Inside a transaction with room for two blocks, \<open>balloc\<close> returns. When every block is used it gives 0 and changes no
  block; otherwise it gives the first free block, which is a data block, marks it used in the bitmap, fills it with
  zeros and changes nothing else. The blocks it changed are in the transaction, and the disk is not written.\<close>

theorem balloc_refines_set:
  fixes s :: "'a kfs_scheme"
  assumes o: "tx_open s start tx 2" and m: "bitmap_ok (sb s) start (block s)"
  shows "\<exists>r t. balloc ROOTDEV s = Ret r t \<and> disk t = disk s \<and> dwrites t = dwrites s \<and> sb t = sb s \<and> itable t = itable s
    \<and> bitmap_ok (sb s) start (block t)
    \<and> (if used_blocks (sb s) (block s) = {..<sb_size (sb s)} then r = 0 \<and> block t = block s \<and> tx_open t start tx 2
       else data_block (sb s) start r \<and> r \<notin> used_blocks (sb s) (block s) \<and> {..<r} \<subseteq> used_blocks (sb s) (block s)
         \<and> used_blocks (sb s) (block t) = insert r (used_blocks (sb s) (block s))
         \<and> block t r = replicate BSIZE 0 \<and> (\<forall>n. n \<noteq> r \<and> n \<noteq> BBLOCK r (sb s) \<longrightarrow> block t n = block s n)
         \<and> (\<exists>tx'. tx_open t start tx' 0 \<and> fst ` set tx' = {r, BBLOCK r (sb s)} \<union> fst ` set tx))"
proof -
  obtain r t where r: "balloc ROOTDEV s = Ret r t" "alloc_post (sb s) start tx 0 (block s) r t" "tx_same s t"
    using balloc_loop_spec [where k = 0, OF _ refl m, of tx 0] o by (auto simp: balloc_def numeral_2_eq_2)
  have f: "disk t = disk s" "dwrites t = dwrites s" "sb t = sb s" "itable t = itable s"
    using r(3) fs_same [of t s] by (auto simp: tx_same_def)
  show ?thesis
  proof (cases "used_blocks (sb s) (block s) = {..<sb_size (sb s)}")
    case True
    then show ?thesis using r(1,2) f m by (auto simp: alloc_post_def used_full numeral_2_eq_2)
  next
    case False
    then have nf: "\<not> (\<forall>n < sb_size (sb s). block_used (sb s) (block s) n)" by (simp add: used_full)
    have p: "r < sb_size (sb s)" "\<not> block_used (sb s) (block s) r" "\<forall>n<r. block_used (sb s) (block s) n"
      "\<exists>tx'. tx_open t start tx' 0 \<and> fst ` set tx' = {r, BBLOCK r (sb s)} \<union> fst ` set tx"
      "block t = (set_used (sb s) r (block s))(r := replicate BSIZE 0)"
      using r(2) unfolding alloc_post_def if_not_P [OF nf] by blast+
    have "r \<notin> used_blocks (sb s) (block s)" "{..<r} \<subseteq> used_blocks (sb s) (block s)"
      using p(1-3) by (auto simp: used_blocks_def)
    moreover have "block t r = replicate BSIZE 0" "\<forall>n. n \<noteq> r \<and> n \<noteq> BBLOCK r (sb s) \<longrightarrow> block t n = block s n"
      unfolding p(5) by (simp_all add: set_used_def)
    ultimately show ?thesis
      using r(1) f alloc_used [OF m p(1,2) tx_open_length [OF o] p(5)] p(4) False by (intro exI [of _ r] exI [of _ t]) simp
  qed
qed

theorem balloc_refines_set_witness: "\<exists>t. balloc ROOTDEV demo_fs = Ret 46 t \<and> used_blocks demo_sb (block t) = {..<47}"
proof -
  have u: "used_blocks demo_sb (block demo_fs) = {..<46}"
    using demo_fs_used by (auto simp: used_blocks_def demo_sb_def word_less_nat_alt)
  have "(46 :: uint) \<in> {..<200}" by simp
  then have ne: "{..<46} \<noteq> {..<200 :: uint}" by (metis lessThan_iff less_irrefl)
  obtain r t where r: "balloc ROOTDEV demo_fs = Ret r t" "r \<notin> {..<46}" "{..<r} \<subseteq> {..<46}"
    "used_blocks demo_sb (block t) = insert r {..<46}"
    using balloc_refines_set [OF demo_fs_open(1) demo_fs_ok, unfolded demo_fs_open(3) u demo_sb_size if_not_P [OF ne]] by blast
  have "\<not> r < 46" "\<not> 46 < r" using r(2,3) by auto
  then have e: "r = 46" by simp
  have "insert 46 {..<46} = {..<47 :: uint}" by (auto simp: word_less_nat_alt word_unat_eq_iff)
  then show ?thesis using r(1,4) e by auto
qed

text \<open>
  C10. \<open>bfree\<close> of a data block panics exactly when the block is free. Otherwise it returns, the block is
  free, every other block has the use and, except for one block of the bitmap, the contents it had, and the disk is not written.\<close>

theorem bfree_refines_set:
  fixes s :: "'a kfs_scheme"
  assumes o: "tx_open s start tx 1" and m: "bitmap_ok (sb s) start (block s)" and d: "data_block (sb s) start b"
  shows "if b \<notin> used_blocks (sb s) (block s) then bfree ROOTDEV b s = Panic ''freeing free block''
    else \<exists>t tx'. bfree ROOTDEV b s = Ret () t \<and> disk t = disk s \<and> dwrites t = dwrites s \<and> sb t = sb s \<and> itable t = itable s
      \<and> bitmap_ok (sb s) start (block t) \<and> used_blocks (sb s) (block t) = used_blocks (sb s) (block s) - {b}
      \<and> (\<forall>n. n \<noteq> BBLOCK b (sb s) \<longrightarrow> block t n = block s n)
      \<and> tx_open t start tx' 0 \<and> fst ` set tx' = insert (BBLOCK b (sb s)) (fst ` set tx)"
proof -
  let ?n = "BBLOCK b (sb s)" and ?i = "unat b mod BPB"
  have n: "?n \<notin> log_area start LOGSLOTS" "b < sb_size (sb s)" using m d by (auto simp: bitmap_ok_def data_block_def)
  have u: "b \<in> used_blocks (sb s) (block s) \<longleftrightarrow> bit_of (block s ?n) ?i" using n(2) by (simp add: used_blocks_def block_used_def)
  have o': "tx_open s start tx (Suc 0)" using o by simp
  obtain c s1 v t where 1: "bread ROOTDEV ?n s = Ret c s1" "b_data (bcache s1 c) = block s ?n"
    "log_write c (upd_data c (\<lambda>bs. clear_bit_of bs ?i) s1) = Ret () v" "brelse c v = Ret () t"
    "tx_open t start (tx_put ?n (clear_bit_of (block s ?n) ?i) tx) 0" "block t = (block s)(?n := clear_bit_of (block s ?n) ?i)" "tx_same s t"
    using tx_update [where f = "\<lambda>bs. clear_bit_of bs ?i", OF o' n(1)] tx_open_length [OF o] by auto
  have ut: "block_used (sb s) (block t) k \<longleftrightarrow> k \<noteq> b \<and> block_used (sb s) (block s) k" for k
    unfolding 1(6) by (rule used_upd(2) [OF tx_open_length [OF o]])
  have us: "used_blocks (sb s) (block t) = used_blocks (sb s) (block s) - {b}" by (auto simp: used_blocks_def ut)
  have mt: "bitmap_ok (sb s) start (block t)" using m d ut by (auto simp: bitmap_ok_def)
  have f: "disk t = disk s" "dwrites t = dwrites s" "sb t = sb s" "itable t = itable s"
    using 1(7) fs_same [of t s] by (auto simp: tx_same_def)
  have fr: "\<forall>n. n \<noteq> ?n \<longrightarrow> block t n = block s n" unfolding 1(6) by simp
  have fst: "fst ` set (tx_put ?n (clear_bit_of (block s ?n) ?i) tx) = insert ?n (fst ` set tx)" by (rule tx_put_fst(2))
  have bf: "bfree ROOTDEV b s = (if bit_of (block s ?n) ?i then Ret () t else Panic ''freeing free block'')"
    using 1(1-4) by (simp add: bfree_def Let_def)
  show ?thesis
  proof (cases "b \<in> used_blocks (sb s) (block s)")
    case True
    then have r: "bfree ROOTDEV b s = Ret () t" using bf u by simp
    show ?thesis
      by (intro if_not_P [THEN iffD2] exI [of _ t] exI [of _ "tx_put ?n (clear_bit_of (block s ?n) ?i) tx"] conjI r f us mt fr fst 1(5))
        (use True in simp)
  qed (use bf u in simp)
qed

theorem bfree_refines_set_witness: "bfree ROOTDEV 46 demo_fs = Panic ''freeing free block''"
proof -
  have "tx_open demo_fs 2 [] 1" using demo_fs_open(1) by (simp add: tx_open_def)
  moreover have "data_block (sb demo_fs) 2 46" "46 \<notin> used_blocks (sb demo_fs) (block demo_fs)"
    using demo_fs_ok [unfolded bitmap_ok_def demo_fs_open(3) demo_sb_size, rule_format, of 46] demo_fs_used [of 46]
    by (auto simp: demo_fs_open(3) used_blocks_def)
  ultimately show ?thesis using bfree_refines_set [OF _ demo_fs_ok, of "[]" 46] by simp
qed

end
