(* ===== verification/FileIO.thy ===== *)
theory FileIO
  imports Balloc
begin

text \<open>
  File contents: \<open>bmap\<close>, \<open>readi\<close>, \<open>writei\<close> and \<open>iupdate\<close> of kernel/fs.c inside a transaction implement a sequence of
  bytes for every inode.
\<close>

section \<open>The contents of an inode\<close>

text \<open>The address of block \<open>bn\<close> of the file, 0 if it has none.\<close>

definition faddr :: "(uint \<Rightarrow> uchar list) \<Rightarrow> dinode \<Rightarrow> nat \<Rightarrow> uint" where
  "faddr B d bn =
     (if bn < NDIRECT then d_addrs d ! bn
      else if d_addrs d ! NDIRECT = 0 then 0
      else get32 (B (d_addrs d ! NDIRECT)) (4 * (bn - NDIRECT)))"

definition fbyte :: "(uint \<Rightarrow> uchar list) \<Rightarrow> dinode \<Rightarrow> nat \<Rightarrow> uchar" where
  "fbyte B d i = B (faddr B d (i div BSIZE)) ! (i mod BSIZE)"

definition fbytes :: "(uint \<Rightarrow> uchar list) \<Rightarrow> dinode \<Rightarrow> uchar list" where
  "fbytes B d = map (fbyte B d) [0..<unat (d_size d)]"

definition file_blocks :: "(uint \<Rightarrow> uchar list) \<Rightarrow> dinode \<Rightarrow> uint set" where
  "file_blocks B d = {a. a \<noteq> 0 \<and> (a = d_addrs d ! NDIRECT \<or> (\<exists>bn<MAXFILE. a = faddr B d bn))}"

text \<open>
  A well-formed inode: its blocks are used data blocks, no two block numbers share a block, and the file has no holes.
\<close>

definition file_ok :: "superblock \<Rightarrow> uint \<Rightarrow> (uint \<Rightarrow> uchar list) \<Rightarrow> dinode \<Rightarrow> bool" where
  "file_ok x start B d \<longleftrightarrow> length (d_addrs d) = NDIRECT + 1 \<and> unat (d_size d) \<le> MAXFILE * BSIZE
     \<and> (\<forall>a\<in>file_blocks B d. data_block x start a \<and> block_used x B a)
     \<and> (\<forall>bn<MAXFILE. \<forall>bm<MAXFILE. faddr B d bn \<noteq> 0 \<and> faddr B d bm = faddr B d bn \<longrightarrow> bm = bn)
     \<and> (\<forall>bn<MAXFILE. d_addrs d ! NDIRECT \<noteq> 0 \<longrightarrow> faddr B d bn \<noteq> d_addrs d ! NDIRECT)
     \<and> (\<forall>i<unat (d_size d). faddr B d (i div BSIZE) \<noteq> 0)"

text \<open>What a write of \<open>bs\<close> at \<open>off\<close> does to the blocks and to the inode: the bytes, and the blocks outside the file.\<close>

definition wrote ::
  "superblock \<Rightarrow> (uint \<Rightarrow> uchar list) \<Rightarrow> dinode \<Rightarrow> nat \<Rightarrow> uchar list \<Rightarrow> (uint \<Rightarrow> uchar list) \<Rightarrow> dinode \<Rightarrow> bool" where
  "wrote x B d off bs B' d' \<longleftrightarrow> d'\<lparr>d_addrs := []\<rparr> = d\<lparr>d_addrs := []\<rparr>
     \<and> (\<forall>i<MAXFILE * BSIZE. faddr B d (i div BSIZE) \<noteq> 0 \<or> off \<le> i \<and> i < off + length bs \<longrightarrow>
          faddr B' d' (i div BSIZE) \<noteq> 0
          \<and> fbyte B' d' i = (if off \<le> i \<and> i < off + length bs then bs ! (i - off) else fbyte B d i))
     \<and> (\<forall>n < sb_size x. block_used x B n \<and> n \<notin> file_blocks B d \<and> (\<forall>m < sb_size x. n \<noteq> BBLOCK m x) \<longrightarrow>
          B' n = B n \<and> block_used x B' n \<and> n \<notin> file_blocks B' d')"

lemma wrote_refl [simp]: "wrote x B d off [] B d"
  by (auto simp: wrote_def)

lemma wrote_append:
  assumes 1: "wrote x B d off bs B1 d1" and 2: "wrote x B1 d1 (off + length bs) cs B2 d2"
  shows "wrote x B d off (bs @ cs) B2 d2"
proof -
  have "faddr B2 d2 (i div BSIZE) \<noteq> 0
      \<and> fbyte B2 d2 i = (if off \<le> i \<and> i < off + length (bs @ cs) then (bs @ cs) ! (i - off) else fbyte B d i)"
    if i: "i < MAXFILE * BSIZE" "faddr B d (i div BSIZE) \<noteq> 0 \<or> off \<le> i \<and> i < off + length (bs @ cs)" for i
  proof -
    consider (a) "off + length bs \<le> i" "i < off + length bs + length cs" | (b) "off \<le> i" "i < off + length bs"
      | (c) "i < off \<or> off + length (bs @ cs) \<le> i" by force
    then show ?thesis
    proof cases
      case a
      then show ?thesis using 2 i(1) by (auto simp: wrote_def nth_append)
    next
      case b
      then have "faddr B1 d1 (i div BSIZE) \<noteq> 0" "fbyte B1 d1 i = bs ! (i - off)" using 1 i(1) by (simp_all add: wrote_def)
      then show ?thesis using 2 i(1) b by (auto simp: wrote_def nth_append)
    next
      case c
      then have "faddr B1 d1 (i div BSIZE) \<noteq> 0" "fbyte B1 d1 i = fbyte B d i" using 1 i by (auto simp: wrote_def)
      then show ?thesis using 2 i(1) c by (auto simp: wrote_def)
    qed
  qed
  then show ?thesis using 1 2 unfolding wrote_def by simp
qed

lemma file_ok_blocks: "file_ok x start B d \<Longrightarrow> a \<in> file_blocks B d \<Longrightarrow> data_block x start a \<and> block_used x B a"
  by (simp add: file_ok_def)

lemma faddr_in: "bn < MAXFILE \<Longrightarrow> faddr B d bn \<noteq> 0 \<Longrightarrow> faddr B d bn \<in> file_blocks B d"
  by (auto simp: file_blocks_def)

lemma indirect_in: "d_addrs d ! NDIRECT \<noteq> 0 \<Longrightarrow> d_addrs d ! NDIRECT \<in> file_blocks B d"
  by (simp add: file_blocks_def)

lemma faddr_upd: "a \<noteq> d_addrs d ! NDIRECT \<or> a = 0 \<Longrightarrow> faddr (B(a := v)) d = faddr B d"
  by (auto simp: faddr_def fun_eq_iff)

lemma file_blocks_upd: "a \<noteq> d_addrs d ! NDIRECT \<or> a = 0 \<Longrightarrow> file_blocks (B(a := v)) d = file_blocks B d"
  by (simp add: file_blocks_def faddr_upd)

text \<open>A change of one block that is neither in the bitmap nor the indirect block of the file keeps the structure.\<close>

lemma used_keep: "\<forall>m < sb_size x. a \<noteq> BBLOCK m x \<Longrightarrow> n < sb_size x \<Longrightarrow> block_used x (B(a := v)) n = block_used x B n"
  by (rule used_other)

lemma bitmap_ok_upd: "\<forall>m < sb_size x. a \<noteq> BBLOCK m x \<Longrightarrow> bitmap_ok x start (B(a := v)) = bitmap_ok x start B"
  by (auto simp: bitmap_ok_def used_keep)

lemma file_ok_upd:
  assumes "\<forall>m < sb_size x. a \<noteq> BBLOCK m x" "a \<noteq> d_addrs d ! NDIRECT \<or> a = 0" "file_ok x start B d"
  shows "file_ok x start (B(a := v)) d"
proof -
  have "block_used x (B(a := v)) n" if "n \<in> file_blocks B d" for n
    using file_ok_blocks [OF assms(3) that] used_keep [OF assms(1)] by (simp add: data_block_def)
  then show ?thesis using assms unfolding file_ok_def faddr_upd [OF assms(2)] file_blocks_upd [OF assms(2)] by blast
qed

lemma nth_put_bytes:
  assumes "k + length xs \<le> length bs" "i < length bs"
  shows "put_bytes bs k xs ! i = (if k \<le> i \<and> i < k + length xs then xs ! (i - k) else bs ! i)"
  using assms by (auto simp: put_bytes_def nth_append)

lemma in_block:
  fixes i off l :: nat
  assumes "off \<le> i" "i < off + l" "off mod BSIZE + l \<le> BSIZE"
  shows "i div BSIZE = off div BSIZE"
proof -
  define q r where "q = off div BSIZE" "r = off mod BSIZE"
  have "off = q * BSIZE + r" unfolding q_r_def by (rule div_mult_mod_eq [symmetric])
  then show ?thesis using assms unfolding q_r_def [symmetric] by (intro div_nat_eqI) simp_all
qed

lemma block_offset:
  fixes i off l :: nat
  assumes "i div BSIZE = off div BSIZE"
  shows "off mod BSIZE \<le> i mod BSIZE \<longleftrightarrow> off \<le> i" "i mod BSIZE < off mod BSIZE + l \<longleftrightarrow> i < off + l"
    "i mod BSIZE - off mod BSIZE = i - off"
proof -
  define q ri ro where "q = off div BSIZE" "ri = i mod BSIZE" "ro = off mod BSIZE"
  have "i = q * BSIZE + ri" "off = q * BSIZE + ro" using assms unfolding q_ri_ro_def by (metis div_mult_mod_eq)+
  then show "off mod BSIZE \<le> i mod BSIZE \<longleftrightarrow> off \<le> i" "i mod BSIZE < off mod BSIZE + l \<longleftrightarrow> i < off + l"
    "i mod BSIZE - off mod BSIZE = i - off" unfolding q_ri_ro_def(2,3) [symmetric] by simp_all
qed

lemma write_block:
  assumes f: "file_ok x start B d" and m: "bitmap_ok x start B" and a: "a = faddr B d (off div BSIZE)" "a \<noteq> 0"
    and b: "off div BSIZE < MAXFILE" "off mod BSIZE + length bs \<le> BSIZE" and l: "length (B a) = BSIZE"
    and B': "B' = B(a := put_bytes (B a) (off mod BSIZE) bs)"
  shows "file_ok x start B' d" "bitmap_ok x start B'" "wrote x B d off bs B' d"
proof -
  have in': "a \<in> file_blocks B d" using faddr_in [OF b(1)] a by simp
  have nb: "\<forall>m < sb_size x. a \<noteq> BBLOCK m x" using file_ok_blocks [OF f in'] by (simp add: data_block_def)
  have ni: "a \<noteq> d_addrs d ! NDIRECT \<or> a = 0" using f a b(1) by (auto simp: file_ok_def)
  show "file_ok x start B' d" unfolding B' by (rule file_ok_upd [OF nb ni f])
  show "bitmap_ok x start B'" using m unfolding B' bitmap_ok_upd [OF nb] .
  have fb: "fbyte B' d i = (if off \<le> i \<and> i < off + length bs then bs ! (i - off) else fbyte B d i)"
    "off \<le> i \<and> i < off + length bs \<Longrightarrow> faddr B d (i div BSIZE) \<noteq> 0" if i: "i < MAXFILE * BSIZE" for i
  proof -
    let ?q = "i div BSIZE" and ?p = "off div BSIZE"
    have q: "?q < MAXFILE" using i by (simp add: less_mult_imp_div_less)
    have io: "i = ?q * BSIZE + i mod BSIZE" "off = ?p * BSIZE + off mod BSIZE" by simp_all
    have same: "?q = ?p" if "off \<le> i" "i < off + length bs" using in_block [OF that b(2)] .
    show "off \<le> i \<and> i < off + length bs \<Longrightarrow> faddr B d ?q \<noteq> 0" using same a by auto
    show "fbyte B' d i = (if off \<le> i \<and> i < off + length bs then bs ! (i - off) else fbyte B d i)"
    proof (cases "?q = ?p")
      case True
      have "fbyte B' d i = put_bytes (B a) (off mod BSIZE) bs ! (i mod BSIZE)"
        unfolding fbyte_def B' faddr_upd [OF ni] True a(1) [symmetric] by simp
      also have "\<dots> = (if off \<le> i \<and> i < off + length bs then bs ! (i - off) else B a ! (i mod BSIZE))"
        using nth_put_bytes [of "off mod BSIZE" bs "B a" "i mod BSIZE"] b(2) l by (simp add: block_offset [OF True])
      finally show ?thesis using a(1) True by (simp add: fbyte_def)
    next
      case False
      then have "faddr B d ?q \<noteq> a" using f q a b(1) by (auto simp: file_ok_def)
      then have "fbyte B' d i = fbyte B d i" unfolding fbyte_def B' faddr_upd [OF ni] by simp
      then show ?thesis using False same by auto
    qed
  qed
  have fr: "B' n = B n \<and> block_used x B' n \<and> n \<notin> file_blocks B' d"
    if "n < sb_size x" "block_used x B n" "n \<notin> file_blocks B d" for n
    using that in' unfolding B' by (auto simp: used_keep [OF nb] file_blocks_upd [OF ni])
  have fa: "faddr B' d = faddr B d" unfolding B' by (rule faddr_upd [OF ni])
  show "wrote x B d off bs B' d" unfolding wrote_def fa
    by (intro conjI allI impI refl) (use fb fr in blast)+
qed

text \<open>A fresh direct block.\<close>

lemma grow_block:
  assumes f: "file_ok x start B d" and m: "bitmap_ok x start B" and l: "\<And>n. length (B n) = BSIZE"
    and a: "a < sb_size x" "\<not> block_used x B a" and bn: "bn < NDIRECT" "faddr B d bn = 0"
    and B': "B' = (set_used x a B)(a := replicate BSIZE 0)" and d': "d' = d\<lparr>d_addrs := (d_addrs d)[bn := a]\<rparr>"
  shows "file_ok x start B' d'" "bitmap_ok x start B'" "wrote x B d off [] B' d'" "faddr B' d' bn = a" "a \<noteq> 0"
proof -
  have len: "length (d_addrs d) = NDIRECT + 1" using f by (simp add: file_ok_def)
  have da: "data_block x start a" and ok: "bitmap_ok x start B'" and us: "used_blocks x B' = insert a (used_blocks x B)"
    using alloc_used [OF m a l B'] by blast+
  show "bitmap_ok x start B'" by (rule ok)
  show a0: "a \<noteq> 0" using da by (simp add: data_block_def)
  have fresh: "n \<noteq> a" if "n \<in> file_blocks B d" for n using file_ok_blocks [OF f that] a(2) by auto
  have keep: "B' n = B n" if "n \<in> file_blocks B d" for n
  proof -
    have "n \<noteq> BBLOCK a x" using file_ok_blocks [OF f that] a(1) by (simp add: data_block_def)
    then show ?thesis using fresh [OF that] by (simp add: B' set_used_def)
  qed
  have ind: "d_addrs d' ! NDIRECT = d_addrs d ! NDIRECT" using bn(1) by (simp add: d')
  have fa: "faddr B' d' = (faddr B d)(bn := a)"
  proof
    fix k
    show "faddr B' d' k = ((faddr B d)(bn := a)) k"
      using bn(1) len keep [OF indirect_in] by (cases "d_addrs d ! NDIRECT = 0") (auto simp: faddr_def d')
  qed
  then show "faddr B' d' bn = a" by simp
  have fb: "file_blocks B' d' = insert a (file_blocks B d)"
    unfolding file_blocks_def ind fa using a0 bn by (auto split: if_splits)
  have sz: "d_size d' = d_size d" by (simp add: d')
  have "\<forall>n\<in>file_blocks B' d'. data_block x start n \<and> block_used x B' n"
    using us f da unfolding fb by (auto simp: used_blocks_def data_block_def file_ok_def set_eq_iff)
  moreover have "\<forall>bn<MAXFILE. \<forall>bm<MAXFILE. faddr B' d' bn \<noteq> 0 \<and> faddr B' d' bm = faddr B' d' bn \<longrightarrow> bm = bn"
    using f fresh faddr_in [of _ B d] bn(2) unfolding fa by (auto simp: file_ok_def split: if_splits)
  moreover have "\<forall>bn<MAXFILE. d_addrs d' ! NDIRECT \<noteq> 0 \<longrightarrow> faddr B' d' bn \<noteq> d_addrs d' ! NDIRECT"
    using f fresh indirect_in [of d B] unfolding fa ind by (auto simp: file_ok_def)
  moreover have "\<forall>i<unat (d_size d'). faddr B' d' (i div BSIZE) \<noteq> 0"
    using f a0 unfolding fa sz by (auto simp: file_ok_def)
  ultimately show "file_ok x start B' d'" using f len by (simp add: file_ok_def d')
  have "fbyte B' d' i = fbyte B d i" if "i < MAXFILE * BSIZE" "faddr B d (i div BSIZE) \<noteq> 0" for i
    using that bn(2) keep [OF faddr_in] unfolding fbyte_def fa by (auto simp: less_mult_imp_div_less)
  moreover have "B' n = B n \<and> block_used x B' n \<and> n \<notin> file_blocks B' d'"
    if "n < sb_size x" "block_used x B n" "n \<notin> file_blocks B d" "\<forall>m < sb_size x. n \<noteq> BBLOCK m x" for n
    using that a us unfolding fb by (auto simp: B' set_used_def used_blocks_def set_eq_iff)
  ultimately show "wrote x B d off [] B' d'" using a0 unfolding wrote_def fa by (auto simp: d')
qed

end
