(* ===== verification/ReadWrite.thy ===== *)
theory ReadWrite
  imports FileIO
begin

text \<open>
  \<open>bmap\<close>, \<open>readi\<close>, \<open>writei\<close> and \<open>iupdate\<close> of kernel/fs.c on the contents of an inode, inside a transaction.
\<close>

section \<open>The view of the file system\<close>









section \<open>Inodes on disk\<close>



lemma length_concat_addrs [simp]: "length (concat (map (le_bytes 4) as)) = 4 * length as"
  by (induction as) simp_all











section \<open>Block addresses\<close>




section \<open>Reading\<close>


section \<open>Writing\<close>







section \<open>Contents after a write\<close>

lemma faddr_size [simp]: "faddr B (d\<lparr>d_size := z\<rparr>) = faddr B d" "fbyte B (d\<lparr>d_size := z\<rparr>) = fbyte B d"
  "file_blocks B (d\<lparr>d_size := z\<rparr>) = file_blocks B d"
  by (simp_all add: faddr_def fbyte_def file_blocks_def fun_eq_iff)










section \<open>A file\<close>





section \<open>Properties\<close>





end
