(* ===== verification/Ulib.thy ===== *)
theory Ulib
  imports Memory
begin

text \<open>
  The string and memory functions of user/ulib.c on byte memory: \<open>strcpy\<close>, \<open>strcmp\<close>, \<open>strncmp\<close>, \<open>strlen\<close>, \<open>memset\<close>,
  \<open>memmove\<close>, \<open>memcmp\<close> and \<open>memcpy\<close>. A loop that looks for a NUL does not return when there is
  none: the value \<open>None\<close>. \<open>strchr\<close>, \<open>atoi\<close> and \<open>gets\<close> are in Grep, Printf and Sh, on strings.
\<close>

section \<open>Definitions\<close>

partial_function (option) ulib_strcpy :: "memory \<Rightarrow> uint64 \<Rightarrow> uint64 \<Rightarrow> memory option" where
  "ulib_strcpy m s t =
     (let m' = m(s := m t) in if m t \<noteq> 0 then ulib_strcpy m' (s + 1) (t + 1) else Some m')"

partial_function (option) ulib_strcmp :: "memory \<Rightarrow> uint64 \<Rightarrow> uint64 \<Rightarrow> int option" where
  "ulib_strcmp m p q =
     (if m p \<noteq> 0 \<and> m p = m q then ulib_strcmp m (p + 1) (q + 1) else Some (uint (m p) - uint (m q)))"

fun ulib_strncmp :: "memory \<Rightarrow> uint64 \<Rightarrow> uint64 \<Rightarrow> nat \<Rightarrow> int" where
  "ulib_strncmp m p q 0 = 0"
| "ulib_strncmp m p q (Suc n) =
     (if m p \<noteq> 0 \<and> m p = m q then ulib_strncmp m (p + 1) (q + 1) n else uint (m p) - uint (m q))"

partial_function (option) ulib_strlen_loop :: "memory \<Rightarrow> uint64 \<Rightarrow> nat \<Rightarrow> nat option" where
  "ulib_strlen_loop m s n = (if m (s + of_nat n) \<noteq> 0 then ulib_strlen_loop m s (n + 1) else Some n)"

definition ulib_strlen :: "memory \<Rightarrow> uint64 \<Rightarrow> uint option" where
  "ulib_strlen m s = map_option of_nat (ulib_strlen_loop m s 0)"

text \<open>\<open>cdst[i] = c\<close> keeps the low byte of the \<open>int\<close>.\<close>

fun ulib_memset_loop :: "memory \<Rightarrow> uint64 \<Rightarrow> uchar \<Rightarrow> nat \<Rightarrow> nat \<Rightarrow> memory" where
  "ulib_memset_loop m dst c i 0 = m"
| "ulib_memset_loop m dst c i (Suc k) = ulib_memset_loop (m(dst + of_nat i := c)) dst c (Suc i) k"

definition ulib_memset :: "memory \<Rightarrow> uint64 \<Rightarrow> uint \<Rightarrow> uint \<Rightarrow> memory" where
  "ulib_memset m dst c n = ulib_memset_loop m dst (ucast c) 0 (unat n)"

text \<open>The count is a C \<open>int\<close>; \<open>while(n-- > 0)\<close> runs \<open>n\<close> times, not at all when it is negative.\<close>

definition ulib_memmove :: "memory \<Rightarrow> uint64 \<Rightarrow> uint64 \<Rightarrow> int \<Rightarrow> memory" where
  "ulib_memmove m vdst vsrc n =
     (if vsrc > vdst then copy_up m vdst vsrc (nat n)
      else copy_down m (vdst + of_int n) (vsrc + of_int n) (nat n))"

fun ulib_memcmp :: "memory \<Rightarrow> uint64 \<Rightarrow> uint64 \<Rightarrow> nat \<Rightarrow> int" where
  "ulib_memcmp m p1 p2 0 = 0"
| "ulib_memcmp m p1 p2 (Suc n) =
     (if m p1 \<noteq> m p2 then uint (m p1) - uint (m p2) else ulib_memcmp m (p1 + 1) (p2 + 1) n)"

text \<open>\<open>memcpy\<close> passes its \<open>uint\<close> count to the \<open>int\<close> parameter of \<open>memmove\<close>.\<close>

definition ulib_memcpy :: "memory \<Rightarrow> uint64 \<Rightarrow> uint64 \<Rightarrow> uint \<Rightarrow> memory" where
  "ulib_memcpy m dst src n = ulib_memmove m dst src (sint n)"

section \<open>Copying blocks\<close>

lemma ulib_memmove_apply:
  assumes "n < 2 ^ 31" and "unat dst + n \<le> 2 ^ 64" and "unat src + n \<le> 2 ^ 64"
  shows "ulib_memmove m dst src (int n) x = (if unat (x - dst) < n then m (src + (x - dst)) else m x)"
proof (cases "src > dst")
  case True
  then have "unat (dst - src) = unat dst + 2 ^ 64 - unat src" by (simp add: word_less_nat_alt unat_sub_if')
  then have "n \<le> unat (dst - src)" using assms(3) True by (simp add: word_less_nat_alt)
  then show ?thesis using True assms(1) by (simp add: ulib_memmove_def copy_up_apply)
next
  case False
  have "dst = src \<or> n \<le> unat (src - dst)"
  proof (cases "dst = src")
    case ne: False
    then have "unat src < unat dst" using False by (simp add: not_less word_le_nat_alt word_unat_eq_iff)
    then have "unat (src - dst) = unat src + 2 ^ 64 - unat dst" by (simp add: unat_sub_if')
    then show ?thesis using assms(2) by arith
  qed simp
  then show ?thesis using False assms(1) by (simp add: ulib_memmove_def copy_down_apply)
qed

section \<open>Strings\<close>

text \<open>The string at \<open>t\<close> has length \<open>n\<close>.\<close>

definition string_at :: "memory \<Rightarrow> uint64 \<Rightarrow> nat \<Rightarrow> bool" where
  "string_at m t n \<longleftrightarrow> (\<forall>i<n. m (t + of_nat i) \<noteq> 0) \<and> m (t + of_nat n) = 0"

lemma string_at_0: "string_at m t 0 \<longleftrightarrow> m t = 0"
  by (simp add: string_at_def)

lemma string_at_Suc: "string_at m t (Suc n) \<longleftrightarrow> m t \<noteq> 0 \<and> string_at m (t + 1) n"
  by (auto simp: string_at_def less_Suc_eq_0_disj chars_Suc add.assoc)

lemma ulib_strcpy_apply:
  "string_at m t n \<Longrightarrow> apart s t (Suc n) \<Longrightarrow> \<exists>m'. ulib_strcpy m s t = Some m'
    \<and> (\<forall>x. m' x = (if unat (x - s) \<le> n then m (t + (x - s)) else m x))"
proof (induction n arbitrary: m s t)
  case 0
  then have "ulib_strcpy m s t = Some (m(s := m t))" by (subst ulib_strcpy.simps) (simp add: string_at_0 Let_def)
  then show ?case by (auto simp: unat_eq_0)
next
  case (Suc n)
  let ?m = "m(s := m t)"
  have ap: "apart (s + 1) (t + 1) (Suc n)" by (rule apart_Suc [OF Suc.prems(2)])
  have ne: "t + of_nat j \<noteq> s" if "j \<le> Suc n" for j using apart_neq [OF Suc.prems(2)] that by simp
  have keep: "?m (t + 1 + of_nat i) = m (t + 1 + of_nat i)" if "i \<le> n" for i
    using ne [of "Suc i"] that by (simp add: add.assoc)
  have "string_at ?m (t + 1) n" using Suc.prems(1) keep unfolding string_at_Suc by (simp add: string_at_def)
  from Suc.IH [OF this ap] obtain m' where m': "ulib_strcpy ?m (s + 1) (t + 1) = Some m'"
    "\<And>x. m' x = (if unat (x - (s + 1)) \<le> n then ?m (t + 1 + (x - (s + 1))) else ?m x)" by blast
  have "ulib_strcpy m s t = Some m'"
    using m'(1) Suc.prems(1) by (subst ulib_strcpy.simps) (simp add: string_at_Suc Let_def)
  moreover have "m' x = (if unat (x - s) \<le> Suc n then m (t + (x - s)) else m x)" for x
  proof (cases "x = s")
    case True
    have "n < 2 ^ 64 - 1" using Suc.prems(2) unsigned_less [of "s - t", where 'a = nat] by (simp add: apart_def)
    then show ?thesis using True m'(2) [of s] by simp
  next
    case False
    have u: "unat (x - s) = Suc (unat (x - (s + 1)))" by (rule unat_minus_Suc [OF False])
    have e: "t + 1 + (x - (s + 1)) = t + (x - s)" by simp
    have "t + (x - s) \<noteq> s" if "unat (x - s) \<le> Suc n"
      using ne [of "unat (x - s)"] that by simp
    then show ?thesis using m'(2) [of x] False u e by simp
  qed
  ultimately show ?case by blast
qed

lemma ulib_strcmp_equal:
  "string_at m p n \<Longrightarrow> (\<forall>i\<le>n. m (p + of_nat i) = m (q + of_nat i)) \<Longrightarrow> ulib_strcmp m p q = Some 0"
proof (induction n arbitrary: p q)
  case 0
  then show ?case by (subst ulib_strcmp.simps) (simp add: string_at_0)
next
  case (Suc n)
  have "\<forall>i\<le>n. m (p + 1 + of_nat i) = m (q + 1 + of_nat i)"
    using Suc.prems(2) by (metis chars_Suc Suc_le_mono)
  then have "ulib_strcmp m (p + 1) (q + 1) = Some 0" using Suc by (simp add: string_at_Suc)
  moreover have "m p = m q" using Suc.prems(2) by force
  ultimately show ?case using Suc.prems(1) by (subst ulib_strcmp.simps) (simp add: string_at_Suc)
qed

lemma ulib_strlen_loop_step:
  "string_at m s n \<Longrightarrow> k \<le> n \<Longrightarrow> ulib_strlen_loop m s k = Some n"
proof (induction "n - k" arbitrary: k)
  case 0
  then show ?case by (subst ulib_strlen_loop.simps) (simp add: string_at_def)
next
  case (Suc d)
  then show ?case by (subst ulib_strlen_loop.simps) (simp add: string_at_def)
qed

section \<open>Properties\<close>

text \<open>
  C33. \<open>memmove\<close> of user/ulib.c, which chooses its direction by comparing the two pointers only, has
  the effect of the kernel's \<open>memmove\<close>, which looks for an overlap, on every pair of
  ranges that does not run past the end of the address space; \<open>memcpy\<close> tolerates overlap as well.\<close>

theorem ulib_memmove_is_memmove:
  assumes "n < 2 ^ 31" and "unat dst + n \<le> 2 ^ 64" and "unat src + n < 2 ^ 64"
  shows "ulib_memmove m dst src (int n) = memmove m dst src n \<and> ulib_memcpy m dst src (of_nat n) = memmove m dst src n"
proof -
  have "ulib_memmove m dst src (int n) x = memmove m dst src n x" for x
    using ulib_memmove_apply [of n dst src m x] memmove_apply [of n dst src m x] assms by simp
  moreover have "sint (of_nat n :: uint) = int n"
    using assms(1) by (simp add: signed_of_nat signed_take_bit_int_eq_self)
  ultimately show ?thesis by (simp add: ulib_memcpy_def fun_eq_iff)
qed

theorem ulib_memmove_is_memmove_witness:
  "ulib_memmove (\<lambda>a. ucast a) 0x1001 0x1000 (int 3) = memmove (\<lambda>a. ucast a) 0x1001 0x1000 3"
  using ulib_memmove_is_memmove [of 3 "0x1001" "0x1000" "\<lambda>a. ucast a"] by simp

text \<open>
  C34. \<open>strcpy\<close> of a string to a place apart from it returns, \<open>strcmp\<close> then finds the two
  equal, \<open>strlen\<close> of the copy is that of the source, and nothing but the bytes of the copy and its
  NUL has changed.\<close>

theorem ulib_strcpy_strcmp:
  assumes "string_at m t n" and "apart s t (Suc n)"
  shows "\<exists>m'. ulib_strcpy m s t = Some m' \<and> ulib_strcmp m' s t = Some 0 \<and> ulib_strlen m' s = Some (of_nat n)
    \<and> (\<forall>x. n < unat (x - s) \<longrightarrow> m' x = m x)"
proof -
  obtain m' where m': "ulib_strcpy m s t = Some m'" "\<And>x. m' x = (if unat (x - s) \<le> n then m (t + (x - s)) else m x)"
    using ulib_strcpy_apply [OF assms] by blast
  have n64: "n < 2 ^ 64" using assms(2) unsigned_less [of "s - t", where 'a = nat] by (simp add: apart_def)
  have copy: "m' (s + of_nat i) = m (t + of_nat i)" if "i \<le> n" for i
    using m'(2) [of "s + of_nat i"] unat_offset [of i s] that n64 by simp
  have src: "m' (t + of_nat i) = m (t + of_nat i)" if "i \<le> n" for i
  proof -
    have "n < unat (t + of_nat i - s)"
    proof -
      have "unat (t - s) \<ge> Suc n" "unat (s - t) \<ge> Suc n" using assms(2) by (auto simp: apart_def)
      moreover have "unat (t + of_nat i - s) = unat (t - s + of_nat i)" by (simp add: algebra_simps)
      moreover have "unat (t - s) + unat (s - t) = 2 ^ 64"
        using calculation(1) unsigned_less [of t, where 'a = nat] unsigned_less [of s, where 'a = nat]
        by (simp add: unat_sub_if' split: if_splits)
      ultimately show ?thesis using that n64 by (simp add: unat_word_ariths unat_of_nat)
    qed
    then show ?thesis using m'(2) by simp
  qed
  have at: "string_at m' s n" using assms(1) copy by (simp add: string_at_def)
  have "ulib_strcmp m' s t = Some 0" by (rule ulib_strcmp_equal [OF at]) (simp add: copy src)
  moreover have "ulib_strlen m' s = Some (of_nat n)" using ulib_strlen_loop_step [OF at, of 0] by (simp add: ulib_strlen_def)
  ultimately show ?thesis using m' by auto
qed

theorem ulib_strcpy_strcmp_witness:
  "\<exists>m'. ulib_strcpy (\<lambda>a. if a = 0x2001 then 0 else 65) 0x1000 0x2000 = Some m' \<and> ulib_strcmp m' 0x1000 0x2000 = Some 0
    \<and> m' 0x1002 = 65"
proof -
  let ?m = "\<lambda>a :: uint64. if a = 0x2001 then 0 else 65 :: uchar"
  have "string_at ?m 0x2000 1" "apart 0x1000 0x2000 (Suc 1)" by (simp_all add: string_at_def apart_def)
  from ulib_strcpy_strcmp [OF this] show ?thesis by fastforce
qed

end
