(* ===== verification/Grep.thy ===== *)
theory Grep
  imports Prelude
begin

text \<open>
  The grep program, user/grep.c: the Kernighan-Pike matcher and the line loop over the
  input. A C string is the list of its characters before the NUL; a pointer into it is
  the suffix it points to. Input is a list of chunks, what successive calls of \<open>read\<close>
  can return.
\<close>

section \<open>The matcher\<close>

function matchhere :: "string \<Rightarrow> string \<Rightarrow> bool"
  and matchstar :: "char \<Rightarrow> string \<Rightarrow> string \<Rightarrow> bool" where
  "matchhere re text =
     (if re = [] then True
      else if length re > 1 \<and> re ! 1 = CHR ''*'' then matchstar (hd re) (drop 2 re) text
      else if hd re = CHR ''$'' \<and> length re = 1 then text = []
      else if text \<noteq> [] \<and> (hd re = CHR ''.'' \<or> hd re = hd text) then matchhere (tl re) (tl text)
      else False)"
| "matchstar c re text =
     (if matchhere re text then True
      else if text \<noteq> [] \<and> (hd text = c \<or> c = CHR ''.'') then matchstar c re (tl text)
      else False)"
  by pat_completeness auto
termination
  by (relation "inv_image (less_than <*lex*> less_than)
        (\<lambda>x. case x of Inl (re, text) \<Rightarrow> (length re, length text)
                   | Inr (c, re, text) \<Rightarrow> (Suc (length re), length text))") auto

declare matchhere.simps [simp del] matchstar.simps [simp del]

fun match_scan :: "string \<Rightarrow> string \<Rightarrow> bool" where
  "match_scan re text =
     (if matchhere re text then True
      else case text of [] \<Rightarrow> False | _ # text' \<Rightarrow> match_scan re text')"

declare match_scan.simps [simp del]

definition match :: "string \<Rightarrow> string \<Rightarrow> bool" where
  "match re text =
     (if re \<noteq> [] \<and> hd re = CHR ''^'' then matchhere (tl re) text else match_scan re text)"

section \<open>The meaning of patterns\<close>

datatype item = One char | Star char

definition accepts :: "char \<Rightarrow> char \<Rightarrow> bool" where
  "accepts p c \<longleftrightarrow> p = CHR ''.'' \<or> p = c"

fun item_lang :: "item \<Rightarrow> string set" where
  "item_lang (One p) = {[c] | c. accepts p c}"
| "item_lang (Star p) = {w. list_all (accepts p) w}"

fun lang :: "item list \<Rightarrow> string set" where
  "lang [] = {[]}"
| "lang (i # is) = {u @ v | u v. u \<in> item_lang i \<and> v \<in> lang is}"

text \<open>The items of a pattern, and whether it ends in an end-of-line anchor.\<close>

fun items :: "string \<Rightarrow> item list \<times> bool" where
  "items [] = ([], False)"
| "items [p] = (if p = CHR ''$'' then ([], True) else ([One p], False))"
| "items (p # q # re) =
     (if q = CHR ''*'' then (let (is, e) = items re in (Star p # is, e))
      else (let (is, e) = items (q # re) in (One p # is, e)))"

definition matches_prefix :: "item list \<times> bool \<Rightarrow> string \<Rightarrow> bool" where
  "matches_prefix r text \<longleftrightarrow> (\<exists>u v. text = u @ v \<and> u \<in> lang (fst r) \<and> (snd r \<longrightarrow> v = []))"

definition matches :: "string \<Rightarrow> string \<Rightarrow> bool" where
  "matches re text \<longleftrightarrow>
     (if re \<noteq> [] \<and> hd re = CHR ''^'' then matches_prefix (items (tl re)) text
      else \<exists>a t. text = a @ t \<and> matches_prefix (items re) t)"

lemma matches_prefix_Nil [simp]: "matches_prefix ([], e) text \<longleftrightarrow> (e \<longrightarrow> text = [])"
  by (auto simp: matches_prefix_def)

lemma lang_One: "x \<in> lang (One p # is) \<longleftrightarrow> (\<exists>c u. x = c # u \<and> accepts p c \<and> u \<in> lang is)"
  by auto (metis append_Cons append_Nil)

lemma lang_StarI: "list_all (accepts p) w \<Longrightarrow> u \<in> lang is \<Longrightarrow> w @ u \<in> lang (Star p # is)"
  by auto

lemma matches_prefixI: "u \<in> lang is \<Longrightarrow> (e \<longrightarrow> v = []) \<Longrightarrow> matches_prefix (is, e) (u @ v)"
  unfolding matches_prefix_def fst_conv snd_conv by blast

lemma matches_prefixE:
  assumes "matches_prefix (is, e) text"
  obtains u v where "text = u @ v" "u \<in> lang is" "e \<longrightarrow> v = []"
  using assms unfolding matches_prefix_def fst_conv snd_conv by blast

lemma matches_prefix_One:
  "matches_prefix (One p # is, e) text \<longleftrightarrow>
     (\<exists>c t. text = c # t \<and> accepts p c \<and> matches_prefix (is, e) t)"
proof
  assume "matches_prefix (One p # is, e) text"
  then obtain x v where x: "text = x @ v" "x \<in> lang (One p # is)" "e \<longrightarrow> v = []"
    by (rule matches_prefixE)
  from x(2) obtain c u where "x = c # u" "accepts p c" "u \<in> lang is" unfolding lang_One by blast
  then show "\<exists>c t. text = c # t \<and> accepts p c \<and> matches_prefix (is, e) t"
    using x matches_prefixI by (intro exI [of _ c] exI [of _ "u @ v"]) simp
next
  assume "\<exists>c t. text = c # t \<and> accepts p c \<and> matches_prefix (is, e) t"
  then obtain c t where t: "text = c # t" "accepts p c" "matches_prefix (is, e) t" by blast
  from t(3) obtain u v where "t = u @ v" "u \<in> lang is" "e \<longrightarrow> v = []" by (rule matches_prefixE)
  with t have u: "text = c # u @ v" "accepts p c" "u \<in> lang is" "e \<longrightarrow> v = []" by simp_all
  then have "c # u \<in> lang (One p # is)" unfolding lang_One by blast
  from matches_prefixI [OF this u(4)] show "matches_prefix (One p # is, e) text" using u(1) by simp
qed

lemma matches_prefix_Star:
  "matches_prefix (Star p # is, e) text \<longleftrightarrow>
     matches_prefix (is, e) text \<or>
     (\<exists>c t. text = c # t \<and> accepts p c \<and> matches_prefix (Star p # is, e) t)"
    (is "?L \<longleftrightarrow> ?R")
proof
  assume ?L
  then obtain x v where x: "text = x @ v" "x \<in> lang (Star p # is)" "e \<longrightarrow> v = []"
    by (rule matches_prefixE)
  from x(2) obtain w u where w: "x = w @ u" "list_all (accepts p) w" "u \<in> lang is" by auto
  show ?R
  proof (cases w)
    case Nil
    then show ?thesis using x w matches_prefixI by simp
  next
    case (Cons c w')
    then have "matches_prefix (Star p # is, e) ((w' @ u) @ v)"
      using x w by (intro matches_prefixI lang_StarI) auto
    then show ?thesis using x w Cons by auto
  qed
next
  assume ?R
  then show ?L
  proof (elim disjE exE conjE)
    assume "matches_prefix (is, e) text"
    then obtain u v where u: "text = u @ v" "u \<in> lang is" "e \<longrightarrow> v = []" by (rule matches_prefixE)
    from lang_StarI [of p "[]", OF _ u(2)] show ?L using u matches_prefixI [of u "Star p # is"] by simp
  next
    fix c t assume t: "text = c # t" "accepts p c" "matches_prefix (Star p # is, e) t"
    from t(3) obtain x v where x: "t = x @ v" "x \<in> lang (Star p # is)" "e \<longrightarrow> v = []"
      by (rule matches_prefixE)
    from x(2) obtain w u where w: "x = w @ u" "list_all (accepts p) w" "u \<in> lang is" by auto
    have "(c # w) @ u \<in> lang (Star p # is)" using t(2) w by (intro lang_StarI) simp_all
    from matches_prefixI [OF this x(3)] show ?L using t(1) x w by simp
  qed
qed

lemma items_star: "items (p # CHR ''*'' # re) = (Star p # fst (items re), snd (items re))"
  by (simp add: case_prod_beta)

lemma items_one:
  "re = [] \<or> hd re \<noteq> CHR ''*'' \<Longrightarrow> \<not> (p = CHR ''$'' \<and> re = []) \<Longrightarrow>
   items (p # re) = (One p # fst (items re), snd (items re))"
  by (cases re) (auto simp: case_prod_beta)

lemma match_correct:
  "matchhere re text \<longleftrightarrow> matches_prefix (items re) text"
  "matchstar c re text \<longleftrightarrow> matches_prefix (Star c # fst (items re), snd (items re)) text"
proof (induction re "text" and c re "text" rule: matchhere_matchstar.induct)
  case (1 re t0)
  show ?case
  proof (cases re)
    case Nil
    then show ?thesis by (simp add: matchhere.simps)
  next
    case (Cons p r)
    show ?thesis
    proof (cases "r \<noteq> [] \<and> hd r = CHR ''*''")
      case True
      then obtain r' where r': "r = CHR ''*'' # r'" by (cases r) auto
      then show ?thesis using 1(1) Cons by (subst matchhere.simps) (simp add: items_star del: items.simps)
    next
      case False
      then have nostar: "\<not> (length re > 1 \<and> re ! 1 = CHR ''*'')"
        using Cons by (cases r) auto
      show ?thesis
      proof (cases "p = CHR ''$'' \<and> r = []")
        case True
        then show ?thesis using Cons by (subst matchhere.simps) simp
      next
        case False
        have it: "items re = (One p # fst (items r), snd (items r))"
          using Cons False \<open>\<not> (r \<noteq> [] \<and> hd r = CHR ''*'')\<close> items_one [of r p] by blast
        have dollar: "\<not> (hd re = CHR ''$'' \<and> length re = 1)" using False Cons by simp
        have "matchhere re t0 \<longleftrightarrow> (\<exists>c t. t0 = c # t \<and> accepts p c \<and> matchhere r t)"
          using nostar dollar Cons
          by (subst matchhere.simps) (cases t0; auto simp: accepts_def)
        moreover have "matchhere r t \<longleftrightarrow> matches_prefix (items r) t" if "t0 = c # t" "accepts p c" for c t
          using 1(2) nostar dollar Cons that by (auto simp: accepts_def)
        ultimately show ?thesis by (auto simp: it matches_prefix_One)
      qed
    qed
  qed
next
  case (2 c re t0)
  show ?case
  proof (cases "matchhere re t0")
    case True
    then have "matches_prefix (items re) t0" using 2(1) by simp
    then show ?thesis using True by (subst matchstar.simps, subst matches_prefix_Star) simp
  next
    case False
    then have no: "\<not> matches_prefix (items re) t0" using 2(1) by simp
    have "matchstar c re t0 \<longleftrightarrow> (\<exists>x t. t0 = x # t \<and> accepts c x \<and> matchstar c re t)"
      using False by (subst matchstar.simps) (cases t0; auto simp: accepts_def)
    moreover have "matchstar c re t \<longleftrightarrow> matches_prefix (Star c # fst (items re), snd (items re)) t"
      if "t0 = x # t" "accepts c x" for x t
      using 2(2) False that by (auto simp: accepts_def)
    ultimately show ?thesis using no by (subst matches_prefix_Star) auto
  qed
qed

lemma match_scan_correct: "match_scan re text \<longleftrightarrow> (\<exists>a t. text = a @ t \<and> matchhere re t)"
proof (induction "text")
  case Nil
  then show ?case by (simp add: match_scan.simps)
next
  case (Cons c t0)
  then show ?case
    by (subst match_scan.simps) (auto simp: Cons_eq_append_conv)
qed

text \<open>
  C18. \<open>match\<close> (grep.c) decides the language of the pattern: it returns true exactly when
  the text contains a substring (a prefix, for a pattern starting with \<open>^\<close>) that is a
  concatenation of words of the pattern's items, reaching the end of the text when the
  pattern ends in \<open>$\<close>.
\<close>

theorem match_decides_pattern: "match re text \<longleftrightarrow> matches re text"
  by (simp add: match_def matches_def match_correct match_scan_correct)

section \<open>The line loop\<close>

text \<open>
  \<open>sysread n inp\<close> is \<open>read(fd, p, n)\<close>: at most \<open>n\<close> bytes of the next chunk, and what is left.
  \<open>strchr\<close> searches the characters before the first NUL.
\<close>

abbreviation (input) NL :: char where "NL \<equiv> CHR 0x0A"
abbreviation (input) NUL :: char where "NUL \<equiv> CHR 0x00"

fun sysread :: "nat \<Rightarrow> string list \<Rightarrow> string \<times> string list" where
  "sysread n [] = ([], [])"
| "sysread n (c # cs) = (take n c, if drop n c = [] then cs else drop n c # cs)"

fun strchr :: "string \<Rightarrow> char \<Rightarrow> nat option" where
  "strchr [] c = None"
| "strchr (x # xs) c =
     (if x = NUL then None else if x = c then Some 0 else map_option Suc (strchr xs c))"

lemma strchr_Some_less: "strchr p c = Some k \<Longrightarrow> k < length p"
  by (induction p arbitrary: k) (auto split: if_splits)

function grep_lines :: "string \<Rightarrow> string \<Rightarrow> string list \<times> string" where
  "grep_lines pattern p =
     (case strchr p NL of None \<Rightarrow> ([], p)
      | Some k \<Rightarrow>
          let (out, rest) = grep_lines pattern (drop (Suc k) p)
          in (if match pattern (take k p) then (take (Suc k) p # out, rest) else (out, rest)))"
  by pat_completeness auto
termination by (relation "measure (\<lambda>(_, p). length p)") (auto dest: strchr_Some_less)

declare grep_lines.simps [simp del]

lemma sysread_less:
  "(bs, inp') = sysread n inp \<Longrightarrow> bs \<noteq> [] \<Longrightarrow>
   length (concat inp') + length inp' < length (concat inp) + length inp"
  by (cases inp) (auto split: if_splits)

function grep_loop :: "string \<Rightarrow> string \<Rightarrow> string list \<Rightarrow> string list" where
  "grep_loop pattern buf inp =
     (let (bs, inp') = sysread (1024 - length buf - 1) inp in
      if bs = [] then []
      else let (out, rest) = grep_lines pattern (buf @ bs) in out @ grep_loop pattern rest inp')"
  by pat_completeness auto
termination
  by (relation "measure (\<lambda>(_, _, inp). length (concat inp) + length inp)")
     (auto dest: sysread_less simp del: One_nat_def)

declare grep_loop.simps [simp del]

definition grep :: "string \<Rightarrow> string list \<Rightarrow> string list" where
  "grep pattern inp = grep_loop pattern [] inp"

text \<open>
  \<open>main\<close>: \<open>openf\<close> gives the contents that \<open>open\<close> and \<open>read\<close> find under a name; the result is
  the exit status and the calls of \<open>write\<close>, with their descriptors.
\<close>

fun grep_files :: "(string \<Rightarrow> string list option) \<Rightarrow> string \<Rightarrow> string list \<Rightarrow> int \<times> (nat \<times> string) list" where
  "grep_files openf pattern [] = (0, [])"
| "grep_files openf pattern (f # fs) =
     (case openf f of
        None \<Rightarrow> (1, [(1, ''grep: cannot open '' @ f @ [NL])])
      | Some inp \<Rightarrow>
          let (st, out) = grep_files openf pattern fs
          in (st, map (Pair 1) (grep pattern inp) @ out))"

definition grep_main ::
  "(string \<Rightarrow> string list option) \<Rightarrow> string list \<Rightarrow> string list \<Rightarrow> int \<times> (nat \<times> string) list" where
  "grep_main openf stdin argv =
     (if length argv \<le> 1 then (1, [(2, ''usage: grep pattern [file ...]'' @ [NL])])
      else if length argv \<le> 2 then (0, map (Pair 1) (grep (argv ! 1) stdin))
      else grep_files openf (argv ! 1) (drop 2 argv))"

section \<open>Lines\<close>

text \<open>The lines of a text that end in a newline, without it, and what follows the last.\<close>

fun split_lines :: "string \<Rightarrow> string list \<times> string" where
  "split_lines [] = ([], [])"
| "split_lines (c # s) =
     (let (ls, r) = split_lines s in
      if c = NL then ([] # ls, r)
      else case ls of [] \<Rightarrow> ([], c # r) | l # ls' \<Rightarrow> ((c # l) # ls', r))"

lemma split_lines_no_nl: "NL \<notin> set s \<Longrightarrow> split_lines s = ([], s)"
  by (induction s) auto

lemma split_lines_line:
  "NL \<notin> set l \<Longrightarrow> split_lines (l @ NL # s) = (l # fst (split_lines s), snd (split_lines s))"
  by (induction l) (auto simp: case_prod_beta)

lemma split_lines_tail: "NL \<notin> set (snd (split_lines s))"
  by (induction s) (auto simp: case_prod_beta split: list.splits)

lemma split_lines_tail_subset: "set (snd (split_lines s)) \<subseteq> set s"
  by (induction s) (auto simp: case_prod_beta split: list.splits)

lemma nl_split:
  "NL \<in> set s \<Longrightarrow> \<exists>l r. s = l @ NL # r \<and> NL \<notin> set l"
  by (rule split_list_first [of NL s, THEN exE]) blast+

lemma split_lines_append:
  "split_lines (a @ b) =
     (fst (split_lines a) @ fst (split_lines (snd (split_lines a) @ b)),
      snd (split_lines (snd (split_lines a) @ b)))"
proof (induction "length a" arbitrary: a rule: less_induct)
  case less
  show ?case
  proof (cases "NL \<in> set a")
    case True
    then obtain l r where a: "a = l @ NL # r" "NL \<notin> set l" using nl_split by blast
    have "length r < length a" using a by simp
    from less [OF this] show ?thesis using a by (simp add: split_lines_line)
  qed (simp add: split_lines_no_nl)
qed

lemma strchr_None: "NUL \<notin> set p \<Longrightarrow> strchr p c = None \<longleftrightarrow> c \<notin> set p"
  by (induction p) auto

lemma strchr_first: "NUL \<notin> set l \<Longrightarrow> c \<noteq> NUL \<Longrightarrow> c \<notin> set l \<Longrightarrow> strchr (l @ c # r) c = Some (length l)"
  by (induction l) auto

lemma grep_lines_correct:
  "NUL \<notin> set p \<Longrightarrow>
   grep_lines pat p = (map (\<lambda>l. l @ [NL]) (filter (match pat) (fst (split_lines p))), snd (split_lines p))"
proof (induction "length p" arbitrary: p rule: less_induct)
  case less
  show ?case
  proof (cases "NL \<in> set p")
    case True
    then obtain l r where p: "p = l @ NL # r" "NL \<notin> set l" using nl_split by blast
    have "strchr p NL = Some (length l)" using p less.prems by (simp add: strchr_first)
    moreover have "length r < length p" "NUL \<notin> set r" using p less.prems by simp_all
    note less.hyps [OF this]
    ultimately show ?thesis using p
      by (subst grep_lines.simps) (simp add: split_lines_line)
  next
    case False
    then have "strchr p NL = None" using less.prems by (simp add: strchr_None)
    then show ?thesis using False by (subst grep_lines.simps) (simp add: split_lines_no_nl)
  qed
qed

text \<open>Every line of the text, the unfinished last one included, fits the buffer.\<close>

definition short_lines :: "string \<Rightarrow> bool" where
  "short_lines s \<longleftrightarrow> list_all (\<lambda>l. length l < 1023) (snd (split_lines s) # fst (split_lines s))"

lemma short_lines_append:
  "short_lines (a @ b) \<Longrightarrow> short_lines (snd (split_lines a) @ b)"
  by (simp add: short_lines_def split_lines_append [of a b])

lemma short_prefix: "NL \<notin> set a \<Longrightarrow> short_lines (a @ b) \<Longrightarrow> length a < 1023"
proof (induction b rule: rev_induct)
  case Nil
  then show ?case by (simp add: short_lines_def split_lines_no_nl)
next
  case (snoc x b)
  show ?case
  proof (cases "NL \<in> set b")
    case True
    then obtain l r where b: "b = l @ NL # r" "NL \<notin> set l" using nl_split by blast
    have "split_lines ((a @ l) @ NL # r @ [x]) = ((a @ l) # fst (split_lines (r @ [x])), snd (split_lines (r @ [x])))"
      using snoc.prems(1) b(2) by (intro split_lines_line) simp
    then show ?thesis using snoc.prems(2) b(1) by (simp add: short_lines_def)
  next
    case False
    show ?thesis
    proof (cases "x = NL")
      case True
      then show ?thesis using split_lines_line [of "a @ b" "[]"] False snoc.prems by (simp add: short_lines_def)
    next
      case xn: False
      then have "split_lines (a @ b @ [x]) = ([], a @ b @ [x])"
        using False snoc.prems(1) by (intro split_lines_no_nl) auto
      then show ?thesis using snoc.prems(2) by (simp add: short_lines_def)
    qed
  qed
qed

lemma sysread_take:
  assumes "list_all (\<lambda>c. c \<noteq> []) inp" "0 < n"
  shows "case sysread n inp of (bs, inp') \<Rightarrow> concat inp = bs @ concat inp' \<and> (bs = [] \<longleftrightarrow> inp = [])
    \<and> list_all (\<lambda>c. c \<noteq> []) inp'"
  using assms by (cases inp) (auto simp: append_take_drop_id [symmetric] simp del: append_take_drop_id)

lemma grep_loop_correct:
  assumes "NL \<notin> set buf" "NUL \<notin> set buf" "NUL \<notin> set (concat inp)" "list_all (\<lambda>c. c \<noteq> []) inp"
    "short_lines (buf @ concat inp)"
  shows "grep_loop pat buf inp =
    map (\<lambda>l. l @ [NL]) (filter (match pat) (fst (split_lines (buf @ concat inp))))"
  using assms
proof (induction pat buf inp rule: grep_loop.induct)
  case (1 pat buf inp)
  have len: "length buf < 1023" using short_prefix "1.prems"(1,5) by blast
  obtain bs inp' where rd: "sysread (1024 - length buf - 1) inp = (bs, inp')" by fastforce
  have st: "concat inp = bs @ concat inp'" "bs = [] \<longleftrightarrow> inp = []" "list_all (\<lambda>c. c \<noteq> []) inp'"
    using sysread_take [OF "1.prems"(4), of "1024 - length buf - 1"] len rd by auto
  show ?case
  proof (cases "bs = []")
    case True
    then show ?thesis using rd st "1.prems"(1) by (subst grep_loop.simps) (simp add: split_lines_no_nl)
  next
    case False
    let ?r = "snd (split_lines (buf @ bs))"
    have nul: "NUL \<notin> set (buf @ bs)" using "1.prems"(2,3) st(1) by auto
    note gl = grep_lines_correct [OF nul, of pat]
    have sub: "set ?r \<subseteq> set (buf @ bs)" by (rule split_lines_tail_subset)
    have "grep_loop pat ?r inp' = map (\<lambda>l. l @ [NL]) (filter (match pat) (fst (split_lines (?r @ concat inp'))))"
    proof (rule "1.IH" [OF rd [symmetric] refl False gl [symmetric] refl])
      show "NL \<notin> set ?r" by (rule split_lines_tail)
      show "NUL \<notin> set ?r" using sub nul by blast
      show "NUL \<notin> set (concat inp')" using "1.prems"(3) st(1) by auto
      show "short_lines (?r @ concat inp')"
        using "1.prems"(5) st(1) short_lines_append [of "buf @ bs"] by simp
    qed (use st in simp)
    then show ?thesis
      using rd False gl st(1) split_lines_append [of "buf @ bs" "concat inp'"]
      by (subst grep_loop.simps) simp
  qed
qed

text \<open>
  C19. \<open>grep\<close> (grep.c) writes exactly the complete input lines that match, in order and each
  with its newline, however the input is cut into reads, provided the text has no NUL and
  its lines fit the 1023-byte buffer. A last line without a newline is never written.
\<close>

theorem grep_prints_matching_lines:
  assumes "NUL \<notin> set (concat inp)" "list_all (\<lambda>c. c \<noteq> []) inp" "short_lines (concat inp)"
  shows "grep pat inp = map (\<lambda>l. l @ [NL]) (filter (matches pat) (fst (split_lines (concat inp))))"
proof -
  have "match = matches" by (simp add: fun_eq_iff match_correct match_scan_correct match_def matches_def)
  then show ?thesis using grep_loop_correct [of "[]" inp pat] assms by (simp add: grep_def)
qed

theorem grep_prints_matching_lines_witness:
  "grep ''a.c'' [''xab'', ''c\<newline>q'', ''\<newline>'', ''adc\<newline>ac''] =
     map (\<lambda>l. l @ [NL]) (filter (matches ''a.c'') (fst (split_lines (concat [''xab'', ''c\<newline>q'', ''\<newline>'', ''adc\<newline>ac'']))))"
  by (rule grep_prints_matching_lines) (simp_all add: short_lines_def)

end
