(* ===== verification/Progs.thy ===== *)
theory Progs
  imports Grep Printf
begin

text \<open>
  The small user programs: cat, echo, init, kill, ln, ls, mkdir, rm, wc, whoami, zombie and \<open>stat\<close> of
  user/ulib.c. A program runs against a kernel, a record of system calls on a state of the environment;
  it ends by \<open>exit\<close>, or by an \<open>exec\<close> that succeeds, or does not end, the value \<open>None\<close>. \<open>printf\<close>
  and \<open>fprintf\<close> write one byte per call, as their \<open>putc\<close> does.
\<close>

section \<open>The kernel interface\<close>

record ustat =
  us_dev :: uint
  us_ino :: uint
  us_type :: ushort
  us_nlink :: ushort
  us_size :: uint64

text \<open>\<open>k_read\<close> gives \<open>None\<close> for -1; \<open>k_exec\<close> says whether the program was replaced.\<close>

record 'e sys =
  k_open :: "string \<Rightarrow> nat \<Rightarrow> 'e \<Rightarrow> int \<times> 'e"
  k_read :: "int \<Rightarrow> nat \<Rightarrow> 'e \<Rightarrow> string option \<times> 'e"
  k_write :: "int \<Rightarrow> string \<Rightarrow> 'e \<Rightarrow> int \<times> 'e"
  k_close :: "int \<Rightarrow> 'e \<Rightarrow> 'e"
  k_dup :: "int \<Rightarrow> 'e \<Rightarrow> 'e"
  k_fstat :: "int \<Rightarrow> 'e \<Rightarrow> ustat option \<times> 'e"
  k_mknod :: "string \<Rightarrow> nat \<Rightarrow> nat \<Rightarrow> 'e \<Rightarrow> 'e"
  k_unlink :: "string \<Rightarrow> 'e \<Rightarrow> int \<times> 'e"
  k_mkdir :: "string \<Rightarrow> 'e \<Rightarrow> int \<times> 'e"
  k_link :: "string \<Rightarrow> string \<Rightarrow> 'e \<Rightarrow> int \<times> 'e"
  k_kill :: "uint \<Rightarrow> 'e \<Rightarrow> 'e"
  k_fork :: "'e \<Rightarrow> int \<times> 'e"
  k_wait :: "'e \<Rightarrow> int \<times> 'e"
  k_exec :: "string \<Rightarrow> string list \<Rightarrow> 'e \<Rightarrow> bool \<times> 'e"
  k_sleep :: "int \<Rightarrow> 'e \<Rightarrow> 'e"

datatype ending = Exited int | Replaced

definition putc :: "'e sys \<Rightarrow> int \<Rightarrow> char \<Rightarrow> 'e \<Rightarrow> 'e" where
  "putc k fd c e = snd (k_write k fd [c] e)"

definition emit :: "'e sys \<Rightarrow> int \<Rightarrow> string \<Rightarrow> 'e \<Rightarrow> 'e" where
  "emit k fd s e = fold (putc k fd) s e"

text \<open>\<open>fprintf\<close> with arguments that fit the format.\<close>

definition fprint :: "'e sys \<Rightarrow> int \<Rightarrow> string \<Rightarrow> varg list \<Rightarrow> 'e \<Rightarrow> 'e" where
  "fprint k fd fmt ap e = (case vprintf False fmt ap of None \<Rightarrow> e | Some s \<Rightarrow> emit k fd s e)"

abbreviation (input) arg :: "string \<Rightarrow> varg" where "arg s \<equiv> VStr (Some s)"

section \<open>echo, kill, ln, mkdir, rm\<close>

fun echo_loop :: "'e sys \<Rightarrow> string list \<Rightarrow> 'e \<Rightarrow> 'e" where
  "echo_loop k [] e = e"
| "echo_loop k (a # as) e =
     (let e = snd (k_write k 1 a e) in
      echo_loop k as (snd (k_write k 1 (if as \<noteq> [] then '' '' else [NL]) e)))"

definition echo_main :: "'e sys \<Rightarrow> string list \<Rightarrow> 'e \<Rightarrow> ending \<times> 'e" where
  "echo_main k argv e = (Exited 0, echo_loop k (tl argv) e)"

fun kill_loop :: "'e sys \<Rightarrow> string list \<Rightarrow> 'e \<Rightarrow> 'e" where
  "kill_loop k [] e = e"
| "kill_loop k (a # as) e = kill_loop k as (k_kill k (atoi a) e)"

definition kill_main :: "'e sys \<Rightarrow> string list \<Rightarrow> 'e \<Rightarrow> ending \<times> 'e" where
  "kill_main k argv e =
     (if length argv < 2 then (Exited 1, fprint k 2 (''usage: kill pid...'' @ [NL]) [] e)
      else (Exited 0, kill_loop k (tl argv) e))"

definition ln_main :: "'e sys \<Rightarrow> string list \<Rightarrow> 'e \<Rightarrow> ending \<times> 'e" where
  "ln_main k argv e =
     (if length argv \<noteq> 3 then (Exited 1, fprint k 2 (''Usage: ln old new'' @ [NL]) [] e)
      else
        let (r, e) = k_link k (argv ! 1) (argv ! 2) e in
        (Exited 0, if r < 0 then fprint k 2 (''link %s %s: failed'' @ [NL]) [arg (argv ! 1), arg (argv ! 2)] e else e))"

text \<open>The loops of mkdir and rm stop at the first call that fails.\<close>

fun mkdir_loop :: "'e sys \<Rightarrow> string list \<Rightarrow> 'e \<Rightarrow> 'e" where
  "mkdir_loop k [] e = e"
| "mkdir_loop k (a # as) e =
     (let (r, e) = k_mkdir k a e in
      if r < 0 then fprint k 2 (''mkdir: %s failed to create'' @ [NL]) [arg a] e else mkdir_loop k as e)"

definition mkdir_main :: "'e sys \<Rightarrow> string list \<Rightarrow> 'e \<Rightarrow> ending \<times> 'e" where
  "mkdir_main k argv e =
     (if length argv < 2 then (Exited 1, fprint k 2 (''Usage: mkdir files...'' @ [NL]) [] e)
      else (Exited 0, mkdir_loop k (tl argv) e))"

fun rm_loop :: "'e sys \<Rightarrow> string list \<Rightarrow> 'e \<Rightarrow> 'e" where
  "rm_loop k [] e = e"
| "rm_loop k (a # as) e =
     (let (r, e) = k_unlink k a e in
      if r < 0 then fprint k 2 (''rm: %s failed to delete'' @ [NL]) [arg a] e else rm_loop k as e)"

definition rm_main :: "'e sys \<Rightarrow> string list \<Rightarrow> 'e \<Rightarrow> ending \<times> 'e" where
  "rm_main k argv e =
     (if length argv < 2 then (Exited 1, fprint k 2 (''Usage: rm files...'' @ [NL]) [] e)
      else (Exited 0, rm_loop k (tl argv) e))"

section \<open>whoami, zombie\<close>

definition whoami_main :: "'e sys \<Rightarrow> 'e \<Rightarrow> ending \<times> 'e" where
  "whoami_main k e =
     (let e = fprint k 1 (''Student ID:   %d'' @ [NL]) [VInt 2017134007] e in
      (Exited 0, fprint k 1 (''Student name: %s'' @ [NL]) [arg ''Kim won kyum''] e))"

definition zombie_main :: "'e sys \<Rightarrow> 'e \<Rightarrow> ending \<times> 'e" where
  "zombie_main k e =
     (let (pid, e) = k_fork k e in (Exited 0, if pid > 0 then k_sleep k 5 e else e))"

section \<open>cat\<close>

text \<open>The result: the exit status when \<open>cat\<close> calls \<open>exit\<close>, otherwise it returns to \<open>main\<close>.\<close>

partial_function (option) cat :: "'e sys \<Rightarrow> int \<Rightarrow> 'e \<Rightarrow> (int option \<times> 'e) option" where
  "cat k fd e =
     (let (r, e) = k_read k fd 512 e in
      case r of
        None \<Rightarrow> Some (Some 1, fprint k 2 (''cat: read error'' @ [NL]) [] e)
      | Some bs \<Rightarrow>
          if bs = [] then Some (None, e)
          else
            let (w, e) = k_write k 1 bs e in
            if w \<noteq> int (length bs) then Some (Some 1, fprint k 2 (''cat: write error'' @ [NL]) [] e)
            else cat k fd e)"

fun cat_files :: "'e sys \<Rightarrow> string list \<Rightarrow> 'e \<Rightarrow> (ending \<times> 'e) option" where
  "cat_files k [] e = Some (Exited 0, e)"
| "cat_files k (f # fs) e =
     (let (fd, e) = k_open k f 0 e in
      if fd < 0 then Some (Exited 1, fprint k 2 (''cat: cannot open %s'' @ [NL]) [arg f] e)
      else
        case cat k fd e of
          None \<Rightarrow> None
        | Some (Some st, e) \<Rightarrow> Some (Exited st, e)
        | Some (None, e) \<Rightarrow> cat_files k fs (k_close k fd e))"

definition cat_main :: "'e sys \<Rightarrow> string list \<Rightarrow> 'e \<Rightarrow> (ending \<times> 'e) option" where
  "cat_main k argv e =
     (if length argv \<le> 1 then
        case cat k 0 e of
          None \<Rightarrow> None
        | Some (Some st, e) \<Rightarrow> Some (Exited st, e)
        | Some (None, e) \<Rightarrow> Some (Exited 0, e)
      else cat_files k (tl argv) e)"

section \<open>wc\<close>

record wcount =
  wc_l :: int
  wc_w :: int
  wc_c :: int
  wc_inword :: bool

abbreviation (input) spaces :: string where "spaces \<equiv> [CHR '' '', CHR 0x0D, CHR 0x09, NL, CHR 0x0B]"

definition wc_char :: "char \<Rightarrow> wcount \<Rightarrow> wcount" where
  "wc_char ch x =
     (let x = x\<lparr>wc_c := wc_c x + 1\<rparr>;
          x = (if ch = NL then x\<lparr>wc_l := wc_l x + 1\<rparr> else x)
      in if strchr spaces ch \<noteq> None then x\<lparr>wc_inword := False\<rparr>
         else if \<not> wc_inword x then x\<lparr>wc_w := wc_w x + 1, wc_inword := True\<rparr>
         else x)"

partial_function (option) wc_loop :: "'e sys \<Rightarrow> int \<Rightarrow> wcount \<Rightarrow> 'e \<Rightarrow> (wcount option \<times> 'e) option" where
  "wc_loop k fd x e =
     (let (r, e) = k_read k fd 512 e in
      case r of
        None \<Rightarrow> Some (None, e)
      | Some bs \<Rightarrow> if bs = [] then Some (Some x, e) else wc_loop k fd (fold wc_char bs x) e)"

definition wc :: "'e sys \<Rightarrow> int \<Rightarrow> string \<Rightarrow> 'e \<Rightarrow> (int option \<times> 'e) option" where
  "wc k fd name e =
     (case wc_loop k fd \<lparr>wc_l = 0, wc_w = 0, wc_c = 0, wc_inword = False\<rparr> e of
        None \<Rightarrow> None
      | Some (None, e) \<Rightarrow> Some (Some 1, fprint k 1 (''wc: read error'' @ [NL]) [] e)
      | Some (Some x, e) \<Rightarrow>
          Some (None, fprint k 1 (''%d %d %d %s'' @ [NL])
            [VInt (of_int (wc_l x)), VInt (of_int (wc_w x)), VInt (of_int (wc_c x)), arg name] e))"

fun wc_files :: "'e sys \<Rightarrow> string list \<Rightarrow> 'e \<Rightarrow> (ending \<times> 'e) option" where
  "wc_files k [] e = Some (Exited 0, e)"
| "wc_files k (f # fs) e =
     (let (fd, e) = k_open k f 0 e in
      if fd < 0 then Some (Exited 1, fprint k 1 (''wc: cannot open %s'' @ [NL]) [arg f] e)
      else
        case wc k fd f e of
          None \<Rightarrow> None
        | Some (Some st, e) \<Rightarrow> Some (Exited st, e)
        | Some (None, e) \<Rightarrow> wc_files k fs (k_close k fd e))"

definition wc_main :: "'e sys \<Rightarrow> string list \<Rightarrow> 'e \<Rightarrow> (ending \<times> 'e) option" where
  "wc_main k argv e =
     (if length argv \<le> 1 then
        case wc k 0 [] e of
          None \<Rightarrow> None
        | Some (Some st, e) \<Rightarrow> Some (Exited st, e)
        | Some (None, e) \<Rightarrow> Some (Exited 0, e)
      else wc_files k (tl argv) e)"

section \<open>ls\<close>

text \<open>\<open>stat\<close> of user/ulib.c.\<close>

definition ulib_stat :: "'e sys \<Rightarrow> string \<Rightarrow> 'e \<Rightarrow> ustat option \<times> 'e" where
  "ulib_stat k n e =
     (let (fd, e) = k_open k n 0 e in
      if fd < 0 then (None, e)
      else let (r, e) = k_fstat k fd e in (r, k_close k fd e))"

text \<open>The scan of \<open>fmtname\<close> from the end of the path down to the last slash.\<close>

fun fmt_scan :: "string \<Rightarrow> nat \<Rightarrow> nat" where
  "fmt_scan path 0 = (if path \<noteq> [] \<and> path ! 0 = CHR ''/'' then 1 else 0)"
| "fmt_scan path (Suc i) =
     (if Suc i < length path \<and> path ! Suc i = CHR ''/'' then Suc (Suc i) else fmt_scan path i)"

definition fmtname :: "string \<Rightarrow> string" where
  "fmtname path =
     (let p = drop (fmt_scan path (length path)) path in
      if length p \<ge> 14 then p else p @ replicate (14 - length p) (CHR '' ''))"

definition ls_inum :: "string \<Rightarrow> nat" where
  "ls_inum de = of_char (de ! 0) + 256 * of_char (de ! 1)"

definition ls_name :: "string \<Rightarrow> string" where
  "ls_name de = takeWhile (\<lambda>c. c \<noteq> NUL) (take 14 (drop 2 de))"

definition stat_args :: "string \<Rightarrow> ustat \<Rightarrow> varg list" where
  "stat_args path st = [arg (fmtname path), VInt (scast (us_type st)), VInt (ucast (us_ino st)), VInt (us_size st)]"

text \<open>One round of the loop over directory entries, and the loop.\<close>

definition ls_entry :: "'e sys \<Rightarrow> string \<Rightarrow> string \<Rightarrow> 'e \<Rightarrow> 'e" where
  "ls_entry k path de e =
     (if ls_inum de = 0 then e
      else
        let buf = path @ ''/'' @ ls_name de; (r, e) = ulib_stat k buf e in
        case r of
          None \<Rightarrow> fprint k 1 (''ls: cannot stat %s'' @ [NL]) [arg buf] e
        | Some st \<Rightarrow> fprint k 1 (''%s %d %d %d'' @ [NL]) (stat_args buf st) e)"

partial_function (option) ls_dir :: "'e sys \<Rightarrow> string \<Rightarrow> int \<Rightarrow> 'e \<Rightarrow> 'e option" where
  "ls_dir k path fd e =
     (let (r, e) = k_read k fd 16 e in
      case r of
        None \<Rightarrow> Some e
      | Some de \<Rightarrow> if length de \<noteq> 16 then Some e else ls_dir k path fd (ls_entry k path de e))"

definition ls_type :: "'e sys \<Rightarrow> string \<Rightarrow> int \<Rightarrow> ustat \<Rightarrow> 'e \<Rightarrow> 'e option" where
  "ls_type k path fd st e =
     (if us_type st = 3 \<or> us_type st = 2 then Some (fprint k 1 (''%s %d %d %l'' @ [NL]) (stat_args path st) e)
      else if us_type st = 1 then
        (if length path + 1 + 14 + 1 > 512 then Some (fprint k 1 (''ls: path too long'' @ [NL]) [] e)
         else ls_dir k path fd e)
      else Some e)"

definition ls :: "'e sys \<Rightarrow> string \<Rightarrow> 'e \<Rightarrow> 'e option" where
  "ls k path e =
     (let (fd, e) = k_open k path 0 e in
      if fd < 0 then Some (fprint k 2 (''ls: cannot open %s'' @ [NL]) [arg path] e)
      else
        let (r, e) = k_fstat k fd e in
        case r of
          None \<Rightarrow> Some (k_close k fd (fprint k 2 (''ls: cannot stat %s'' @ [NL]) [arg path] e))
        | Some st \<Rightarrow> map_option (k_close k fd) (ls_type k path fd st e))"

fun ls_all :: "'e sys \<Rightarrow> string list \<Rightarrow> 'e \<Rightarrow> 'e option" where
  "ls_all k [] e = Some e"
| "ls_all k (p # ps) e = Option.bind (ls k p e) (ls_all k ps)"

definition ls_main :: "'e sys \<Rightarrow> string list \<Rightarrow> 'e \<Rightarrow> (ending \<times> 'e) option" where
  "ls_main k argv e =
     (if length argv < 2 then map_option (Pair (Exited 0)) (ls k ''.'' e)
      else map_option (Pair (Exited 0)) (ls_all k (tl argv) e))"

section \<open>init\<close>






section \<open>forktest, stressfs\<close>

definition print :: "'e sys \<Rightarrow> string \<Rightarrow> 'e \<Rightarrow> 'e" where
  "print k s e = snd (k_write k 1 s e)"

text \<open>The forking loop: \<open>None\<close> in the child, otherwise the value of \<open>n\<close> after the loop.\<close>

fun forktest_forks :: "'e sys \<Rightarrow> nat \<Rightarrow> nat \<Rightarrow> 'e \<Rightarrow> nat option \<times> 'e" where
  "forktest_forks k n 0 e = (Some n, e)"
| "forktest_forks k n (Suc left) e =
     (let (pid, e) = k_fork k e in
      if pid < 0 then (Some n, e) else if pid = 0 then (None, e) else forktest_forks k (Suc n) left e)"

fun forktest_waits :: "'e sys \<Rightarrow> nat \<Rightarrow> 'e \<Rightarrow> bool \<times> 'e" where
  "forktest_waits k 0 e = (True, e)"
| "forktest_waits k (Suc n) e = (let (r, e) = k_wait k e in if r < 0 then (False, e) else forktest_waits k n e)"

text \<open>\<open>forktest\<close> returns to \<open>main\<close>, which exits with status 0.\<close>

definition forktest_main :: "'e sys \<Rightarrow> 'e \<Rightarrow> ending \<times> 'e" where
  "forktest_main k e =
     (let e = print k (''fork test'' @ [NL]) e; (r, e) = forktest_forks k 0 1000 e in
      case r of
        None \<Rightarrow> (Exited 0, e)
      | Some n \<Rightarrow>
          if n = 1000 then (Exited 1, print k (''fork claimed to work N times!'' @ [NL]) e)
          else
            let (ok, e) = forktest_waits k n e in
            if \<not> ok then (Exited 1, print k (''wait stopped early'' @ [NL]) e)
            else
              let (w, e) = k_wait k e in
              if w \<noteq> -1 then (Exited 1, print k (''wait got too many'' @ [NL]) e)
              else (Exited 0, print k (''fork test OK'' @ [NL]) e))"

fun stress_forks :: "'e sys \<Rightarrow> nat \<Rightarrow> nat \<Rightarrow> 'e \<Rightarrow> nat \<times> 'e" where
  "stress_forks k i 0 e = (i, e)"
| "stress_forks k i (Suc left) e =
     (let (pid, e) = k_fork k e in if pid > 0 then (i, e) else stress_forks k (Suc i) left e)"

definition stressfs_main :: "'e sys \<Rightarrow> 'e \<Rightarrow> ending \<times> 'e" where
  "stressfs_main k e =
     (let e = fprint k 1 (''stressfs starting'' @ [NL]) [] e;
          data = replicate 512 (CHR ''a'');
          (i, e) = stress_forks k 0 4 e;
          e = fprint k 1 (''write %d'' @ [NL]) [VInt (of_nat i)] e;
          path = ''stressfs'' @ [char_of (48 + i)];
          (fd, e) = k_open k path 0x202 e;
          e = ((\<lambda>e. snd (k_write k fd data e)) ^^ 20) e;
          e = k_close k fd e;
          e = fprint k 1 (''read'' @ [NL]) [] e;
          (fd, e) = k_open k path 0 e;
          e = ((\<lambda>e. snd (k_read k fd 512 e)) ^^ 20) e;
          e = k_close k fd e
      in (Exited 0, snd (k_wait k e)))"

section \<open>Reading to the end\<close>

text \<open>\<open>delivers k fd n cs e e'\<close>: from \<open>e\<close> on, reads of \<open>n\<close> bytes give the chunks \<open>cs\<close> and then the end of the file, in \<open>e'\<close>.\<close>

fun delivers :: "'e sys \<Rightarrow> int \<Rightarrow> nat \<Rightarrow> string list \<Rightarrow> 'e \<Rightarrow> 'e \<Rightarrow> bool" where
  "delivers k fd n [] e e' \<longleftrightarrow> k_read k fd n e = (Some [], e')"
| "delivers k fd n (c # cs) e e' \<longleftrightarrow> c \<noteq> [] \<and> (case k_read k fd n e of (r, e1) \<Rightarrow> r = Some c \<and> delivers k fd n cs e1 e')"

lemma wc_loop_delivers:
  "delivers k fd 512 cs e e' \<Longrightarrow> wc_loop k fd x e = Some (Some (fold wc_char (concat cs) x), e')"
proof (induction cs arbitrary: x e)
  case Nil
  then show ?case by (subst wc_loop.simps) simp
next
  case (Cons c cs)
  then show ?case by (subst wc_loop.simps) (auto split: prod.splits)
qed

text \<open>The number of words: positions where a character that is not a space follows a space or the start.\<close>

definition is_space :: "char \<Rightarrow> bool" where
  "is_space c \<longleftrightarrow> c \<in> set spaces"

function words :: "string \<Rightarrow> string list" where
  "words s =
     (case dropWhile is_space s of
        [] \<Rightarrow> []
      | c # t \<Rightarrow> takeWhile (\<lambda>c. \<not> is_space c) (c # t) # words (dropWhile (\<lambda>c. \<not> is_space c) t))"
  by pat_completeness auto
termination
proof (relation "measure length", simp)
  fix s t :: string and c assume "dropWhile is_space s = c # t"
  then have "length (c # t) \<le> length s" by (metis length_dropWhile_le)
  then show "(dropWhile (\<lambda>c. \<not> is_space c) t, s) \<in> measure length"
    using length_dropWhile_le [of "\<lambda>c. \<not> is_space c" t] by simp
qed

declare words.simps [simp del]

lemma strchr_spaces: "strchr spaces c \<noteq> None \<longleftrightarrow> is_space c"
  by (auto simp: is_space_def)

lemma words_space: "is_space c \<Longrightarrow> words (c # s) = words s"
  by (subst (1 2) words.simps) simp

lemma words_Nil [simp]: "words [] = []"
  by (simp add: words.simps)

text \<open>The words of \<open>s\<close> when its first characters continue a word.\<close>

definition words_from :: "bool \<Rightarrow> string \<Rightarrow> nat" where
  "words_from inword s = length (words (if inword then dropWhile (\<lambda>c. \<not> is_space c) s else s))"

lemma words_from_simps:
  "words_from b [] = 0"
  "is_space c \<Longrightarrow> words_from b (c # s) = words_from False s"
  "\<not> is_space c \<Longrightarrow> words_from False (c # s) = Suc (words_from True s)"
  "\<not> is_space c \<Longrightarrow> words_from True (c # s) = words_from True s"
proof -
  show "words_from b [] = 0" by (simp add: words_from_def)
  show "is_space c \<Longrightarrow> words_from b (c # s) = words_from False s" by (simp add: words_from_def words_space)
  show "\<not> is_space c \<Longrightarrow> words_from False (c # s) = Suc (words_from True s)"
    by (simp add: words_from_def words.simps [of "c # s"])
  show "\<not> is_space c \<Longrightarrow> words_from True (c # s) = words_from True s" by (simp add: words_from_def)
qed

lemma wc_char_eq:
  "wc_char c x = \<lparr>wc_l = wc_l x + (if c = NL then 1 else 0), wc_w = wc_w x + (if is_space c \<or> wc_inword x then 0 else 1),
     wc_c = wc_c x + 1, wc_inword = (\<not> is_space c)\<rparr>"
proof -
  have "is_space NL" by (simp add: is_space_def)
  then show ?thesis unfolding wc_char_def Let_def strchr_spaces by (cases x) auto
qed

lemma wc_fold:
  "fold wc_char s x = \<lparr>wc_l = wc_l x + int (length (filter ((=) NL) s)), wc_w = wc_w x + int (words_from (wc_inword x) s),
     wc_c = wc_c x + int (length s), wc_inword = (if s = [] then wc_inword x else \<not> is_space (last s))\<rparr>"
proof (induction s arbitrary: x)
  case (Cons c s)
  have "fold wc_char (c # s) x = fold wc_char s (wc_char c x)" by simp
  also have "\<dots> = \<lparr>wc_l = wc_l x + int (length (filter ((=) NL) (c # s))), wc_w = wc_w x + int (words_from (wc_inword x) (c # s)),
     wc_c = wc_c x + int (length (c # s)), wc_inword = (\<not> is_space (last (c # s)))\<rparr>"
    unfolding Cons.IH wc_char_eq
    by (cases "is_space c"; cases "wc_inword x") (simp_all add: words_from_simps)
  finally show ?case by simp
qed (simp add: words_from_simps)

section \<open>Properties\<close>

text \<open>
  C35. \<open>wc\<close> prints the number of newlines, of words and of characters of its input, however the input is cut
  into reads; a word is a maximal run of characters other than blank, tab, carriage return,
  newline and vertical tab.\<close>

theorem wc_counts:
  assumes "delivers k fd 512 cs e e'"
  shows "wc k fd name e = Some (None, fprint k 1 (''%d %d %d %s'' @ [NL])
    [VInt (of_nat (length (filter ((=) NL) (concat cs)))), VInt (of_nat (length (words (concat cs)))),
     VInt (of_nat (length (concat cs))), arg name] e')"
  unfolding wc_def wc_loop_delivers [OF assms] wc_fold by (simp add: words_from_def)






text \<open>A kernel whose state is the rest of the input, in chunks, and what was written.\<close>

definition demo_sys :: "(string list \<times> string) sys" where
  "demo_sys = \<lparr>k_open = (\<lambda>_ _ e. (-1, e)),
     k_read = (\<lambda>_ n (cs, out). case sysread n cs of (c, cs) \<Rightarrow> (Some c, (cs, out))),
     k_write = (\<lambda>_ s (cs, out). (int (length s), (cs, out @ s))), k_close = (\<lambda>_ e. e), k_dup = (\<lambda>_ e. e),
     k_fstat = (\<lambda>_ e. (None, e)), k_mknod = (\<lambda>_ _ _ e. e), k_unlink = (\<lambda>_ e. (-1, e)), k_mkdir = (\<lambda>_ e. (-1, e)),
     k_link = (\<lambda>_ _ e. (-1, e)), k_kill = (\<lambda>_ e. e), k_fork = (\<lambda>e. (3, e)), k_wait = (\<lambda>e. (3, e)),
     k_exec = (\<lambda>_ _ e. (False, e)), k_sleep = (\<lambda>_ e. e)\<rparr>"

theorem wc_counts_witness:
  "map_option (snd \<circ> snd) (wc demo_sys 0 [] ([''one t'', ''wo'' @ [NL]], [])) = Some (''1 2 8 '' @ [NL])"
proof -
  have d: "delivers demo_sys 0 512 [''one t'', ''wo'' @ [NL]] ([''one t'', ''wo'' @ [NL]], []) ([], [])"
    by (simp add: demo_sys_def)
  have w: "words (''one two'' @ [NL]) = [''one'', ''two'']" by (simp add: words.simps is_space_def)
  have p: "printint udigits 1 10 True = ''1''" "printint udigits 2 10 True = ''2''" "printint udigits 8 10 True = ''8''"
    by code_simp+
  show ?thesis unfolding wc_counts [OF d] using w p
    by (simp add: fprint_def emit_def putc_def demo_sys_def str_arg_def)
qed






end
