(* ===== verification/Umalloc.thy ===== *)
theory Umalloc
  imports Chain
begin

text \<open>
  The user-level allocator, user/umalloc.c: a ring of free blocks in address order, first fit with
  a roving pointer, coalescing on \<open>free\<close>. A block starts with a 16-byte header, and the fields of the headers are
  two maps from header addresses; \<open>base\<close> is the address of the static header. \<open>sbrk\<close> is the
  kernel's: whether the next calls succeed is part of the environment.
\<close>

section \<open>State\<close>

record uheap =
  h_ptr :: "uint64 \<Rightarrow> uint64"
  h_size :: "uint64 \<Rightarrow> uint"
  base :: uint64
  freep :: uint64
  brk :: uint64
  sbrk_ok :: "bool list"   \<comment> \<open>the results of the calls of \<open>sbrk\<close> to come; failure after them\<close>

text \<open>\<open>p + n\<close> for a \<open>Header *\<close>.\<close>

definition hadd :: "uint64 \<Rightarrow> uint \<Rightarrow> uint64" where
  "hadd p n = p + 16 * ucast n"

definition set_ptr :: "uint64 \<Rightarrow> uint64 \<Rightarrow> uheap \<Rightarrow> uheap" where
  "set_ptr p v h = h\<lparr>h_ptr := (h_ptr h)(p := v)\<rparr>"

definition set_size :: "uint64 \<Rightarrow> uint \<Rightarrow> uheap \<Rightarrow> uheap" where
  "set_size p v h = h\<lparr>h_size := (h_size h)(p := v)\<rparr>"

section \<open>Operations\<close>

text \<open>The loop of \<open>free\<close> that looks for the place of \<open>bp\<close> in the ring.\<close>

partial_function (option) free_scan :: "(uint64 \<Rightarrow> uint64) \<Rightarrow> uint64 \<Rightarrow> uint64 \<Rightarrow> uint64 option" where
  "free_scan ptr bp p =
     (if bp > p \<and> bp < ptr p then Some p
      else if p \<ge> ptr p \<and> (bp > p \<or> bp < ptr p) then Some p
      else free_scan ptr bp (ptr p))"

definition free_link :: "uint64 \<Rightarrow> uint64 \<Rightarrow> uheap \<Rightarrow> uheap" where
  "free_link bp p h =
     (let h = (if hadd bp (h_size h bp) = h_ptr h p
               then set_ptr bp (h_ptr h (h_ptr h p)) (set_size bp (h_size h bp + h_size h (h_ptr h p)) h)
               else set_ptr bp (h_ptr h p) h);
          h = (if hadd p (h_size h p) = bp
               then set_ptr p (h_ptr h bp) (set_size p (h_size h p + h_size h bp) h)
               else set_ptr p bp h)
      in h\<lparr>freep := p\<rparr>)"

definition ufree :: "uint64 \<Rightarrow> uheap \<Rightarrow> uheap option" where
  "ufree ap h =
     (let bp = ap - 16 in
      case free_scan (h_ptr h) bp (freep h) of
        None \<Rightarrow> None
      | Some p \<Rightarrow> Some (free_link bp p h))"

text \<open>\<open>sbrk(n)\<close> returns the old end of the process's memory, -1 when it fails.\<close>

definition sbrk :: "int \<Rightarrow> uheap \<Rightarrow> uint64 \<times> uheap" where
  "sbrk n h =
     (case sbrk_ok h of
        [] \<Rightarrow> (-1, h)
      | ok # oks \<Rightarrow>
          if ok then (brk h, h\<lparr>brk := brk h + of_int n, sbrk_ok := oks\<rparr>) else (-1, h\<lparr>sbrk_ok := oks\<rparr>))"

text \<open>\<open>nu * sizeof(Header)\<close> has 64 bits and is passed to the \<open>int\<close> parameter of \<open>sbrk\<close>.\<close>

definition morecore :: "uint \<Rightarrow> uheap \<Rightarrow> (uint64 \<times> uheap) option" where
  "morecore nu h =
     (let nu = (if nu < 4096 then 4096 else nu);
          (p, h) = sbrk (sint (ucast (ucast nu * 16 :: uint64) :: uint)) h
      in if p = -1 then Some (0, h)
         else
           case ufree (p + 16) (set_size p nu h) of
             None \<Rightarrow> None
           | Some h \<Rightarrow> Some (freep h, h))"

text \<open>Taking \<open>nunits\<close> units from the block at \<open>p\<close>: all of it, or its tail.\<close>

definition take_block :: "uint \<Rightarrow> uint64 \<Rightarrow> uint64 \<Rightarrow> uheap \<Rightarrow> uint64 \<times> uheap" where
  "take_block nunits prevp p h =
     (let (p, h) =
        (if h_size h p = nunits then (p, set_ptr prevp (h_ptr h p) h)
         else
           let h = set_size p (h_size h p - nunits) h; p = hadd p (h_size h p)
           in (p, set_size p nunits h))
      in (p + 16, h\<lparr>freep := prevp\<rparr>))"

partial_function (option) malloc_loop :: "uint \<Rightarrow> uint64 \<Rightarrow> uint64 \<Rightarrow> uheap \<Rightarrow> (uint64 \<times> uheap) option" where
  "malloc_loop nunits prevp p h =
     (if h_size h p \<ge> nunits then Some (take_block nunits prevp p h)
      else if p = freep h then
        (case morecore nunits h of
           None \<Rightarrow> None
         | Some (p, h) \<Rightarrow> if p = 0 then Some (0, h) else malloc_loop nunits p (h_ptr h p) h)
      else malloc_loop nunits p (h_ptr h p) h)"

definition malloc_units :: "uint \<Rightarrow> uint" where
  "malloc_units nbytes = ucast ((ucast nbytes + 16 - 1) div 16 + 1 :: uint64)"

definition umalloc :: "uint \<Rightarrow> uheap \<Rightarrow> (uint64 \<times> uheap) option" where
  "umalloc nbytes h =
     (let h = (if freep h = 0 then set_size (base h) 0 ((set_ptr (base h) (base h) h)\<lparr>freep := base h\<rparr>) else h);
          prevp = freep h
      in malloc_loop (malloc_units nbytes) prevp (h_ptr h prevp) h)"

section \<open>The invariant\<close>

text \<open>The end of the block at \<open>a\<close>, as a number.\<close>

definition bend :: "uheap \<Rightarrow> uint64 \<Rightarrow> nat" where
  "bend h a = unat a + 16 * unat (h_size h a)"

text \<open>\<open>regions lo h S\<close>: the blocks \<open>S\<close> divide the memory from \<open>lo\<close> to the break.\<close>

definition regions :: "nat \<Rightarrow> uheap \<Rightarrow> uint64 set \<Rightarrow> bool" where
  "regions lo h S \<longleftrightarrow> finite S \<and> (\<forall>a\<in>S. h_size h a \<noteq> 0 \<and> lo \<le> unat a \<and> bend h a \<le> unat (brk h))
     \<and> (\<forall>a\<in>S. \<forall>b\<in>S. a \<noteq> b \<longrightarrow> bend h a \<le> unat b \<or> bend h b \<le> unat a)
     \<and> lo + (\<Sum>a\<in>S. 16 * unat (h_size h a)) = unat (brk h) \<and> unat (brk h) \<le> 2 ^ 32"

text \<open>No two free blocks touch each other.\<close>

definition gaps :: "uheap \<Rightarrow> uint64 list \<Rightarrow> bool" where
  "gaps h L \<longleftrightarrow> sorted_wrt (\<lambda>a b. bend h a < unat b) L"

text \<open>
  \<open>heap_inv lo h L live\<close>: the memory from \<open>lo\<close> to the break is divided into the free blocks \<open>L\<close>, in address order and
  no two of them adjacent, and the blocks \<open>live\<close> that the program holds.
\<close>

definition heap_inv :: "nat \<Rightarrow> uheap \<Rightarrow> uint64 list \<Rightarrow> uint64 set \<Rightarrow> bool" where
  "heap_inv lo h L live \<longleftrightarrow> regions lo h (set L \<union> live) \<and> live \<inter> set L = {} \<and> gaps h L
     \<and> chain (h_ptr h) (base h) L (base h) \<and> freep h \<in> set (base h # L) \<and> h_size h (base h) = 0
     \<and> base h \<noteq> 0 \<and> unat (base h) < lo"

lemma unat_uint64: "unat (ucast (x :: uint) :: uint64) = unat x"
  using unsigned_less [of x, where 'a = nat] by (simp add: unsigned_ucast_eq take_bit_nat_eq_self)

lemma regions_facts:
  assumes "regions lo h S" "a \<in> S"
  shows "lo \<le> unat a" "unat a < bend h a" "bend h a \<le> 2 ^ 32" "bend h a \<le> unat (brk h)" "h_size h a \<noteq> 0"
    "unat (hadd a (h_size h a)) = bend h a"
proof -
  show f: "lo \<le> unat a" "bend h a \<le> unat (brk h)" "h_size h a \<noteq> 0" "bend h a \<le> 2 ^ 32"
    using assms by (auto simp: regions_def)
  show "unat a < bend h a" using f(3) by (simp add: bend_def unat_gt_0)
  have "unat (16 * ucast (h_size h a) :: uint64) = 16 * unat (h_size h a)"
    using f(4) by (simp add: bend_def unat_word_ariths unat_uint64)
  then show "unat (hadd a (h_size h a)) = bend h a" using f(4) by (simp add: hadd_def bend_def unat_word_ariths)
qed

lemma regions_apart: "regions lo h S \<Longrightarrow> a \<in> S \<Longrightarrow> b \<in> S \<Longrightarrow> a \<noteq> b \<Longrightarrow> bend h a \<le> unat b \<or> bend h b \<le> unat a"
  by (auto simp: regions_def)

lemma hadd_eq_iff: "regions lo h S \<Longrightarrow> a \<in> S \<Longrightarrow> hadd a (h_size h a) = b \<longleftrightarrow> bend h a = unat b"
  using regions_facts(6) [of lo h S a] by (auto simp: word_unat_eq_iff)

lemma regions_cong:
  assumes "\<And>a. a \<in> S \<Longrightarrow> h_size h' a = h_size h a" "brk h' = brk h"
  shows "regions lo h' S = regions lo h S"
  using assms by (simp add: regions_def bend_def cong: sum.cong)

text \<open>Merging a block with the next one.\<close>

lemma regions_merge:
  assumes r: "regions lo h S" and ab: "a \<in> S" "b \<in> S" "bend h a = unat b"
    and h': "\<And>c. h_size h' c = (if c = a then h_size h a + h_size h b else h_size h c)" "brk h' = brk h"
  shows "regions lo h' (S - {b})" "bend h' a = bend h b" "h_size h' a \<ge> h_size h a" "h_size h' a \<ge> h_size h b"
proof -
  note fa = regions_facts [OF r ab(1)] and fb = regions_facts [OF r ab(2)]
  have ne: "a \<noteq> b" using fa(2) ab(3) by auto
  have "unat (h_size h a) + unat (h_size h b) < 2 ^ 32" using ab(3) fb(3) by (simp add: bend_def)
  then have s: "unat (h_size h' a) = unat (h_size h a) + unat (h_size h b)" using h'(1) by (simp add: unat_word_ariths)
  show e: "bend h' a = bend h b" using s ab(3) by (simp add: bend_def)
  show "h_size h' a \<ge> h_size h a" "h_size h' a \<ge> h_size h b" using s by (simp_all add: word_le_nat_alt)
  have o: "bend h' c = bend h c" if "c \<noteq> a" for c using h'(1) that by (simp add: bend_def)
  have fin: "finite S" using r by (simp add: regions_def)
  have "(\<Sum>c\<in>S - {b} - {a}. 16 * unat (h_size h' c)) = (\<Sum>c\<in>S - {b} - {a}. 16 * unat (h_size h c))"
    by (rule sum.cong) (simp_all add: h'(1))
  then have "(\<Sum>c\<in>S - {b}. 16 * unat (h_size h' c)) = (\<Sum>c\<in>S. 16 * unat (h_size h c))"
    using fin ab ne s sum.remove [of "S - {b}" a "\<lambda>c. 16 * unat (h_size h' c)"]
      sum.remove [of S b "\<lambda>c. 16 * unat (h_size h c)"] sum.remove [of "S - {b}" a "\<lambda>c. 16 * unat (h_size h c)"]
    by simp
  moreover have "h_size h' c \<noteq> 0 \<and> lo \<le> unat c \<and> bend h' c \<le> unat (brk h')" if "c \<in> S - {b}" for c
    using that regions_facts [OF r, of c] s e o [of c] fa fb h' by (cases "c = a") (auto simp: unat_eq_0)
  moreover have "bend h' c \<le> unat d \<or> bend h' d \<le> unat c" if "c \<in> S - {b}" "d \<in> S - {b}" "c \<noteq> d" for c d
  proof -
    have k: "bend h' a \<le> unat d \<or> bend h d \<le> unat a" if "d \<in> S - {b}" "d \<noteq> a" for d
    proof -
      have "bend h d \<le> unat a \<or> unat b \<le> unat d" using regions_apart [OF r ab(1), of d] that ab(3) by auto
      moreover have "unat d \<noteq> unat b" "bend h b \<le> unat d \<or> bend h d \<le> unat b"
        using that regions_apart [OF r ab(2), of d] by (auto simp: word_unat_eq_iff)
      moreover have "unat d < bend h d" using regions_facts(2) [OF r, of d] that by auto
      ultimately show ?thesis using e by linarith
    qed
    show ?thesis using that k [of c] k [of d] o [of c] o [of d] regions_apart [OF r, of c d] by (cases "c = a"; cases "d = a") auto
  qed
  ultimately show "regions lo h' (S - {b})" using r fin h'(2) by (simp add: regions_def)
qed

text \<open>Cutting off the tail of a block.\<close>

lemma regions_split:
  assumes r: "regions lo h S" and a: "a \<in> S" and n: "n \<noteq> 0" "n < h_size h a" and b: "b = hadd a (h_size h a - n)"
    and h': "\<And>c. h_size h' c = (if c = b then n else if c = a then h_size h a - n else h_size h c)" "brk h' = brk h"
  shows "regions lo h' (insert b S)" "b \<notin> S" "unat a < unat b" "bend h' a < bend h a" "\<And>c. c \<in> S \<Longrightarrow> c \<noteq> a \<Longrightarrow> bend h' c = bend h c"
proof -
  note fa = regions_facts [OF r a]
  have n': "0 < unat n" "unat n < unat (h_size h a)" using n by (simp_all add: unat_gt_0 word_less_nat_alt)
  have d: "unat (h_size h a - n) = unat (h_size h a) - unat n" using n' by (simp add: unat_sub word_le_nat_alt)
  have "unat (16 * ucast (h_size h a - n) :: uint64) = 16 * (unat (h_size h a) - unat n)"
    using fa(3) by (simp add: bend_def unat_word_ariths unat_uint64 d)
  then have ub: "unat b = unat a + 16 * (unat (h_size h a) - unat n)"
    using fa(3) by (simp add: b hadd_def bend_def unat_word_ariths)
  show lt: "unat a < unat b" using ub n' by simp
  then have ab: "a \<noteq> b" by auto
  have eb: "bend h' b = bend h a" and ea: "bend h' a = unat b" using h'(1) ub n' ab d by (simp_all add: bend_def)
  then show "bend h' a < bend h a" using ub n' by (simp add: bend_def)
  have in_a: "unat b < bend h a" using ub n' by (simp add: bend_def)
  show nb: "b \<notin> S"
  proof
    assume "b \<in> S"
    then have "bend h a \<le> unat b \<or> bend h b \<le> unat a" "unat b < bend h b"
      using regions_apart [OF r a] regions_facts(2) [OF r] ab by auto
    then show False using in_a lt by linarith
  qed
  show o: "bend h' c = bend h c" if "c \<in> S" "c \<noteq> a" for c using h'(1) that nb by (auto simp: bend_def)
  have fin: "finite S" using r by (simp add: regions_def)
  have "(\<Sum>c\<in>S - {a}. 16 * unat (h_size h' c)) = (\<Sum>c\<in>S - {a}. 16 * unat (h_size h c))"
    by (rule sum.cong) (use nb in \<open>auto simp: h'(1)\<close>)
  then have "(\<Sum>c\<in>insert b S. 16 * unat (h_size h' c)) = (\<Sum>c\<in>S. 16 * unat (h_size h c))"
    using fin nb a n' d ab sum.remove [OF fin a, of "\<lambda>c. 16 * unat (h_size h' c)"] sum.remove [OF fin a, of "\<lambda>c. 16 * unat (h_size h c)"]
    by (simp add: h'(1))
  moreover have "h_size h' c \<noteq> 0 \<and> lo \<le> unat c \<and> bend h' c \<le> unat (brk h')" if cS: "c \<in> insert b S" for c
  proof -
    consider "c = b" | "c = a" | "c \<in> S" "c \<noteq> a" "c \<noteq> b" using cS by blast
    then show ?thesis
    proof cases
      case 1
      then show ?thesis using eb fa lt n h' by simp
    next
      case 2
      have "h_size h a - n \<noteq> 0" using d n' by (auto simp: unat_eq_0)
      then show ?thesis using 2 ea fa in_a h' ab by simp
    next
      case 3
      then show ?thesis using o [of c] regions_facts [OF r, of c] h' by simp
    qed
  qed
  moreover have "bend h' c \<le> unat d \<or> bend h' d \<le> unat c" if cd: "c \<in> insert b S" "d \<in> insert b S" "c \<noteq> d" for c d
  proof -
    have out: "bend h a \<le> unat c \<or> bend h c \<le> unat a" if "c \<in> S" "c \<noteq> a" for c using regions_apart [OF r a] that by blast
    have k: "(bend h' a \<le> unat c \<or> bend h' c \<le> unat a) \<and> (bend h' b \<le> unat c \<or> bend h' c \<le> unat b)" if "c \<in> S" "c \<noteq> a" for c
      using out [OF that] o [OF that] ea eb in_a lt by auto
    consider "c \<in> S" "d \<in> S" "c \<noteq> a" "d \<noteq> a" | "c \<in> {a, b}" "d \<in> S" "d \<noteq> a" | "d \<in> {a, b}" "c \<in> S" "c \<noteq> a" | "c \<in> {a, b}" "d \<in> {a, b}"
      using cd nb by blast
    then show ?thesis
    proof cases
      case 1
      then show ?thesis using o regions_apart [OF r] cd(3) by simp
    qed (use k [of c] k [of d] ea cd(3) in auto)
  qed
  ultimately show "regions lo h' (insert b S)" using r fin h'(2) by (simp add: regions_def)
qed

text \<open>New memory at the break.\<close>

lemma regions_grow:
  assumes r: "regions lo h S" and nu: "nu \<noteq> 0" "unat (brk h) + 16 * unat nu \<le> 2 ^ 32"
    and h': "\<And>c. h_size h' c = (if c = brk h then nu else h_size h c)" "unat (brk h') = unat (brk h) + 16 * unat nu"
  shows "regions lo h' (insert (brk h) S)" "brk h \<notin> S"
proof -
  show nb: "brk h \<notin> S" using regions_facts [OF r, of "brk h"] by auto
  have o: "bend h' c = bend h c" if "c \<in> S" for c using h'(1) that nb by (auto simp: bend_def)
  have eb: "bend h' (brk h) = unat (brk h')" using h' by (simp add: bend_def)
  have "lo \<le> unat (brk h)" using r by (auto simp: regions_def)
  moreover have "(\<Sum>c\<in>S. 16 * unat (h_size h' c)) = (\<Sum>c\<in>S. 16 * unat (h_size h c))"
    by (rule sum.cong) (use nb in \<open>auto simp: h'(1)\<close>)
  moreover have "h_size h' c \<noteq> 0 \<and> lo \<le> unat c \<and> bend h' c \<le> unat (brk h')" if "c \<in> S" for c
    using that o [OF that] regions_facts [OF r that] h' nb by auto
  moreover have "bend h' c \<le> unat (brk h)" if "c \<in> S" for c using o [OF that] regions_facts [OF r that] by simp
  ultimately show "regions lo h' (insert (brk h) S)"
    using r nu nb eb h' o by (auto simp: regions_def)
qed

section \<open>Finding the place of a block\<close>

lemma free_scan_step:
  assumes c: "chain f x L x" and s: "sorted_wrt (<) (x # L)" and L: "L = L1 @ L2"
    and bp: "x < bp" "\<forall>a\<in>set L1. a < bp" "\<forall>a\<in>set L2. bp < a" and i: "i \<le> length L"
  shows "free_scan f bp ((x # L) ! i) =
    (if i = length L1 then Some ((x # L) ! i) else free_scan f bp (if i < length L then (x # L) ! Suc i else x))"
proof -
  let ?q = "(x # L) ! i" and ?n = "(L @ [x]) ! i"
  have f: "f ?q = ?n" by (rule chain_nth_next [OF c i])
  have n: "?n = (if i < length L then (x # L) ! Suc i else x)" using i by (simp add: nth_append)
  have lt: "?q < (x # L) ! Suc i" if "i < length L" using sorted_wrt_nth_less [OF s, of i "Suc i"] that by simp
  have low: "?q < bp" if "i \<le> length L1" using that bp L by (cases i) (auto simp: nth_append)
  have high: "bp < (x # L) ! Suc j" if "length L1 \<le> j" "j < length L" for j
    using that bp(3) L by (simp add: nth_append)
  have q: "bp < ?q" if "length L1 < i" using high [of "i - 1"] that i by simp
  have xq: "x \<le> ?q" using s i by (cases i) (auto intro: less_imp_le)
  show ?thesis
  proof (cases "i = length L1")
    case True
    have "?q < bp" using low True by simp
    moreover have "bp < ?n \<or> ?n \<le> ?q" using high [of i] True n xq by simp
    ultimately show ?thesis using True f by (subst free_scan.simps) auto
  next
    case False
    have "\<not> (?q < bp \<and> bp < ?n) \<and> \<not> (?n \<le> ?q \<and> (?q < bp \<or> bp < ?n))"
    proof (cases "i < length L1")
      case True
      then have "i < length L" "?n \<le> bp" "?q < ?n" using L low bp(2) lt n by (auto simp: nth_append intro: less_imp_le)
      then show ?thesis using low True by auto
    next
      case gt: False
      then have "bp < ?q" using q False by simp
      moreover have "?n \<le> ?q \<Longrightarrow> ?n = x" using n lt by (auto split: if_splits)
      ultimately show ?thesis using bp(1) by auto
    qed
    then show ?thesis using False f n by (subst free_scan.simps) auto
  qed
qed

lemma free_scan_ring:
  assumes c: "chain f x L x" and s: "sorted_wrt (<) (x # L)" and L: "L = L1 @ L2"
    and bp: "x < bp" "\<forall>a\<in>set L1. a < bp" "\<forall>a\<in>set L2. bp < a" and q: "q \<in> set (x # L)"
  shows "free_scan f bp q = Some (last (x # L1))"
proof -
  note step = free_scan_step [OF c s L bp]
  let ?r = "(x # L) ! length L1"
  have r: "?r = last (x # L1)" using L by (cases L1 rule: rev_cases) (simp_all add: nth_append)
  have up: "free_scan f bp ((x # L) ! i) = Some ?r" if "i \<le> length L1" for i
    using that
  proof (induction "length L1 - i" arbitrary: i)
    case 0
    then show ?case using step [of i] L by simp
  next
    case (Suc k)
    then have "free_scan f bp ((x # L) ! Suc i) = Some ?r" using Suc.hyps(1) [of "Suc i"] by simp
    then show ?case using step [of i] Suc L by simp
  qed
  have down: "free_scan f bp ((x # L) ! i) = Some ?r" if "length L1 < i" "i \<le> length L" for i
    using that
  proof (induction "length L - i" arbitrary: i)
    case 0
    then show ?case using step [of i] up [of 0] by simp
  next
    case (Suc k)
    then have "i < length L" "free_scan f bp ((x # L) ! Suc i) = Some ?r" using Suc.hyps(1) [of "Suc i"] by simp_all
    then show ?case using step [of i] Suc.prems by simp
  qed
  obtain i where i: "i < length (x # L)" "q = (x # L) ! i" using q by (metis in_set_conv_nth)
  then show ?thesis using up [of i] down [of i] r by (cases "i \<le> length L1") auto
qed

section \<open>Freeing\<close>

lemma gaps_less: "gaps h L \<Longrightarrow> sorted_wrt (<) L"
  unfolding gaps_def by (erule sorted_wrt_mono_rel [rotated]) (simp add: bend_def word_less_nat_alt)

text \<open>The invariant with the block \<open>bp\<close>, which is about to be freed, apart.\<close>

lemma heap_split_at:
  assumes i: "heap_inv lo h L (insert bp live)" and nl: "bp \<notin> live"
  obtains L1 L2 where "L = L1 @ L2" "\<forall>a\<in>set L1. a < bp \<and> bend h a \<le> unat bp" "\<forall>a\<in>set L2. bp < a \<and> bend h bp \<le> unat a"
    "base h < bp" "sorted_wrt (<) (base h # L)" "bp \<notin> set L"
proof -
  have r: "regions lo h (insert bp (set L \<union> live))" and g: "gaps h L" and b: "unat (base h) < lo" and n: "bp \<notin> set L"
    using i by (auto simp: heap_inv_def)
  have s: "sorted_wrt (<) L" by (rule gaps_less [OF g])
  have lo: "base h < a" if "a \<in> insert bp (set L)" for a
    using regions_facts(1) [OF r, of a] that b by (auto simp: word_less_nat_alt)
  let ?L1 = "takeWhile (\<lambda>a. a < bp) L" and ?L2 = "dropWhile (\<lambda>a. a < bp) L"
  have ap: "a < bp \<Longrightarrow> bend h a \<le> unat bp" "bp < a \<Longrightarrow> bend h bp \<le> unat a" if "a \<in> set L" for a
    using regions_apart [OF r, of a bp] regions_facts(2) [OF r, of a] regions_facts(2) [OF r, of bp] that n
    by (auto simp: word_less_nat_alt)
  have L2: "bp < a" if aL: "a \<in> set ?L2" for a
  proof -
    obtain c cs where c: "?L2 = c # cs" using aL by (cases ?L2) auto
    have "\<not> c < bp" using c by (metis dropWhile_eq_Cons_conv)
    moreover have "c \<in> set L" using c by (metis list.set_intros(1) set_dropWhileD)
    ultimately have "bp < c" using n by (metis linorder_neqE)
    moreover have "c \<le> a"
    proof -
      have "sorted_wrt (<) (c # cs)" using s c by (metis sorted_wrt_append takeWhile_dropWhile_id)
      then show ?thesis using aL c by auto
    qed
    ultimately show ?thesis by simp
  qed
  show thesis
  proof (rule that [of ?L1 ?L2])
    show "\<forall>a\<in>set ?L1. a < bp \<and> bend h a \<le> unat bp" using ap by (meson set_takeWhileD)
    show "\<forall>a\<in>set ?L2. bp < a \<and> bend h bp \<le> unat a" using ap L2 by (meson set_dropWhileD)
  qed (use s lo n in auto)
qed

text \<open>The first half of \<open>free_link\<close>: \<open>bp\<close> swallows the block behind it, if that is free.\<close>

definition link_right :: "uint64 \<Rightarrow> uint64 \<Rightarrow> uheap \<Rightarrow> uheap" where
  "link_right bp p h =
     (if hadd bp (h_size h bp) = h_ptr h p
      then set_ptr bp (h_ptr h (h_ptr h p)) (set_size bp (h_size h bp + h_size h (h_ptr h p)) h)
      else set_ptr bp (h_ptr h p) h)"

definition link_left :: "uint64 \<Rightarrow> uint64 \<Rightarrow> uheap \<Rightarrow> uheap" where
  "link_left bp p h =
     (if hadd p (h_size h p) = bp
      then set_ptr p (h_ptr h bp) (set_size p (h_size h p + h_size h bp) h)
      else set_ptr p bp h)"

lemma free_link_eq: "free_link bp p h = (link_left bp p (link_right bp p h))\<lparr>freep := p\<rparr>"
  by (simp add: free_link_def link_left_def link_right_def Let_def)

lemma link_sel [simp]:
  "base (link_right bp p h) = base h" "brk (link_right bp p h) = brk h" "freep (link_right bp p h) = freep h" "sbrk_ok (link_right bp p h) = sbrk_ok h"
  "base (link_left bp p h) = base h" "brk (link_left bp p h) = brk h" "sbrk_ok (link_left bp p h) = sbrk_ok h"
  by (simp_all add: link_right_def link_left_def set_ptr_def set_size_def)

lemma chain_rest:
  assumes "chain f x (as @ bs) y"
  shows "\<exists>z. chain f x as z" "bs = [] \<or> chain f (hd bs) (tl bs) y" "f (last (x # as)) = hd (bs @ [y])"
proof -
  show "\<exists>z. chain f x as z" "bs = [] \<or> chain f (hd bs) (tl bs) y"
    using assms by (cases bs; auto simp: chain_append)+
  show "f (last (x # as)) = hd (bs @ [y])"
    using assms chain_nth_next [of f x "as @ bs" y "length as"]
    by (cases as rule: rev_cases; cases bs) (simp_all add: nth_append)
qed

lemma link_right_inv:
  assumes r: "regions lo h (insert bp (set (L1 @ L2) \<union> live))" and c: "chain (h_ptr h) (base h) (L1 @ L2) (base h)"
    and g: "gaps h (L1 @ L2)" and b: "unat (base h) < lo" and L2: "\<forall>a\<in>set L2. bp < a \<and> bend h bp \<le> unat a"
    and n: "bp \<notin> live" "bp \<notin> set (L1 @ L2)" "live \<inter> set (L1 @ L2) = {}" and p: "p = last (base h # L1)"
  obtains L2' where "regions lo (link_right bp p h) (insert bp (set (L1 @ L2') \<union> live))"
    "h_ptr (link_right bp p h) = (h_ptr h)(bp := hd (L2' @ [base h]))" "L2' = [] \<or> chain (h_ptr h) (hd L2') (tl L2') (base h)"
    "gaps (link_right bp p h) (L1 @ L2')" "\<forall>a\<in>set L2'. bend (link_right bp p h) bp < unat a" "set L2' \<subseteq> set L2"
    "\<forall>a. a \<noteq> bp \<longrightarrow> h_size (link_right bp p h) a = h_size h a" "h_size h bp \<le> h_size (link_right bp p h) bp"
proof -
  let ?h = "link_right bp p h"
  note rest = chain_rest [OF c, folded p]
  have fb: "hadd bp (h_size h bp) = a \<longleftrightarrow> bend h bp = unat a" for a by (rule hadd_eq_iff [OF r]) simp
  have same: "gaps h' (L1 @ l) " if "\<forall>a. a \<noteq> bp \<longrightarrow> h_size h' a = h_size h a" "gaps h (L1 @ l)" "bp \<notin> set l" for h' l
  proof -
    have e: "bend h' a = bend h a" if "a \<in> set (L1 @ l)" for a using that \<open>\<forall>a. a \<noteq> bp \<longrightarrow> _\<close> n \<open>bp \<notin> set l\<close> by (auto simp: bend_def)
    show ?thesis unfolding gaps_def
      by (rule sorted_wrt_mono_rel [OF _ that(2) [unfolded gaps_def]]) (simp add: e)
  qed
  show thesis
  proof (cases "bend h bp = unat (h_ptr h p)")
    case False
    have e: "?h = set_ptr bp (h_ptr h p) h" using False fb by (simp add: link_right_def)
    have sz: "h_size ?h a = h_size h a" for a by (simp add: e set_ptr_def)
    have be: "bend ?h a = bend h a" for a using sz by (simp add: bend_def)
    show thesis
    proof (rule that [of L2])
      show "regions lo ?h (insert bp (set (L1 @ L2) \<union> live))" using r sz by (subst regions_cong [of _ _ h]) simp_all
      show "h_ptr ?h = (h_ptr h)(bp := hd (L2 @ [base h]))" using rest(3) by (simp add: e set_ptr_def)
      show "gaps ?h (L1 @ L2)" using g by (simp add: gaps_def be)
      show "\<forall>a\<in>set L2. bend ?h bp < unat a"
      proof
        fix a assume a: "a \<in> set L2"
        then obtain c cs where cs: "L2 = c # cs" by (cases L2) auto
        have "bend h bp < unat c" using False rest(3) L2 cs by (auto simp: le_less)
        moreover have "c = a \<or> bend h c < unat a" using g a cs by (auto simp: gaps_def sorted_wrt_append)
        moreover have "unat c \<le> bend h c" by (simp add: bend_def)
        ultimately show "bend ?h bp < unat a" unfolding be by auto
      qed
    qed (use rest(2) sz in auto)
  next
    case True
    have "lo \<le> bend h bp" using regions_facts(1,2) [OF r, of bp] by simp
    then have "L2 \<noteq> []" using True rest(3) b by auto
    then obtain c cs where cs: "L2 = c # cs" by (cases L2) auto
    have pc: "h_ptr h p = c" using rest(3) cs by simp
    have e: "?h = set_ptr bp (h_ptr h c) (set_size bp (h_size h bp + h_size h c) h)" using True fb pc by (simp add: link_right_def)
    have sz: "h_size ?h a = (if a = bp then h_size h bp + h_size h c else h_size h a)" for a by (simp add: e set_ptr_def set_size_def)
    have dist: "distinct (L1 @ L2)" using gaps_less [OF g] by (simp add: strict_sorted_iff)
    have S: "insert bp (set (L1 @ L2) \<union> live) - {c} = insert bp (set (L1 @ cs) \<union> live)"
      using dist n cs by auto
    have m: "regions lo ?h (insert bp (set (L1 @ cs) \<union> live))" "bend ?h bp = bend h c" "h_size ?h bp \<ge> h_size h bp"
      using regions_merge [OF r _ _ True [unfolded pc] sz] cs unfolding S by auto
    have hd: "h_ptr h c = hd (cs @ [base h])" using chain_rest(3) [of "h_ptr h" "base h" "L1 @ [c]" cs "base h"] c cs by simp
    show thesis
    proof (rule that [of cs])
      show "h_ptr ?h = (h_ptr h)(bp := hd (cs @ [base h]))" by (simp add: e set_ptr_def set_size_def hd)
      show "gaps ?h (L1 @ cs)" using same [of ?h cs] sz g n cs by (auto simp: gaps_def sorted_wrt_append)
      show "\<forall>a\<in>set cs. bend ?h bp < unat a" using m(2) g cs by (auto simp: gaps_def sorted_wrt_append)
      show "cs = [] \<or> chain (h_ptr h) (hd cs) (tl cs) (base h)" using rest(2) cs by (cases cs) auto
    qed (use m sz cs in auto)
  qed
qed

text \<open>The second half: the block before \<open>bp\<close> swallows it, or \<open>bp\<close> becomes a block of the list.\<close>

lemma link_left_inv:
  assumes r: "regions lo h (insert bp (set (L1 @ L2) \<union> live))" and c: "\<exists>z. chain f (base h) L1 z"
    and hp: "h_ptr h = f(bp := hd (L2 @ [base h]))" and c2: "L2 = [] \<or> chain f (hd L2) (tl L2) (base h)"
    and g: "gaps h (L1 @ L2)" "\<forall>a\<in>set L2. bend h bp < unat a" and b: "unat (base h) < lo" "h_size h (base h) = 0"
    and L1: "\<forall>a\<in>set L1. a < bp \<and> bend h a \<le> unat bp" and n: "bp \<notin> live" "bp \<notin> set (L1 @ L2)" "live \<inter> set (L1 @ L2) = {}"
    and p: "p = last (base h # L1)" and h': "h' = (link_left bp p h)\<lparr>freep := p\<rparr>" and nz: "base h \<noteq> 0"
  shows "\<exists>L'. heap_inv lo h' L' live \<and> (\<exists>a\<in>set L'. h_size h bp \<le> h_size h' a) \<and> (\<forall>a\<in>live. h_size h' a = h_size h a)
    \<and> set L' \<subseteq> insert bp (set (L1 @ L2))"
proof -
  obtain z where z: "chain f (base h) L1 z" using c by blast
  have lo: "base h \<noteq> a" if "a \<in> insert bp (set (L1 @ L2))" for a using regions_facts(1) [OF r, of a] that b by auto
  have d: "distinct (base h # L1 @ L2)" using gaps_less [OF g(1)] lo by (auto simp: strict_sorted_iff)
  have pin: "p \<in> set (base h # L1)" unfolding p by (rule last_in_set) simp
  have pL2: "p \<notin> set L2" "p \<noteq> bp" using pin d n lo by auto
  have dl: "distinct (base h # L1)" using d by auto
  note cj = chain_join [OF z dl, of "_", folded p] and ci = chain_insert [OF z dl, of "_", folded p]
  have sel: "base h' = base h" "brk h' = brk h" "freep h' = p" by (simp_all add: h')
  show ?thesis
  proof (cases "hadd p (h_size h p) = bp")
    case True
    have "p \<noteq> base h" using True b(2) lo [of bp] by (auto simp: hadd_def)
    then have pL: "p \<in> set L1" using pin by simp
    then obtain X where X: "L1 = X @ [p]" unfolding p by (cases L1 rule: rev_cases) auto
    have e: "h_size h' a = (if a = p then h_size h p + h_size h bp else h_size h a)" "h_ptr h' = f(bp := hd (L2 @ [base h]), p := hd (L2 @ [base h]))" for a
      using True by (simp_all add: h' link_left_def set_ptr_def set_size_def hp)
    have be: "bend h p = unat bp" using True hadd_eq_iff [OF r, of p bp] pL by simp
    have S: "insert bp (set (L1 @ L2) \<union> live) - {bp} = set (L1 @ L2) \<union> live" using n by auto
    have m: "regions lo h' (set (L1 @ L2) \<union> live)" "bend h' p = bend h bp" "h_size h' p \<ge> h_size h bp"
      using regions_merge [OF r _ _ be e(1) sel(2)] pL unfolding S by auto
    have o: "bend h' a = bend h a" if "a \<noteq> p" for a using e(1) that by (simp add: bend_def)
    have "chain (f(p := hd (L2 @ [base h]))) (base h) (L1 @ L2) (base h)" using cj c2 pL2(1) by blast
    then have "chain (h_ptr h') (base h) (L1 @ L2) (base h)"
      using n(2) lo [of bp] unfolding e(2) fun_upd_twist [OF pL2(2) [symmetric]] by (simp add: chain_upd_other)
    moreover have "gaps h' (L1 @ L2)"
      unfolding gaps_def sorted_wrt_append X
    proof (intro conjI ballI)
      have gX: "\<forall>a\<in>set X. bend h a < unat p" "sorted_wrt (\<lambda>a b. bend h a < unat b) X" "sorted_wrt (\<lambda>a b. bend h a < unat b) L2"
        "\<forall>a\<in>set X. \<forall>b\<in>set L2. bend h a < unat b" using g(1) X by (auto simp: gaps_def sorted_wrt_append)
      have pX: "p \<notin> set X" using d X by auto
      have oX: "bend h' a = bend h a" if "a \<in> set X \<union> set L2" for a using o [of a] that pX pL2(1) by auto
      show "sorted_wrt (\<lambda>a b. bend h' a < unat b) X" "sorted_wrt (\<lambda>a b. bend h' a < unat b) L2"
        by (rule sorted_wrt_mono_rel [OF _ gX(2)], simp add: oX) (rule sorted_wrt_mono_rel [OF _ gX(3)], simp add: oX)
      show "bend h' a < unat b" if "a \<in> set X" "b \<in> set [p]" for a b using that gX(1) oX by simp
      show "bend h' a < unat b" if "a \<in> set (X @ [p])" "b \<in> set L2" for a b
        using that gX(4) oX g(2) m(2) by auto
    qed simp
    ultimately have "heap_inv lo h' (L1 @ L2) live"
      using m(1) n(3) sel pin b e(1) \<open>p \<noteq> base h\<close> nz unfolding heap_inv_def by auto
    moreover have "\<forall>a\<in>live. h_size h' a = h_size h a" using e(1) pL n(3) by auto
    ultimately show ?thesis using m(3) pL by (intro exI [of _ "L1 @ L2"]) auto
  next
    case False
    have e: "h_size h' a = h_size h a" "h_ptr h' = f(bp := hd (L2 @ [base h]), p := bp)" for a
      using False by (simp_all add: h' link_left_def set_ptr_def hp)
    have be: "bend h' a = bend h a" for a using e(1) by (simp add: bend_def)
    have S: "insert bp (set (L1 @ L2) \<union> live) = set (L1 @ bp # L2) \<union> live" by auto
    have "regions lo h' (set (L1 @ bp # L2) \<union> live)"
      using r unfolding S by (subst regions_cong [of _ _ h]) (simp_all add: e sel)
    moreover have "chain (h_ptr h') (base h) (L1 @ bp # L2) (base h)"
      unfolding e(2) using ci [OF c2 pL2(1)] n(2) lo [of bp] by auto
    moreover have "gaps h' (L1 @ bp # L2)"
    proof -
      have lt: "bend h a < unat bp" if a: "a \<in> set L1" for a
      proof -
        have pL: "p \<in> set L1" using a p by (cases L1 rule: rev_cases) auto
        have "bend h p \<noteq> unat bp" using False hadd_eq_iff [OF r, of p bp] pL by simp
        then have "bend h p < unat bp" using L1 pL by (auto simp: le_less)
        moreover have "a = p \<or> bend h a < unat p"
          using a g(1) p by (cases L1 rule: rev_cases) (auto simp: gaps_def sorted_wrt_append)
        ultimately show ?thesis by (auto simp: bend_def)
      qed
      then show ?thesis using g unfolding gaps_def be by (auto simp: sorted_wrt_append)
    qed
    ultimately have "heap_inv lo h' (L1 @ bp # L2) live"
      using n sel pin b e(1) nz unfolding heap_inv_def by auto
    then show ?thesis using e(1) by (intro exI [of _ "L1 @ bp # L2"]) auto
  qed
qed

lemma ufree_inv:
  assumes i: "heap_inv lo h L (insert bp live)" and nl: "bp \<notin> live"
  shows "\<exists>h' L'. ufree (bp + 16) h = Some h' \<and> heap_inv lo h' L' live \<and> (\<exists>a\<in>set L'. h_size h bp \<le> h_size h' a)
    \<and> (\<forall>a\<in>live. h_size h' a = h_size h a) \<and> brk h' = brk h \<and> sbrk_ok h' = sbrk_ok h \<and> base h' = base h"
proof -
  obtain L1 L2 where L: "L = L1 @ L2" "\<forall>a\<in>set L1. a < bp \<and> bend h a \<le> unat bp" "\<forall>a\<in>set L2. bp < a \<and> bend h bp \<le> unat a"
    "base h < bp" "sorted_wrt (<) (base h # L)" "bp \<notin> set L" by (rule heap_split_at [OF i nl])
  have I: "regions lo h (insert bp (set (L1 @ L2) \<union> live))" "gaps h (L1 @ L2)" "chain (h_ptr h) (base h) (L1 @ L2) (base h)"
    "freep h \<in> set (base h # L)" "h_size h (base h) = 0" "base h \<noteq> 0" "unat (base h) < lo" "live \<inter> set (L1 @ L2) = {}"
    using i L(1) by (auto simp: heap_inv_def)
  let ?p = "last (base h # L1)" let ?h1 = "link_right bp ?p h" let ?h' = "free_link bp ?p h"
  have "free_scan (h_ptr h) bp (freep h) = Some ?p"
    by (rule free_scan_ring [OF I(3) L(5) [unfolded L(1)] refl L(4)]) (use L I(4) in auto)
  then have f: "ufree (bp + 16) h = Some ?h'" by (simp add: ufree_def)
  have nb: "bp \<notin> set (L1 @ L2)" using L(1,6) by simp
  obtain L2' where 1: "regions lo ?h1 (insert bp (set (L1 @ L2') \<union> live))"
    "h_ptr ?h1 = (h_ptr h)(bp := hd (L2' @ [base h]))" "L2' = [] \<or> chain (h_ptr h) (hd L2') (tl L2') (base h)"
    "gaps ?h1 (L1 @ L2')" "\<forall>a\<in>set L2'. bend ?h1 bp < unat a" "set L2' \<subseteq> set L2"
    "\<forall>a. a \<noteq> bp \<longrightarrow> h_size ?h1 a = h_size h a" "h_size h bp \<le> h_size ?h1 bp"
    by (rule link_right_inv [OF I(1,3,2,7) L(3) nl nb I(8) refl])
  have L1: "\<forall>a\<in>set L1. a < bp \<and> bend ?h1 a \<le> unat bp" using L(2) 1(7) nb by (auto simp: bend_def)
  have n: "bp \<notin> set (L1 @ L2')" "live \<inter> set (L1 @ L2') = {}" using nb I(8) 1(6) by auto
  have sz: "h_size ?h1 (base ?h1) = 0" using 1(7) I(5) L(4) by auto
  have "\<exists>L'. heap_inv lo ?h' L' live \<and> (\<exists>a\<in>set L'. h_size ?h1 bp \<le> h_size ?h' a) \<and> (\<forall>a\<in>live. h_size ?h' a = h_size ?h1 a)
    \<and> set L' \<subseteq> insert bp (set (L1 @ L2'))"
    by (rule link_left_inv [where f = "h_ptr h" and h = ?h1, OF 1(1) _ _ _ 1(4,5) _ sz L1 nl n _ free_link_eq])
      (use 1(2,3) I(6,7) chain_rest(1) [OF I(3)] in simp_all)
  then obtain L' where L': "heap_inv lo ?h' L' live" "\<exists>a\<in>set L'. h_size ?h1 bp \<le> h_size ?h' a" "\<forall>a\<in>live. h_size ?h' a = h_size ?h1 a"
    by blast
  have "\<exists>a\<in>set L'. h_size h bp \<le> h_size ?h' a" using L'(2) 1(8) by (meson order_trans)
  moreover have "\<forall>a\<in>live. h_size ?h' a = h_size h a" using L'(3) 1(7) nl by auto
  moreover have "brk ?h' = brk h" "sbrk_ok ?h' = sbrk_ok h" "base ?h' = base h" by (simp_all add: free_link_eq)
  ultimately show ?thesis using f L'(1) by blast
qed

section \<open>Taking a block\<close>

lemma heap_inv_parts:
  assumes "heap_inv lo h L live"
  shows "regions lo h (set L \<union> live)" "live \<inter> set L = {}" "gaps h L" "chain (h_ptr h) (base h) L (base h)" "freep h \<in> set (base h # L)"
    "h_size h (base h) = 0" "base h \<noteq> 0" "unat (base h) < lo" "distinct (base h # L)"
proof -
  show r: "regions lo h (set L \<union> live)" and "live \<inter> set L = {}" and g: "gaps h L" and "chain (h_ptr h) (base h) L (base h)"
    and "freep h \<in> set (base h # L)" and "h_size h (base h) = 0" and "base h \<noteq> 0" and b: "unat (base h) < lo"
    using assms by (auto simp: heap_inv_def)
  have "base h \<notin> set L" using regions_facts(1) [OF r, of "base h"] b by auto
  then show "distinct (base h # L)" using gaps_less [OF g] by (simp add: strict_sorted_iff)
qed

lemma take_block_inv:
  assumes i: "heap_inv lo h L live" and n: "0 < n" "n \<le> h_size h p" and q: "prev \<in> set (base h # L)" "h_ptr h prev = p" "p \<in> set (base h # L)"
  shows "\<exists>a h' L'. take_block n prev p h = (a + 16, h') \<and> a \<notin> live \<and> h_size h' a = n \<and> heap_inv lo h' L' (insert a live)
    \<and> (\<forall>b\<in>live. h_size h' b = h_size h b) \<and> base h' = base h \<and> brk h' = brk h"
proof -
  note I = heap_inv_parts [OF i]
  have "p \<noteq> base h" using n I(6) by auto
  then have pL: "p \<in> set L" using q(3) by simp
  then obtain L1 L2 where L: "L = L1 @ p # L2" by (meson split_list)
  have pl: "p \<notin> live" using I(2) pL by blast
  show ?thesis
  proof (cases "h_size h p = n")
    case True
    define h' where "h' = (set_ptr prev (h_ptr h p) h)\<lparr>freep := prev\<rparr>"
    have t: "take_block n prev p h = (p + 16, h')" using True by (simp add: take_block_def h'_def)
    have sel: "h_size h' = h_size h" "brk h' = brk h" "base h' = base h" "h_ptr h' = (h_ptr h)(prev := h_ptr h p)" "freep h' = prev"
      by (simp_all add: h'_def set_ptr_def)
    have pr: "prev = last (base h # L1)" using chain_pred [of "h_ptr h" "base h" L1 p L2 prev] I(4,9) q L by simp
    have hd: "h_ptr h p = hd (L2 @ [base h])" using chain_rest(3) [of "h_ptr h" "base h" "L1 @ [p]" L2 "base h"] I(4) L by simp
    have "chain (h_ptr h') (base h) (L1 @ L2) (base h)"
      unfolding sel(4) unfolding hd pr using chain_remove [of "h_ptr h" "base h" L1 p L2 "base h"] I(4,9) L by simp
    moreover have S: "set (L1 @ L2) \<union> insert p live = set L \<union> live" using L by auto
    have "regions lo h' (set (L1 @ L2) \<union> insert p live)"
      unfolding S using I(1) by (subst regions_cong [of _ _ h]) (simp_all only: sel)
    moreover have "gaps h' (L1 @ L2)" using I(3) L by (auto simp: gaps_def bend_def sel sorted_wrt_append)
    moreover have "insert p live \<inter> set (L1 @ L2) = {}" using I(2,9) L by auto
    moreover have "prev \<in> set (base h # L1 @ L2)" unfolding pr using last_in_set [of "base h # L1"] by auto
    ultimately have "heap_inv lo h' (L1 @ L2) (insert p live)" using I(6-8) unfolding heap_inv_def sel by blast
    moreover have "h_size h' p = n" "\<forall>b\<in>live. h_size h' b = h_size h b" using True sel(1) by simp_all
    ultimately show ?thesis using t pl sel(2,3) by blast
  next
    case False
    define a where "a = hadd p (h_size h p - n)"
    define h' where "h' = (set_size a n (set_size p (h_size h p - n) h))\<lparr>freep := prev\<rparr>"
    have t: "take_block n prev p h = (a + 16, h')" using False by (simp add: take_block_def h'_def a_def set_size_def Let_def)
    have sel: "brk h' = brk h" "base h' = base h" "h_ptr h' = h_ptr h" "freep h' = prev" by (simp_all add: h'_def set_size_def)
    have sz: "h_size h' c = (if c = a then n else if c = p then h_size h p - n else h_size h c)" for c by (simp add: h'_def set_size_def)
    have "n < h_size h p" "n \<noteq> 0" "p \<in> set L \<union> live" using n False pL by auto
    note sp = regions_split [OF I(1) this(3,2,1) a_def sz sel(1)]
    have S: "insert a (set L \<union> live) = set L \<union> insert a live" by auto
    have "unat (base h) < unat a" using sp(3) regions_facts(1) [OF I(1), of p] pL I(8) by simp
    then have ba: "a \<noteq> base h" by auto
    have "gaps h' L" unfolding gaps_def
    proof (rule sorted_wrt_mono_rel [OF _ I(3) [unfolded gaps_def]])
      fix x y assume x: "x \<in> set L" "bend h x < unat y"
      then show "bend h' x < unat y" using sp(4) sp(5) [of x] by (cases "x = p") auto
    qed
    moreover have "h_size h' (base h) = 0" using sz [of "base h"] ba \<open>p \<noteq> base h\<close> I(6) by simp
    moreover have "insert a live \<inter> set L = {}" using I(2) sp(2) by blast
    ultimately have "heap_inv lo h' L (insert a live)"
      using sp(1) [unfolded S] I(4,7,8) q(1) unfolding heap_inv_def sel by blast
    moreover have "\<forall>b\<in>live. h_size h' b = h_size h b" using sz sp(2) pl by auto
    moreover have "h_size h' a = n" "a \<notin> live" using sz [of a] sp(2) by auto
    ultimately show ?thesis using t sel(1,2) by blast
  qed
qed

section \<open>Searching the ring\<close>

lemma malloc_loop_fits:
  assumes "chain (h_ptr h) prev Xs (freep h)" "freep h \<notin> set Xs" "\<exists>c\<in>set (Xs @ [freep h]). n \<le> h_size h c"
  shows "\<exists>prev' p'. malloc_loop n prev (hd (Xs @ [freep h])) h = Some (take_block n prev' p' h)
    \<and> prev' \<in> insert prev (set Xs) \<and> p' \<in> set (Xs @ [freep h]) \<and> h_ptr h prev' = p' \<and> n \<le> h_size h p'"
  using assms
proof (induction Xs arbitrary: prev)
  case Nil
  then show ?case by (subst malloc_loop.simps) auto
next
  case (Cons x Xs)
  show ?case
  proof (cases "n \<le> h_size h x")
    case True
    then show ?thesis using Cons.prems by (subst malloc_loop.simps) auto
  next
    case False
    have hx: "h_ptr h x = hd (Xs @ [freep h])" using Cons.prems(1) chain_next [of "h_ptr h" x Xs "freep h"] by simp
    have "malloc_loop n prev x h = malloc_loop n x (hd (Xs @ [freep h])) h"
      using False Cons.prems(2) hx by (subst malloc_loop.simps) auto
    then show ?thesis using Cons.IH [of x] Cons.prems False by auto
  qed
qed

lemma malloc_loop_full:
  assumes "chain (h_ptr h) prev Xs (freep h)" "freep h \<notin> set Xs" "\<forall>c\<in>set (Xs @ [freep h]). \<not> n \<le> h_size h c"
  shows "malloc_loop n prev (hd (Xs @ [freep h])) h =
    (case morecore n h of None \<Rightarrow> None
     | Some (p, h) \<Rightarrow> if p = 0 then Some (0, h) else malloc_loop n p (h_ptr h p) h)"
  using assms
proof (induction Xs arbitrary: prev)
  case Nil
  then show ?case by (subst malloc_loop.simps) auto
next
  case (Cons x Xs)
  have hx: "h_ptr h x = hd (Xs @ [freep h])" using Cons.prems(1) chain_next [of "h_ptr h" x Xs "freep h"] by simp
  have "malloc_loop n prev x h = malloc_loop n x (hd (Xs @ [freep h])) h"
    using Cons.prems hx by (subst malloc_loop.simps) auto
  then show ?case using Cons.IH [of x] Cons.prems by auto
qed

text \<open>The ring read from \<open>freep\<close>.\<close>

lemma ring_from_freep:
  assumes i: "heap_inv lo h L live"
  obtains Xs where "chain (h_ptr h) (freep h) Xs (freep h)" "freep h \<notin> set Xs" "set (Xs @ [freep h]) = set (base h # L)"
proof (cases "freep h = base h")
  case True
  then show thesis using heap_inv_parts [OF i] by (intro that [of L]) auto
next
  case False
  note I = heap_inv_parts [OF i]
  have "freep h \<in> set L" using False I(5) by simp
  then obtain A B where L: "L = A @ freep h # B" by (meson split_list)
  have "chain (h_ptr h) (freep h) (B @ base h # A) (freep h)" by (rule chain_rotate) (use I(4) L in simp)
  then show thesis using I(9) L by (intro that [of "B @ base h # A"]) auto
qed

lemma malloc_found:
  assumes i: "heap_inv lo h L live" and n: "0 < n" and fit: "\<exists>c\<in>set L. n \<le> h_size h c"
  shows "\<exists>a h' L'. malloc_loop n (freep h) (h_ptr h (freep h)) h = Some (a + 16, h') \<and> a \<notin> live \<and> h_size h' a = n
    \<and> heap_inv lo h' L' (insert a live) \<and> (\<forall>b\<in>live. h_size h' b = h_size h b)"
proof -
  obtain Xs where X: "chain (h_ptr h) (freep h) Xs (freep h)" "freep h \<notin> set Xs" "set (Xs @ [freep h]) = set (base h # L)"
    by (rule ring_from_freep [OF i])
  have hd: "h_ptr h (freep h) = hd (Xs @ [freep h])" by (rule chain_next [OF X(1)])
  have "\<exists>c\<in>set (Xs @ [freep h]). n \<le> h_size h c" using fit X(3) by auto
  from malloc_loop_fits [OF X(1,2) this] obtain prev p where
    m: "malloc_loop n (freep h) (h_ptr h (freep h)) h = Some (take_block n prev p h)" "prev \<in> set (base h # L)" "p \<in> set (base h # L)"
    "h_ptr h prev = p" "n \<le> h_size h p" using X(3) unfolding hd by auto
  from take_block_inv [OF i n m(5,2,4,3)] show ?thesis unfolding m(1) by force
qed

section \<open>Getting memory\<close>

text \<open>Whether the next call of \<open>sbrk\<close> succeeds.\<close>

definition sbrk_next :: "uheap \<Rightarrow> bool" where
  "sbrk_next h \<longleftrightarrow> (case sbrk_ok h of [] \<Rightarrow> False | ok # _ \<Rightarrow> ok)"

definition core_units :: "uint \<Rightarrow> uint" where
  "core_units n = (if n < 4096 then 4096 else n)"

lemma heap_inv_oks: "heap_inv lo (h\<lparr>sbrk_ok := oks\<rparr>) L live = heap_inv lo h L live"
  by (simp add: heap_inv_def regions_def gaps_def bend_def)

lemma morecore_fails:
  assumes "\<not> sbrk_next h"
  shows "\<exists>oks. morecore n h = Some (0, h\<lparr>sbrk_ok := oks\<rparr>)"
proof (cases "sbrk_ok h")
  case Nil
  then have "morecore n h = Some (0, h)" by (simp add: morecore_def sbrk_def Let_def)
  moreover have "h = h\<lparr>sbrk_ok := []\<rparr>" using Nil by simp
  ultimately show ?thesis by metis
next
  case (Cons ok oks)
  then show ?thesis using assms by (auto simp: morecore_def sbrk_def sbrk_next_def Let_def)
qed

lemma core_bytes:
  assumes "16 * unat nu < 2 ^ 31"
  shows "sint (ucast (ucast nu * 16 :: uint64) :: uint) = 16 * int (unat nu)"
proof -
  have e: "unat (ucast (ucast nu * 16 :: uint64) :: uint) = 16 * unat nu"
    using assms by (simp add: unsigned_ucast_eq unat_word_ariths unat_uint64 take_bit_nat_eq_self)
  define m where "m = unat nu"
  have "uint (ucast (ucast nu * 16 :: uint64) :: uint) = int (16 * m)" unfolding m_def e [symmetric] by simp
  then show ?thesis using assms unfolding sint_uint m_def [symmetric] by (simp only:) (simp add: signed_take_bit_int_eq_self)
qed

lemma scast_of_sint: "(scast (w :: uint) :: uint64) = of_int (sint w)"
  by simp

lemma morecore_grows:
  assumes i: "heap_inv lo h L live" and ok: "sbrk_next h" and small: "unat (brk h) + 16 * unat (core_units n) < 2 ^ 31"
  shows "\<exists>h' L'. morecore n h = Some (freep h', h') \<and> freep h' \<noteq> 0 \<and> heap_inv lo h' L' live \<and> (\<exists>a\<in>set L'. n \<le> h_size h' a)
    \<and> (\<forall>a\<in>live. h_size h' a = h_size h a)"
proof -
  let ?nu = "core_units n" and ?b = "brk h"
  obtain oks where oks: "sbrk_ok h = True # oks" using ok by (auto simp: sbrk_next_def split: list.splits)
  have sb: "sint (ucast (ucast ?nu * 16 :: uint64) :: uint) = 16 * int (unat ?nu)" by (rule core_bytes) (use small in simp)
  have sc: "scast (ucast (ucast ?nu * 16 :: uint64) :: uint) = (of_int (16 * int (unat ?nu)) :: uint64)" by (rule trans [OF scast_of_sint]) (simp only: sb)
  define h1 where "h1 = set_size ?b ?nu (h\<lparr>brk := ?b + of_int (16 * int (unat ?nu)), sbrk_ok := oks\<rparr>)"
  have ub: "unat (brk h1) = unat ?b + 16 * unat ?nu"
  proof -
    have "brk h1 = ?b + of_nat (16 * unat ?nu)" by (simp add: h1_def set_size_def)
    then show ?thesis using small by (simp add: unat_word_ariths unat_uint64)
  qed
  note I = heap_inv_parts [OF i]
  have nz: "?nu \<noteq> 0" "n \<le> ?nu" by (auto simp: core_units_def)
  have sel: "h_size h1 c = (if c = ?b then ?nu else h_size h c)" "h_ptr h1 = h_ptr h" "base h1 = base h" "freep h1 = freep h" for c
    by (simp_all add: h1_def set_size_def)
  note gr = regions_grow [OF I(1) nz(1) _ sel(1) ub]
  have gr1: "regions lo h1 (insert ?b (set L \<union> live))" "?b \<notin> set L \<union> live" using gr small by auto
  have bb: "?b \<noteq> base h" using I(1,8) by (auto simp: regions_def)
  have "bend h1 a = bend h a" if "a \<in> set L" for a using gr1(2) that sel(1) by (auto simp: bend_def)
  then have "gaps h1 L" using sorted_wrt_mono_rel [OF _ I(3) [unfolded gaps_def], of "\<lambda>a b. bend h1 a < unat b"] by (simp add: gaps_def)
  moreover have "insert ?b (set L \<union> live) = set L \<union> insert ?b live" by auto
  ultimately have "heap_inv lo h1 L (insert ?b live)"
    using gr1 I bb sel unfolding heap_inv_def by auto
  from ufree_inv [OF this] gr1(2) obtain h' L' where h': "ufree (?b + 16) h1 = Some h'" "heap_inv lo h' L' live"
    "\<exists>a\<in>set L'. h_size h1 ?b \<le> h_size h' a" "\<forall>a\<in>live. h_size h' a = h_size h1 a" by blast
  have bm: "?b \<noteq> - 1" using small by (auto simp: unsigned_minus_1_eq_mask mask_eq_exp_minus_1)
  have "morecore n h = Some (freep h', h')"
    using bm oks h'(1) by (simp add: morecore_def sbrk_def Let_def core_units_def [symmetric] sc h1_def)
  moreover have "freep h' \<noteq> 0"
    using heap_inv_parts(1,5,7,8) [OF h'(2)] regions_facts(1) [of lo h' "set L' \<union> live" "freep h'"] by auto
  moreover have "\<exists>a\<in>set L'. n \<le> h_size h' a" using h'(3) sel(1) nz(2) by (auto intro: order_trans)
  moreover have "\<forall>a\<in>live. h_size h' a = h_size h a" using h'(4) sel(1) gr1(2) by auto
  ultimately show ?thesis using h'(2) by blast
qed

section \<open>malloc\<close>

text \<open>A heap that was never used, or one with blocks.\<close>

definition heap_ok :: "nat \<Rightarrow> uheap \<Rightarrow> uint64 list \<Rightarrow> uint64 set \<Rightarrow> bool" where
  "heap_ok lo h L live \<longleftrightarrow> (if freep h = 0 then L = [] \<and> live = {} \<and> lo = unat (brk h) \<and> base h \<noteq> 0 \<and> base h < brk h \<and> unat (brk h) \<le> 2 ^ 32
     else heap_inv lo h L live)"

lemma heap_ok_started:
  assumes "heap_ok lo h L live"
  defines "h' \<equiv> if freep h = 0 then set_size (base h) 0 ((set_ptr (base h) (base h) h)\<lparr>freep := base h\<rparr>) else h"
  shows "heap_inv lo h' L live" "\<forall>a\<in>live. h_size h' a = h_size h a" "brk h' = brk h" "sbrk_ok h' = sbrk_ok h"
    "\<forall>a\<in>set L. h_size h' a = h_size h a"
  using assms(1) unfolding h'_def
  by (auto simp: heap_ok_def heap_inv_def regions_def gaps_def set_size_def set_ptr_def word_less_nat_alt split: if_splits)

lemma malloc_units_room:
  "0 < malloc_units nbytes" "unat nbytes \<le> 16 * unat (malloc_units nbytes) - 16"
proof -
  have u: "unat nbytes < 2 ^ 32" using unsigned_less [of nbytes, where 'a = nat] by simp
  have "unat ((ucast nbytes + 16 - 1 :: uint64) div 16 + 1) = (unat nbytes + 15) div 16 + 1"
    using u by (simp add: unat_word_ariths unat_div unat_uint64)
  moreover have "(unat nbytes + 15) div 16 + 1 < 2 ^ 32" using u by simp
  ultimately have e: "unat (malloc_units nbytes) = (unat nbytes + 15) div 16 + 1"
    unfolding malloc_units_def by (simp add: unsigned_ucast_eq take_bit_nat_eq_self)
  then show "0 < malloc_units nbytes" by (simp add: word_less_nat_alt)
  show "unat nbytes \<le> 16 * unat (malloc_units nbytes) - 16" unfolding e by simp
qed

lemma malloc_loop_exact:
  assumes i: "heap_inv lo h L live" and n: "0 < n" and small: "unat (brk h) + 16 * unat (core_units n) < 2 ^ 31"
    and fails: "fails \<longleftrightarrow> (\<forall>c\<in>set L. h_size h c < n) \<and> \<not> sbrk_next h"
  shows "\<exists>r h' L'. malloc_loop n (freep h) (h_ptr h (freep h)) h = Some (r, h') \<and> (\<forall>b\<in>live. h_size h' b = h_size h b)
    \<and> (if fails then r = 0 \<and> heap_inv lo h' L' live
       else \<exists>a. r = a + 16 \<and> a \<notin> live \<and> h_size h' a = n \<and> heap_inv lo h' L' (insert a live))"
proof (cases "\<exists>c\<in>set L. n \<le> h_size h c")
  case True
  then have "\<not> fails" using fails by (auto simp: not_less)
  then show ?thesis using malloc_found [OF i n True] by auto
next
  case False
  note I = heap_inv_parts [OF i]
  obtain Xs where X: "chain (h_ptr h) (freep h) Xs (freep h)" "freep h \<notin> set Xs" "set (Xs @ [freep h]) = set (base h # L)"
    by (rule ring_from_freep [OF i])
  have hd: "h_ptr h (freep h) = hd (Xs @ [freep h])" by (rule chain_next [OF X(1)])
  have "\<forall>c\<in>set (Xs @ [freep h]). \<not> n \<le> h_size h c" using False X(3) I(6) n by auto
  note m = malloc_loop_full [OF X(1,2) this, folded hd]
  show ?thesis
  proof (cases "sbrk_next h")
    case True
    then have nf: "\<not> fails" using fails by simp
    obtain h1 L1 where 1: "morecore n h = Some (freep h1, h1)" "freep h1 \<noteq> 0" "heap_inv lo h1 L1 live" "\<exists>a\<in>set L1. n \<le> h_size h1 a"
      "\<forall>a\<in>live. h_size h1 a = h_size h a" using morecore_grows [OF i True small] by blast
    from malloc_found [OF 1(3) n 1(4)] show ?thesis using m 1(1,2,5) nf by auto
  next
    case nb: False
    obtain oks where "morecore n h = Some (0, h\<lparr>sbrk_ok := oks\<rparr>)" using morecore_fails [OF nb] by blast
    moreover have "fails" using fails False nb by (auto simp: not_le)
    ultimately show ?thesis using m i heap_inv_oks [where lo = lo and h = h and oks = oks and L = L and live = live] by auto
  qed
qed

section \<open>Properties\<close>

text \<open>
  C6. \<open>malloc\<close> returns on every heap that \<open>malloc\<close> and \<open>free\<close> have built. It fails exactly when no free
  block is large enough and \<open>sbrk\<close> fails; otherwise it returns the memory behind the header of a new block with room
  for \<open>nbytes\<close>, which overlaps no block the program holds, and the free and the held blocks still divide all
  memory that was obtained, with no two free blocks adjacent. The break stays below the size at which \<open>sbrk\<close>'s
  \<open>int\<close> argument overflows.\<close>

theorem umalloc_fresh_block:
  assumes ok: "heap_ok lo h L live" and small: "unat (brk h) + 16 * unat (core_units (malloc_units nbytes)) < 2 ^ 31"
  shows "\<exists>r h' L'. umalloc nbytes h = Some (r, h') \<and> (\<forall>b\<in>live. h_size h' b = h_size h b)
    \<and> (if (\<forall>c\<in>set L. h_size h c < malloc_units nbytes) \<and> \<not> sbrk_next h then r = 0 \<and> heap_inv lo h' L' live
       else \<exists>a. r = a + 16 \<and> a \<notin> live \<and> heap_inv lo h' L' (insert a live) \<and> unat a + 16 + unat nbytes \<le> bend h' a
         \<and> (\<forall>b\<in>live. bend h' a \<le> unat b \<or> bend h' b \<le> unat a))"
proof -
  let ?n = "malloc_units nbytes"
  define h1 where "h1 = (if freep h = 0 then set_size (base h) 0 ((set_ptr (base h) (base h) h)\<lparr>freep := base h\<rparr>) else h)"
  note s = heap_ok_started [OF ok, folded h1_def]
  have u: "umalloc nbytes h = malloc_loop ?n (freep h1) (h_ptr h1 (freep h1)) h1" by (simp add: umalloc_def h1_def Let_def)
  have f: "(\<forall>c\<in>set L. h_size h c < ?n) \<and> \<not> sbrk_next h \<longleftrightarrow> (\<forall>c\<in>set L. h_size h1 c < ?n) \<and> \<not> sbrk_next h1"
    using s(4,5) by (simp add: sbrk_next_def)
  from malloc_loop_exact [OF s(1) malloc_units_room(1) _ f] small s(3) obtain r h' L' where
    m: "umalloc nbytes h = Some (r, h')" "\<forall>b\<in>live. h_size h' b = h_size h1 b"
    "if (\<forall>c\<in>set L. h_size h c < ?n) \<and> \<not> sbrk_next h then r = 0 \<and> heap_inv lo h' L' live
     else \<exists>a. r = a + 16 \<and> a \<notin> live \<and> h_size h' a = ?n \<and> heap_inv lo h' L' (insert a live)"
    unfolding u by fastforce
  have "unat a + 16 + unat nbytes \<le> bend h' a \<and> (\<forall>b\<in>live. bend h' a \<le> unat b \<or> bend h' b \<le> unat a)"
    if "heap_inv lo h' L' (insert a live)" "a \<notin> live" "h_size h' a = ?n" for a
  proof
    have "0 < unat ?n" using malloc_units_room(1) by (simp add: word_less_nat_alt)
    then show "unat a + 16 + unat nbytes \<le> bend h' a" using malloc_units_room(2) [of nbytes] that(3) by (simp add: bend_def)
    show "\<forall>b\<in>live. bend h' a \<le> unat b \<or> bend h' b \<le> unat a"
      using regions_apart [OF heap_inv_parts(1) [OF that(1)], of a] that(2) by auto
  qed
  then show ?thesis using m s(2) by (intro exI [of _ r] exI [of _ h'] exI [of _ L']) (auto split: if_splits)
qed

text \<open>A program whose static header is at 0x1000 and whose memory ends at 0x4000; \<open>sbrk\<close> succeeds once.\<close>

definition demo_heap :: uheap where
  "demo_heap = \<lparr>h_ptr = (\<lambda>_. 0), h_size = (\<lambda>_. 0), base = 0x1000, freep = 0, brk = 0x4000, sbrk_ok = [True]\<rparr>"

lemma demo_heap_ok: "heap_ok 0x4000 demo_heap [] {}"
  by (simp add: heap_ok_def demo_heap_def)

theorem umalloc_fresh_block_witness:
  "\<exists>a h' L'. umalloc 100 demo_heap = Some (a + 16, h') \<and> heap_inv 0x4000 h' L' {a} \<and> unat a + 116 \<le> bend h' a"
proof -
  have "malloc_units 100 = 8" by (simp add: malloc_units_def)
  then have "unat (brk demo_heap) + 16 * unat (core_units (malloc_units 100)) < 2 ^ 31" "sbrk_next demo_heap"
    by (simp_all add: core_units_def demo_heap_def sbrk_next_def)
  then show ?thesis using umalloc_fresh_block [OF demo_heap_ok, of 100] by fastforce
qed

text \<open>
  C32. \<open>free\<close> of a block that the program holds returns; the block becomes free memory, merged with its free neighbours on
  both sides, so that the free blocks stay in address order with no two adjacent, no memory is lost, and the other
  held blocks keep their size and place.\<close>

theorem ufree_coalesces:
  assumes "heap_inv lo h L live" and "a \<in> live"
  shows "\<exists>h' L'. ufree (a + 16) h = Some h' \<and> heap_inv lo h' L' (live - {a}) \<and> (\<exists>c\<in>set L'. h_size h a \<le> h_size h' c)
    \<and> (\<forall>b\<in>live - {a}. h_size h' b = h_size h b) \<and> brk h' = brk h"
proof -
  have "insert a (live - {a}) = live" using assms(2) by auto
  then show ?thesis using ufree_inv [of lo h L a "live - {a}"] assms(1) by auto
qed

theorem ufree_coalesces_witness:
  "\<exists>a h h' L. umalloc 100 demo_heap = Some (a + 16, h) \<and> ufree (a + 16) h = Some h' \<and> heap_inv 0x4000 h' L {}"
proof -
  have "malloc_units 100 = 8" by (simp add: malloc_units_def)
  moreover have "heap_inv 0x4000 (set_size 0x1000 0 ((set_ptr 0x1000 0x1000 demo_heap)\<lparr>freep := 0x1000\<rparr>)) [] {}"
    using heap_ok_started(1) [OF demo_heap_ok] by (simp add: demo_heap_def)
  ultimately obtain a h L where m: "umalloc 100 demo_heap = Some (a + 16, h)" "heap_inv 0x4000 h L {a}"
    using malloc_loop_exact [of "0x4000" "set_size 0x1000 0 ((set_ptr 0x1000 0x1000 demo_heap)\<lparr>freep := 0x1000\<rparr>)" "[]" "{}" "8" False]
    by (auto simp: umalloc_def demo_heap_def core_units_def sbrk_next_def set_size_def set_ptr_def)
  from ufree_coalesces [OF m(2), of a] m(1) show ?thesis by fastforce
qed

end
