(* ===== verification/Spec2Isabelle.thy ===== *)
theory Spec2Isabelle
  imports Trap Ysh PipeFifo Spinlock ReadWrite Ulib Progs Umalloc
begin

text \<open>
  A verification development for the xv6-riscv kernel, its user programs and the course
  shell under src/Shell.

  \<^item> Prelude: outcomes (return, panic, sleep), table scans, little-endian encodings.
  \<^item> Layout: the constants and address arithmetic of kernel/param.h, memlayout.h and riscv.h.
  \<^item> Memory: byte memory and kernel/string.c.
  \<^item> Kalloc: the physical page allocator, kernel/kalloc.c.
\<close>

end
